(* ===== verification/Prelude.thy ===== *)
theory Prelude
  imports
    Main
    "HOL-Library.Word"
    "HOL-Library.Finite_Map"
    "HOL-Library.List_Lexorder"
    "HOL-Library.Product_Lexorder"
    "HOL-Library.Sublist"
begin

text \<open>
  Shared vocabulary of the development: the Rust base types as the model uses them, the error
  type of \<^verbatim>\<open>src/src/error.rs\<close>, little-endian integers, ordered maps
  (\<^verbatim>\<open>BTreeMap\<close>, \<^verbatim>\<open>HashMap\<close>) as finite maps, and the generic lemmas on prefixes, the
  lexicographic order, sorted lists and finite maps that the components share.

  A Rust \<^verbatim>\<open>String\<close> is the list of its Unicode scalar values (what \<^verbatim>\<open>chars()\<close>
  yields). Rust compares strings bytewise on their UTF-8 form, which is the lexicographic order
  of the scalar values. \<^verbatim>\<open>usize\<close>, \<^verbatim>\<open>u32\<close> and \<^verbatim>\<open>u64\<close> are \<open>nat\<close>, with
  the truncation of an \<open>as\<close> cast written out; \<^verbatim>\<open>i64\<close> is \<open>int\<close>, with saturation
  and wrap-around written out.
\<close>

section \<open>Base types\<close>

type_synonym byte = "8 word"
type_synonym rchar = nat
type_synonym rstr = "rchar list"

text \<open>A string literal of the source.\<close>

definition lit :: "string \<Rightarrow> rstr" where
  "lit s = map of_char s"

definition char_MAX :: rchar where
  "char_MAX = 1114111"

definition i64_MIN :: int where
  "i64_MIN = - (2 ^ 63)"

definition i64_MAX :: int where
  "i64_MAX = 2 ^ 63 - 1"

definition i64_ok :: "int \<Rightarrow> bool" where
  "i64_ok t \<longleftrightarrow> i64_MIN \<le> t \<and> t \<le> i64_MAX"

definition saturating_sub :: "int \<Rightarrow> int \<Rightarrow> int" where
  "saturating_sub a b = max i64_MIN (min i64_MAX (a - b))"

definition wrap_i64 :: "int \<Rightarrow> int" where
  "wrap_i64 t = (t + 2 ^ 63) mod 2 ^ 64 - 2 ^ 63"

text \<open>\<^verbatim>\<open>as u16\<close>, \<^verbatim>\<open>as u32\<close>: truncation.\<close>

definition as_u16 :: "nat \<Rightarrow> nat" where
  "as_u16 n = n mod 2 ^ 16"

definition as_u32 :: "nat \<Rightarrow> nat" where
  "as_u32 n = n mod 2 ^ 32"

section \<open>Errors (src/src/error.rs)\<close>

datatype io_kind = NotFound | OtherIo

datatype girder_error =
    Io io_kind
  | Corrupt string rstr
  | Encode rstr
  | ShutDown
  | Config rstr

type_synonym 'a result = "girder_error + 'a"

definition ok_or :: "'a option \<Rightarrow> girder_error \<Rightarrow> 'a result" where
  "ok_or x e = (case x of None \<Rightarrow> Inl e | Some v \<Rightarrow> Inr v)"

fun and_then :: "'a result \<Rightarrow> ('a \<Rightarrow> 'b result) \<Rightarrow> 'b result" where
  "and_then (Inl e) f = Inl e"
| "and_then (Inr x) f = f x"

text \<open>A loop whose body may return early with an error.\<close>

fun map_result :: "('a \<Rightarrow> 'b result) \<Rightarrow> 'a list \<Rightarrow> 'b list result" where
  "map_result f [] = Inr []"
| "map_result f (x # xs) =
     and_then (f x) (\<lambda>y. and_then (map_result f xs) (\<lambda>ys. Inr (y # ys)))"

section \<open>Decimal numerals\<close>

text \<open>\<^verbatim>\<open>format!("{n}")\<close>, \<^verbatim>\<open>format!("{n:0w}")\<close> and \<^verbatim>\<open>parse::<u64>()\<close>
  on digits.\<close>

fun dec :: "nat \<Rightarrow> rstr" where
  "dec n = (if n < 10 then [48 + n] else dec (n div 10) @ [48 + n mod 10])"

declare dec.simps [simp del]

definition dec_pad :: "nat \<Rightarrow> nat \<Rightarrow> rstr" where
  "dec_pad w n = replicate (w - length (dec n)) 48 @ dec n"

definition is_digit :: "rchar \<Rightarrow> bool" where
  "is_digit c \<longleftrightarrow> 48 \<le> c \<and> c \<le> 57"

definition parse_digits :: "rstr \<Rightarrow> nat" where
  "parse_digits s = foldl (\<lambda>a c. 10 * a + (c - 48)) 0 s"

text \<open>A leading plus sign is accepted.\<close>

definition parse_u64 :: "rstr \<Rightarrow> nat option" where
  "parse_u64 s =
     (let d = (case s of c # cs \<Rightarrow> if c = 43 then cs else s | [] \<Rightarrow> s)
      in if d \<noteq> [] \<and> list_all is_digit d \<and> parse_digits d < 2 ^ 64 then Some (parse_digits d) else None)"

section \<open>Little-endian integers\<close>

fun le_bytes :: "nat \<Rightarrow> nat \<Rightarrow> byte list" where
  "le_bytes 0 x = []"
| "le_bytes (Suc n) x = word_of_nat (x mod 256) # le_bytes n (x div 256)"

fun of_le :: "byte list \<Rightarrow> nat" where
  "of_le [] = 0"
| "of_le (b # bs) = unat b + 256 * of_le bs"

definition u32_le :: "nat \<Rightarrow> byte list" where
  "u32_le x = le_bytes 4 x"

definition u64_le :: "nat \<Rightarrow> byte list" where
  "u64_le x = le_bytes 8 x"

definition i64_le :: "int \<Rightarrow> byte list" where
  "i64_le t = le_bytes 8 (nat (t mod 2 ^ 64))"

definition of_i64_le :: "byte list \<Rightarrow> int" where
  "of_i64_le bs = wrap_i64 (int (of_le bs))"

section \<open>Ordered maps\<close>

text \<open>
  \<^verbatim>\<open>BTreeMap\<close> is a finite map whose iteration is key-ascending; \<^verbatim>\<open>HashMap\<close> is a
  finite map whose iteration order the code never depends on.
\<close>

type_synonym ('k, 'v) bmap = "('k, 'v) fmap"

abbreviation bt_entries :: "('k::linorder, 'v) bmap \<Rightarrow> ('k \<times> 'v) list" where
  "bt_entries \<equiv> sorted_list_of_fmap"

definition bt_values :: "('k::linorder, 'v) bmap \<Rightarrow> 'v list" where
  "bt_values m = map snd (bt_entries m)"

definition bt_keys :: "('k::linorder, 'v) bmap \<Rightarrow> 'k list" where
  "bt_keys m = map fst (bt_entries m)"

text \<open>A \<^verbatim>\<open>BTreeSet\<close> filled from a list, iterated.\<close>

definition btree_set :: "'k::linorder list \<Rightarrow> 'k list" where
  "btree_set xs = remdups_adj (sort xs)"

text \<open>The offset table of consecutive pieces: their running sum, from a start.\<close>

fun run_offsets :: "nat \<Rightarrow> nat list \<Rightarrow> nat list" where
  "run_offsets off [] = [off]"
| "run_offsets off (l # ls) = off # run_offsets (off + l) ls"

section \<open>Binary search\<close>

text \<open>
  The lower-bound-free binary search of \<^verbatim>\<open>KeysSection::find\<close> and
  \<^verbatim>\<open>slice::binary_search\<close>: the index of an element equal to the key, or nothing.
\<close>

function bsearch :: "(nat \<Rightarrow> 'a::linorder) \<Rightarrow> 'a \<Rightarrow> nat \<Rightarrow> nat \<Rightarrow> nat option" where
  "bsearch f x lo hi =
     (if lo < hi then
        (let mid = (lo + hi) div 2 in
         if f mid < x then bsearch f x (mid + 1) hi
         else if x < f mid then bsearch f x lo mid
         else Some mid)
      else None)"
  by pat_completeness auto
termination
  by (relation "measure (\<lambda>(f, x, lo, hi). hi - lo)") auto

declare bsearch.simps [simp del]

section \<open>Collections of facts\<close>

named_theorems codec_simps \<open>byte-level encoding and decoding\<close>
named_theorems bt_simps \<open>ordered maps and their iteration\<close>

section \<open>Casts, sets, offsets\<close>

lemma as_u16_id [simp]: "n < 2 ^ 16 \<Longrightarrow> as_u16 n = n"
  by (simp add: as_u16_def)

lemma as_u32_id [simp]: "n < 2 ^ 32 \<Longrightarrow> as_u32 n = n"
  by (simp add: as_u32_def)

lemma set_btree_set [simp]: "set (btree_set xs) = set xs"
  by (simp add: btree_set_def)

lemma length_run_offsets [simp]: "length (run_offsets off ls) = Suc (length ls)"
  by (induction ls arbitrary: off) auto

lemma run_offsets_nth: "i \<le> length ls \<Longrightarrow> run_offsets off ls ! i = off + sum_list (take i ls)"
proof (induction ls arbitrary: off i)
  case (Cons l ls)
  then show ?case by (cases i) auto
qed simp

lemma run_offsets_nonempty [simp]: "run_offsets off ls \<noteq> []"
  by (cases ls) auto

lemma run_offsets_last: "last (run_offsets off ls) = off + sum_list ls"
  by (induction ls arbitrary: off) auto

text \<open>A piece is where its offsets say.\<close>

lemma slice_concat:
  assumes "i < length xs"
  shows "take (length (xs ! i)) (drop (sum_list (map length (take i xs))) (concat xs)) = xs ! i"
proof -
  have "concat xs = concat (take i xs) @ xs ! i @ concat (drop (Suc i) xs)"
    by (metis assms append_take_drop_id concat.simps(2) concat_append Cons_nth_drop_Suc)
  moreover have "length (concat (take i xs)) = sum_list (map length (take i xs))"
    by (simp add: length_concat)
  ultimately show ?thesis by simp
qed

lemma run_offsets_diff:
  "i < length ls \<Longrightarrow> run_offsets off ls ! Suc i - run_offsets off ls ! i = ls ! i"
  by (simp add: run_offsets_nth take_Suc_conv_app_nth)

section \<open>Results\<close>

lemma and_then_Inr_iff [simp]:
  "and_then r f = Inr y \<longleftrightarrow> (\<exists>x. r = Inr x \<and> f x = Inr y)"
  by (cases r) auto

lemma and_then_Inl_iff:
  "and_then r f = Inl e \<longleftrightarrow> r = Inl e \<or> (\<exists>x. r = Inr x \<and> f x = Inl e)"
  by (cases r) auto

lemma map_result_Inr: "(\<And>x. x \<in> set xs \<Longrightarrow> f x = Inr (g x)) \<Longrightarrow> map_result f xs = Inr (map g xs)"
  by (induction xs) auto

section \<open>Decimal round trips\<close>

lemma parse_digits_dec: "parse_digits (dec n) = n"
proof (induction n rule: dec.induct)
  case (1 n)
  show ?case
  proof (cases "n < 10")
    case False
    with 1 show ?thesis by (subst dec.simps) (simp add: parse_digits_def)
  qed (simp add: dec.simps parse_digits_def)
qed

lemma dec_digits: "list_all is_digit (dec n)"
proof (induction n rule: dec.induct)
  case (1 n)
  have "is_digit (48 + k)" if "k < 10" for k using that by (simp add: is_digit_def)
  then show ?case using 1 by (subst dec.simps) auto
qed

lemma dec_nonempty [simp]: "dec n \<noteq> []"
  by (subst dec.simps) simp

lemma parse_digits_zeros: "parse_digits (replicate k 48 @ s) = parse_digits s"
proof -
  have "foldl (\<lambda>a c. 10 * a + (c - 48)) 0 (replicate k 48) = (0::nat)" by (induction k) auto
  then show ?thesis by (simp add: parse_digits_def)
qed

lemma dec_pad_digits: "list_all is_digit (dec_pad w n)" "dec_pad w n \<noteq> []"
  using dec_digits [of n] by (auto simp: dec_pad_def list_all_iff is_digit_def)

lemma parse_u64_dec_pad:
  assumes "n < 2 ^ 64"
  shows "parse_u64 (dec_pad w n) = Some n"
proof -
  obtain c cs where c: "dec_pad w n = c # cs" using dec_pad_digits(2) by (cases "dec_pad w n") auto
  with dec_pad_digits(1) [of w n] have "c \<noteq> 43" by (auto simp: is_digit_def)
  moreover have "parse_digits (dec_pad w n) = n" by (simp add: dec_pad_def parse_digits_zeros parse_digits_dec)
  ultimately show ?thesis
    using assms dec_pad_digits(1) [of w n] c by (simp add: parse_u64_def Let_def)
qed

lemma dec_pad_inj: "dec_pad w a = dec_pad w b \<Longrightarrow> a = b"
  by (metis dec_pad_def parse_digits_dec parse_digits_zeros)

section \<open>Little-endian round trips\<close>

lemma length_le_bytes [simp, codec_simps]: "length (le_bytes n x) = n"
  by (induction n arbitrary: x) auto

lemma of_le_le_bytes [codec_simps]: "of_le (le_bytes n x) = x mod 256 ^ n"
proof (induction n arbitrary: x)
  case (Suc n)
  have "unat (word_of_nat (x mod 256) :: byte) = x mod 256"
    by (simp add: unat_of_nat)
  then show ?case
    using Suc by (simp add: mod_mult2_eq ac_simps)
qed simp

lemma of_le_bound: "of_le bs < 256 ^ length bs"
proof (induction bs)
  case (Cons b bs)
  have "unat b < 256" using unsigned_less [of b] by simp
  moreover have "of_le bs + 1 \<le> 256 ^ length bs" using Cons by simp
  then have "256 * (of_le bs + 1) \<le> 256 * 256 ^ length bs" by simp
  ultimately show ?case by simp
qed simp

lemma length_u32_le [simp, codec_simps]: "length (u32_le x) = 4"
  by (simp add: u32_le_def)

lemma length_u64_le [simp, codec_simps]: "length (u64_le x) = 8"
  by (simp add: u64_le_def)

lemma length_i64_le [simp, codec_simps]: "length (i64_le t) = 8"
  by (simp add: i64_le_def)

lemma of_le_u32 [codec_simps]: "x < 2 ^ 32 \<Longrightarrow> of_le (u32_le x) = x"
  by (simp add: u32_le_def of_le_le_bytes)

lemma of_le_u64 [codec_simps]: "x < 2 ^ 64 \<Longrightarrow> of_le (u64_le x) = x"
  by (simp add: u64_le_def of_le_le_bytes)

lemma wrap_i64_id: "i64_ok t \<Longrightarrow> wrap_i64 t = t"
  by (auto simp: wrap_i64_def i64_ok_def i64_MIN_def i64_MAX_def)

lemma wrap_i64_ok: "i64_ok (wrap_i64 t)"
proof -
  have "0 \<le> (t + 2 ^ 63) mod 2 ^ 64" "(t + 2 ^ 63) mod 2 ^ 64 < 2 ^ 64" by simp_all
  then show ?thesis by (simp add: wrap_i64_def i64_ok_def i64_MIN_def i64_MAX_def)
qed

lemma wrap_i64_mod: "wrap_i64 (t mod 2 ^ 64) = wrap_i64 t"
  by (simp add: wrap_i64_def mod_simps)

lemma of_i64_le [codec_simps]:
  assumes "i64_ok t"
  shows "of_i64_le (i64_le t) = t"
proof -
  have "int (nat (t mod 2 ^ 64) mod 256 ^ 8) = t mod 2 ^ 64"
    by (simp add: zmod_int)
  then have "of_i64_le (i64_le t) = wrap_i64 (t mod 2 ^ 64)"
    by (simp only: of_i64_le_def i64_le_def of_le_le_bytes)
  also have "\<dots> = t"
    using assms by (simp only: wrap_i64_mod wrap_i64_id)
  finally show ?thesis .
qed

section \<open>Prefixes and the lexicographic order\<close>

lemma prefix_le:
  fixes k :: "'a::linorder list"
  shows "prefix p k \<Longrightarrow> p \<le> k"
proof (induction p arbitrary: k)
  case (Cons x p)
  from Cons.prems obtain k' where k: "k = x # k'" and "prefix p k'"
    by (cases k) auto
  then show ?case using Cons.IH [of k'] by simp
qed simp

lemma prefix_interval:
  fixes k :: "'a::linorder list"
  shows "prefix p a \<Longrightarrow> prefix p b \<Longrightarrow> a \<le> k \<Longrightarrow> k \<le> b \<Longrightarrow> prefix p k"
proof (induction p arbitrary: a b k)
  case Nil
  show ?case by simp
next
  case (Cons x p)
  from Cons.prems(1) obtain a' where a: "a = x # a'" and pa: "prefix p a'"
    by (cases a) auto
  from Cons.prems(2) obtain b' where b: "b = x # b'" and pb: "prefix p b'"
    by (cases b) auto
  from Cons.prems(3) a obtain y k' where k: "k = y # k'"
    by (cases k) auto
  from Cons.prems(3) a k have "x < y \<or> x = y \<and> a' \<le> k'" by simp
  moreover from Cons.prems(4) b k have "y < x \<or> y = x \<and> k' \<le> b'" by simp
  ultimately have "x = y" "a' \<le> k'" "k' \<le> b'" by auto
  then show ?case using Cons.IH [OF pa pb] k by simp
qed

lemma prefix_below:
  assumes "prefix p k" and "p < m" and "\<not> prefix p m"
  shows "k < (m :: 'a::linorder list)"
  using assms
proof (induction p arbitrary: k m)
  case (Cons x p)
  from Cons.prems(1) obtain k' where k: "k = x # k'" and pre: "prefix p k'"
    by (cases k) auto
  from Cons.prems(2) obtain y m' where m: "m = y # m'" by (cases m) auto
  show ?case
  proof (cases "x = y")
    case True
    with Cons.prems(2,3) m have "p < m'" "\<not> prefix p m'" by auto
    with Cons.IH [OF pre] k m True show ?thesis by simp
  next
    case False
    with Cons.prems(2) k m show ?thesis by auto
  qed
qed auto

lemma prefix_above:
  assumes "prefix p k" and "m < p"
  shows "m < (k :: 'a::linorder list)"
  using assms prefix_le less_le_trans by blast

lemma prefix_eq_length: "prefix p k \<Longrightarrow> prefix q k \<Longrightarrow> length p = length q \<Longrightarrow> p = q"
  by (metis append_eq_append_conv prefixE)

section \<open>Ordered maps\<close>

lemma map_fst_bt_entries [bt_simps]: "map fst (bt_entries m) = sorted_list_of_fset (fmdom m)"
  by (simp add: sorted_list_of_fmap_def comp_def)

lemma bt_keys_eq [bt_simps]: "bt_keys m = sorted_list_of_fset (fmdom m)"
  by (simp add: bt_keys_def bt_simps)

lemma strict_sorted_bt_keys [simp]: "sorted_wrt (<) (bt_keys m)"
  by (simp add: bt_simps sorted_list_of_fset.rep_eq)

lemma distinct_bt_keys [simp]: "distinct (bt_keys m)"
  by (simp add: bt_simps sorted_list_of_fset.rep_eq)

lemma distinct_bt_entries [simp]: "distinct (map fst (bt_entries m))"
  using distinct_bt_keys [of m] by (simp add: bt_keys_def)

lemma set_bt_keys [simp]: "set (bt_keys m) = fset (fmdom m)"
  by (simp add: bt_simps)

lemma in_set_bt_entries [simp]: "(k, v) \<in> set (bt_entries m) \<longleftrightarrow> fmlookup m k = Some v"
  by (metis distinct_bt_entries map_of_eq_Some_iff map_of_sorted_list)

lemma set_bt_values: "set (bt_values m) = fset (fmran m)"
proof -
  have "v \<in> set (bt_values m) \<longleftrightarrow> (\<exists>k. fmlookup m k = Some v)" for v
    unfolding bt_values_def by (metis (no_types, lifting) imageE image_eqI in_set_bt_entries
        list.set_map prod.collapse snd_conv)
  then show ?thesis by (auto simp: fmran.rep_eq ran_def)
qed

lemma bt_values_iff [bt_simps]: "v \<in> set (bt_values m) \<longleftrightarrow> (\<exists>k. fmlookup m k = Some v)"
  by (auto simp: set_bt_values fmran.rep_eq ran_def)

lemma bt_entries_fmempty [simp]: "bt_entries fmempty = []"
  by (simp add: sorted_list_of_fmap_def sorted_list_of_fset.rep_eq)

lemma length_bt_entries [simp]: "length (bt_entries m) = fcard (fmdom m)"
  by (simp add: sorted_list_of_fmap_def sorted_list_of_fset.rep_eq fcard.rep_eq)

lemma length_bt_values [simp]: "length (bt_values m) = fcard (fmdom m)"
  by (simp add: bt_values_def)

lemma fmap_of_bt_entries [simp]: "fmap_of_list (bt_entries m) = m"
  by (rule fmap_ext) (simp add: fmlookup_of_list)

section \<open>Sort and dedup\<close>

lemma strict_sorted_dedup: "sorted (xs :: 'a::linorder list) \<Longrightarrow> sorted_wrt (<) (remdups_adj xs)"
proof (induction xs rule: remdups_adj.induct)
  case (3 x y xs)
  show ?case
  proof (cases "x = y")
    case False
    with "3.prems" have "\<forall>z \<in> set (y # xs). x < z" by auto
    with "3.IH"(2) False "3.prems" show ?thesis by simp
  qed (use 3 in simp)
qed simp_all

lemma strict_sorted_sort_dedup [simp]: "sorted_wrt (<) (remdups_adj (sort xs))"
  by (simp add: strict_sorted_dedup)

lemma strict_sorted_btree_set [simp]: "sorted_wrt (<) (btree_set xs)"
  by (simp add: btree_set_def)

lemma distinct_btree_set [simp]: "distinct (btree_set xs)"
  using strict_sorted_btree_set [of xs] by (simp add: strict_sorted_iff)

lemma strict_sorted_eqI:
  "sorted_wrt (<) (xs :: 'a::linorder list) \<Longrightarrow> sorted_wrt (<) ys \<Longrightarrow> set xs = set ys \<Longrightarrow> xs = ys"
  by (simp add: strict_sorted_equal)

section \<open>Binary search\<close>

lemma bsearch_sound: "bsearch f x lo hi = Some i \<Longrightarrow> lo \<le> i \<and> i < hi \<and> f i = x"
proof (induction f x lo hi rule: bsearch.induct)
  case (1 f x lo hi)
  let ?mid = "(lo + hi) div 2"
  have lh: "lo < hi" using "1.prems" by (subst (asm) bsearch.simps) (auto split: if_splits)
  consider "f ?mid < x" | "x < f ?mid" | "f ?mid = x" by force
  then show ?case
  proof cases
    case 1
    with lh "1.prems" have "bsearch f x (?mid + 1) hi = Some i"
      by (simp add: bsearch.simps [of f x lo hi] Let_def)
    with "1.IH"(1) [OF lh refl 1] show ?thesis by auto
  next
    case 2
    with lh "1.prems" have "bsearch f x lo ?mid = Some i"
      by (simp add: bsearch.simps [of f x lo hi] Let_def less_not_sym)
    with "1.IH"(2) [OF lh refl] 2 have "lo \<le> i \<and> i < ?mid \<and> f i = x" by auto
    with lh show ?thesis by (auto intro: less_le_trans)
  next
    case 3
    with lh "1.prems" have "i = ?mid"
      by (simp add: bsearch.simps [of f x lo hi] Let_def)
    with 3 lh show ?thesis by auto
  qed
qed

lemma bsearch_complete:
  assumes "\<And>i j. lo \<le> i \<Longrightarrow> i < j \<Longrightarrow> j < hi \<Longrightarrow> f i \<le> f j"
    and "lo \<le> i" and "i < hi" and "f i = x"
  shows "bsearch f x lo hi \<noteq> None"
  using assms
proof (induction f x lo hi rule: bsearch.induct)
  case (1 f x lo hi)
  let ?mid = "(lo + hi) div 2"
  have lh: "lo < hi" using "1.prems" by simp
  have mid: "lo \<le> ?mid" "?mid < hi" using lh by auto
  consider "f ?mid < x" | "x < f ?mid" | "f ?mid = x" by force
  then show ?case
  proof cases
    case 1
    then have "?mid < i"
      using "1.prems"(1) [of i ?mid] "1.prems"(2-4) mid
      by (metis leD linorder_neqE_nat order_less_irrefl)
    then have "bsearch f x (?mid + 1) hi \<noteq> None"
      using "1.IH"(1) [OF lh refl 1] "1.prems" mid by auto
    with 1 lh show ?thesis by (simp add: bsearch.simps [of f x lo hi] Let_def)
  next
    case 2
    then have "i < ?mid"
      using "1.prems"(1) [of ?mid i] "1.prems"(2-4) mid
      by (metis leD linorder_neqE_nat order_less_irrefl)
    then have "bsearch f x lo ?mid \<noteq> None"
      using "1.IH"(2) [OF lh refl] 2 "1.prems" mid by auto
    with 2 lh show ?thesis by (simp add: bsearch.simps [of f x lo hi] Let_def less_not_sym)
  next
    case 3
    with lh show ?thesis by (simp add: bsearch.simps [of f x lo hi] Let_def)
  qed
qed

text \<open>On the keys of a strictly sorted list the search is exact.\<close>

lemma bsearch_keys:
  assumes sorted: "sorted_wrt (<) xs" and f: "\<And>i. i < length xs \<Longrightarrow> f i = xs ! i"
  shows "bsearch f x 0 (length xs) = Some i \<longleftrightarrow> i < length xs \<and> xs ! i = x"
proof
  assume "bsearch f x 0 (length xs) = Some i"
  then show "i < length xs \<and> xs ! i = x" using bsearch_sound f by fastforce
next
  assume i: "i < length xs \<and> xs ! i = x"
  have mono: "f i < f j" if "i < j" "j < length xs" for i j
    using sorted f that by (simp add: sorted_wrt_iff_nth_less)
  then have "bsearch f x 0 (length xs) \<noteq> None"
    using i f by (intro bsearch_complete [where i = i]) (auto intro: less_imp_le)
  then obtain k where k: "bsearch f x 0 (length xs) = Some k" by blast
  then have "k < length xs" "f k = x" using bsearch_sound by fastforce+
  with i f mono have "k = i" by (metis linorder_neqE_nat order_less_irrefl)
  with k show "bsearch f x 0 (length xs) = Some i" by simp
qed

lemma bsearch_list:
  "sorted_wrt (<) xs \<Longrightarrow> bsearch (\<lambda>i. xs ! i) x 0 (length xs) = Some i \<longleftrightarrow> i < length xs \<and> xs ! i = x"
  by (rule bsearch_keys) simp_all

lemma bsearch_list_None:
  assumes "sorted_wrt (<) xs"
  shows "bsearch (\<lambda>i. xs ! i) x 0 (length xs) = None \<longleftrightarrow> x \<notin> set xs"
  using bsearch_list [OF assms, of x]
  by (cases "bsearch (\<lambda>i. xs ! i) x 0 (length xs)") (auto simp: in_set_conv_nth)

end
