(* ===== verification/Float64.thy ===== *)
theory Float64
  imports Prelude
begin

text \<open>
  IEEE-754 binary64 as its 64 bits (\<^verbatim>\<open>f64::to_bits\<close>): what the source uses of the
  standard library's \<^verbatim>\<open>f64\<close> -- the comparisons (false on NaN), \<^verbatim>\<open>min\<close> and
  \<^verbatim>\<open>max\<close> (which ignore a NaN argument), addition rounded to nearest with ties to even --
  and \<^verbatim>\<open>f64_ordered\<close> of \<^verbatim>\<open>src/src/engine.rs\<close>, the integer image the ordered scans
  sort by.
\<close>

unbundle bit_operations_syntax

type_synonym f64 = "64 word"

section \<open>Bits\<close>

definition f64_neg :: "f64 \<Rightarrow> bool" where
  "f64_neg w \<longleftrightarrow> 2 ^ 63 \<le> uint w"

definition f64_mag :: "f64 \<Rightarrow> int" where
  "f64_mag w = uint w mod 2 ^ 63"

definition f64_inf_mag :: int where
  "f64_inf_mag = 2047 * 2 ^ 52"

definition f64_make :: "bool \<Rightarrow> int \<Rightarrow> f64" where
  "f64_make neg m = word_of_int ((if neg then 2 ^ 63 else 0) + m)"

definition f64_INFINITY :: f64 where
  "f64_INFINITY = f64_make False f64_inf_mag"

definition f64_NEG_INFINITY :: f64 where
  "f64_NEG_INFINITY = f64_make True f64_inf_mag"

definition f64_NAN :: f64 where
  "f64_NAN = f64_make False (f64_inf_mag + 2 ^ 51)"

definition is_nan :: "f64 \<Rightarrow> bool" where
  "is_nan w \<longleftrightarrow> f64_inf_mag < f64_mag w"

section \<open>Comparisons, min and max\<close>

text \<open>The two zeros compare equal: the signed magnitude is the comparison key.\<close>

definition f64_key :: "f64 \<Rightarrow> int" where
  "f64_key w = (if f64_neg w then - f64_mag w else f64_mag w)"

definition f64_le :: "f64 \<Rightarrow> f64 \<Rightarrow> bool" where
  "f64_le a b \<longleftrightarrow> \<not> is_nan a \<and> \<not> is_nan b \<and> f64_key a \<le> f64_key b"

definition f64_lt :: "f64 \<Rightarrow> f64 \<Rightarrow> bool" where
  "f64_lt a b \<longleftrightarrow> \<not> is_nan a \<and> \<not> is_nan b \<and> f64_key a < f64_key b"

definition f64_min :: "f64 \<Rightarrow> f64 \<Rightarrow> f64" where
  "f64_min a b =
     (if is_nan a then b else if is_nan b then a
      else if f64_key a \<le> f64_key b then a else b)"

definition f64_max :: "f64 \<Rightarrow> f64 \<Rightarrow> f64" where
  "f64_max a b =
     (if is_nan a then b else if is_nan b then a
      else if f64_key b \<le> f64_key a then a else b)"

section \<open>Addition\<close>

text \<open>
  A finite double is \<open>m * 2 ^ e\<close> in units of the least subnormal. A sum is taken exactly on the
  common exponent and rounded: \<open>s\<close> is the number of binary places the exact sum exceeds 53
  significant bits by, and \<open>s * 2 ^ 52 + q\<close> is the bit pattern of \<open>q * 2 ^ s\<close> for
  \<open>2 ^ 52 \<le> q \<le> 2 ^ 53\<close> (a carry out of the mantissa lands in the exponent).
\<close>

definition f64_mant :: "f64 \<Rightarrow> int" where
  "f64_mant w =
     (if f64_mag w < 2 ^ 52 then f64_mag w else 2 ^ 52 + f64_mag w mod 2 ^ 52)"

definition f64_exp :: "f64 \<Rightarrow> nat" where
  "f64_exp w = nat (f64_mag w div 2 ^ 52 - 1)"

function bit_len :: "int \<Rightarrow> nat" where
  "bit_len n = (if n \<le> 0 then 0 else Suc (bit_len (n div 2)))"
  by pat_completeness auto
termination
  by (relation "measure nat") auto

declare bit_len.simps [simp del]

definition round_div :: "int \<Rightarrow> nat \<Rightarrow> int" where
  "round_div n d =
     (let q = n div 2 ^ d; r = n mod 2 ^ d; half = 2 ^ d div 2 in
      if d \<noteq> 0 \<and> (half < r \<or> r = half \<and> odd q) then q + 1 else q)"

definition f64_round :: "int \<Rightarrow> nat \<Rightarrow> int" where
  "f64_round n e =
     (if n = 0 then 0 else
      let s = bit_len n + e - 53;
          q = (if s \<le> e then n * 2 ^ (e - s) else round_div n (s - e))
      in min f64_inf_mag (int s * 2 ^ 52 + q))"

definition f64_add :: "f64 \<Rightarrow> f64 \<Rightarrow> f64" where
  "f64_add a b =
     (if is_nan a \<or> is_nan b then f64_NAN
      else if f64_mag a = f64_inf_mag then
        (if f64_mag b = f64_inf_mag \<and> f64_neg a \<noteq> f64_neg b then f64_NAN else a)
      else if f64_mag b = f64_inf_mag then b
      else
        (let e = min (f64_exp a) (f64_exp b);
             ma = f64_mant a * 2 ^ (f64_exp a - e);
             mb = f64_mant b * 2 ^ (f64_exp b - e);
             s = (if f64_neg a then - ma else ma) + (if f64_neg b then - mb else mb)
         in f64_make (if s = 0 then f64_neg a \<and> f64_neg b else s < 0)
              (f64_round \<bar>s\<bar> e)))"

definition f64_zero :: f64 where
  "f64_zero = f64_make False 0"

section \<open>The ordered integer image (src/src/engine.rs, f64_ordered)\<close>

definition f64_ordered :: "f64 \<Rightarrow> 64 word" where
  "f64_ordered v =
     (if v AND (push_bit 63 1) \<noteq> 0 then NOT v else v OR (push_bit 63 1))"

section \<open>Lemmas on comparisons\<close>

lemma f64_mag_bound: "f64_mag w < 2 ^ 63"
  by (simp add: f64_mag_def)

lemma f64_le_refl [simp]: "f64_le a a \<longleftrightarrow> \<not> is_nan a"
  by (auto simp: f64_le_def)

lemma f64_le_trans: "f64_le a b \<Longrightarrow> f64_le b c \<Longrightarrow> f64_le a c"
  by (auto simp: f64_le_def)

lemma f64_lt_le_trans: "f64_lt a b \<Longrightarrow> f64_le b c \<Longrightarrow> f64_lt a c"
  by (auto simp: f64_lt_def f64_le_def)

lemma f64_le_not_lt: "f64_le a b \<Longrightarrow> \<not> f64_lt b a"
  by (auto simp: f64_lt_def f64_le_def)

lemma is_nan_min [simp]: "is_nan (f64_min a b) \<longleftrightarrow> is_nan a \<and> is_nan b"
  by (auto simp: f64_min_def)

lemma is_nan_max [simp]: "is_nan (f64_max a b) \<longleftrightarrow> is_nan a \<and> is_nan b"
  by (auto simp: f64_max_def)

lemma f64_min_le1: "\<not> is_nan a \<Longrightarrow> f64_le (f64_min a b) a"
  by (auto simp: f64_min_def f64_le_def)

lemma f64_min_le2: "\<not> is_nan b \<Longrightarrow> f64_le (f64_min a b) b"
  by (auto simp: f64_min_def f64_le_def)

lemma f64_max_ge1: "\<not> is_nan a \<Longrightarrow> f64_le a (f64_max a b)"
  by (auto simp: f64_max_def f64_le_def)

lemma f64_max_ge2: "\<not> is_nan b \<Longrightarrow> f64_le b (f64_max a b)"
  by (auto simp: f64_max_def f64_le_def)

lemma f64_min_id [simp]: "f64_min a a = a"
  by (simp add: f64_min_def)

lemma f64_max_id [simp]: "f64_max a a = a"
  by (simp add: f64_max_def)

lemma f64_bits_split: "uint w = (if f64_neg w then 2 ^ 63 else 0) + f64_mag w"
proof (cases "f64_neg w")
  case True
  have "uint w < 2 ^ 64" using uint_bounded [of w] by simp
  with True have "(uint w - 2 ^ 63) mod 2 ^ 63 = uint w - 2 ^ 63"
    by (intro mod_pos_pos_trivial) (simp_all add: f64_neg_def)
  then have "uint w mod 2 ^ 63 = uint w - 2 ^ 63"
    by (simp add: mod_diff_right_eq)
  with True show ?thesis by (simp add: f64_mag_def)
next
  case False
  then show ?thesis by (simp add: f64_neg_def f64_mag_def)
qed

lemma f64_bits_inj:
  assumes "f64_neg a = f64_neg b" and "f64_mag a = f64_mag b"
  shows "a = b"
proof -
  have "uint a = uint b" using assms by (simp add: f64_bits_split)
  then show ?thesis by (rule unsigned_word_eqI)
qed

lemma f64_add_comm: "f64_add a b = f64_add b a"
proof -
  consider (nan) "is_nan a \<or> is_nan b"
    | (inf) "\<not> is_nan a" "\<not> is_nan b" "f64_mag a = f64_inf_mag \<or> f64_mag b = f64_inf_mag"
    | (fin) "\<not> is_nan a" "\<not> is_nan b" "f64_mag a \<noteq> f64_inf_mag" "f64_mag b \<noteq> f64_inf_mag"
    by blast
  then show ?thesis
  proof cases
    case nan
    then show ?thesis by (auto simp: f64_add_def)
  next
    case inf
    then show ?thesis using f64_bits_inj [of a b] by (auto simp: f64_add_def)
  next
    case fin
    have swap: "x + y = y + x" for x y :: int by simp
    show ?thesis
      unfolding f64_add_def Let_def using fin
      by (simp only: if_False min.commute [of "f64_exp a"] conj_commute [of "f64_neg a"]
          swap [of "if f64_neg a then _ else _"])
  qed
qed

lemma f64_neg_bit: "f64_neg v \<longleftrightarrow> v AND (push_bit 63 1) \<noteq> 0"
proof -
  have "v AND push_bit 63 1 \<noteq> 0 \<longleftrightarrow> bit v 63"
  proof -
    have "v AND push_bit 63 1 = (if bit v 63 then push_bit 63 1 else 0)"
    proof (rule bit_word_eqI)
      fix n :: nat
      assume "n < LENGTH(64)"
      then have "63 \<le> n \<longleftrightarrow> n = 63" by auto
      then show "bit (v AND push_bit 63 1) n = bit (if bit v 63 then push_bit 63 1 else 0 :: f64) n"
        by (auto simp: bit_and_iff bit_push_bit_iff bit_1_iff simp del: push_bit_of_1
            push_bit_numeral)
    qed
    moreover have "push_bit 63 1 \<noteq> (0 :: f64)" by simp
    ultimately show ?thesis by presburger
  qed
  moreover have "bit v 63 \<longleftrightarrow> odd (uint v div 2 ^ 63)"
  proof -
    have "bit v 63 \<longleftrightarrow> bit (uint v) 63" by (simp add: bit_uint_iff)
    then show ?thesis by (simp only: bit_iff_odd)
  qed
  moreover have "odd (uint v div 2 ^ 63) \<longleftrightarrow> 2 ^ 63 \<le> uint v"
  proof -
    have "uint v < 2 ^ 64" "0 \<le> uint v" using uint_bounded [of v] by simp_all
    then have "uint v div 2 ^ 63 = 0 \<or> uint v div 2 ^ 63 = 1" by auto
    then show ?thesis by auto
  qed
  ultimately show ?thesis by (simp add: f64_neg_def)
qed

lemma uint_f64_ordered:
  "uint (f64_ordered v) = (if f64_neg v then 2 ^ 63 - 1 - f64_mag v else 2 ^ 63 + f64_mag v)"
proof (cases "f64_neg v")
  case True
  have "uint (NOT v) = 2 ^ 64 - 1 - uint v"
  proof -
    have "(word_of_int (2 ^ 64 - 1 - uint v) :: f64) = NOT v"
      by (simp add: not_eq_complement minus_diff_commute)
    then have "uint (NOT v) = uint (word_of_int (2 ^ 64 - 1 - uint v) :: f64)" by (rule arg_cong [OF sym])
    also have "\<dots> = (2 ^ 64 - 1 - uint v) mod 2 ^ 64"
      by (simp only: uint_word_of_int len_bit0 len_num1) simp
    also have "\<dots> = 2 ^ 64 - 1 - uint v"
      using uint_bounded [of v] uint_ge_0 [of v] by (intro mod_pos_pos_trivial) (simp, linarith)
    finally show ?thesis .
  qed
  moreover have "f64_ordered v = NOT v"
    using True by (simp only: f64_ordered_def f64_neg_bit [symmetric] if_True)
  ultimately show ?thesis
    using True f64_bits_split [of v] by simp
next
  case False
  have disj: "v AND push_bit 63 1 = 0" using False by (simp add: f64_neg_bit)
  have "v OR push_bit 63 1 = v + push_bit 63 1"
    by (rule disjunctive_add_eq_or [OF disj, symmetric])
  moreover have "uint (v + push_bit 63 1) = uint v + 2 ^ 63"
    using False by (simp add: uint_plus_if' f64_neg_def push_bit_eq_mult)
  moreover have "f64_ordered v = v OR push_bit 63 1"
    using False by (simp only: f64_ordered_def f64_neg_bit [symmetric] if_False)
  ultimately show ?thesis
    using False f64_bits_split [of v] by simp
qed

lemma f64_ordered_mono:
  assumes "f64_lt a b"
  shows "f64_ordered a < f64_ordered b"
proof -
  have "f64_key a < f64_key b" using assms by (simp add: f64_lt_def)
  moreover have "0 \<le> f64_mag a" "0 \<le> f64_mag b" by (simp_all add: f64_mag_def)
  ultimately have "uint (f64_ordered a) < uint (f64_ordered b)"
    by (auto simp: uint_f64_ordered f64_key_def split: if_splits)
  then show ?thesis by (simp add: word_less_def)
qed

lemma f64_ordered_inj: "f64_ordered a = f64_ordered b \<longleftrightarrow> a = b"
proof
  assume "f64_ordered a = f64_ordered b"
  then have "uint (f64_ordered a) = uint (f64_ordered b)" by simp
  moreover have "0 \<le> f64_mag a" "0 \<le> f64_mag b" "f64_mag a < 2 ^ 63" "f64_mag b < 2 ^ 63"
    by (simp_all add: f64_mag_def)
  ultimately show "a = b"
    by (intro f64_bits_inj) (auto simp: uint_f64_ordered split: if_splits)
qed simp

end
