(* ===== verification/Text_Search.thy ===== *)
theory Text_Search
  imports Prelude
begin

text \<open>
  \<^verbatim>\<open>src/src/text.rs\<close>: the full-text tokenizer, the AND-of-tokens match, the SQL
  \<^verbatim>\<open>LIKE\<close> matcher and the token constraints a \<^verbatim>\<open>LIKE\<close> pattern implies.

  The Unicode tables behind \<^verbatim>\<open>char::is_alphanumeric\<close> and
  \<^verbatim>\<open>str::to_lowercase\<close> are a parameter (the record \<open>unicode\<close>); what the code relies on
  is stated where a lemma needs it (\<open>unicode_ok\<close>).

  The matcher's two-pointer loop with backtracking to the last \<^verbatim>\<open>%\<close> is proved equal to
  the recursive reading of the pattern (\<open>like_spec\<close>); the constraints are proved sound: a
  text the pattern matches has tokens that satisfy every one of them.
\<close>

section \<open>Tokens\<close>

record unicode =
  uc_alnum :: "rchar \<Rightarrow> bool"
  uc_lower :: "rstr \<Rightarrow> rstr"

text \<open>\<^verbatim>\<open>str::split\<close> with a predicate: the pieces between separators, empty ones too.\<close>

fun split_on :: "('a \<Rightarrow> bool) \<Rightarrow> 'a list \<Rightarrow> 'a list list" where
  "split_on P [] = [[]]"
| "split_on P (c # cs) =
     (if P c then [] # split_on P cs
      else (case split_on P cs of [] \<Rightarrow> [[c]] | w # ws \<Rightarrow> (c # w) # ws))"

definition fts_tokens :: "unicode \<Rightarrow> rstr \<Rightarrow> rstr list" where
  "fts_tokens U text =
     map (uc_lower U) (filter (\<lambda>w. w \<noteq> []) (split_on (\<lambda>c. \<not> uc_alnum U c) text))"

definition text_contains_all :: "unicode \<Rightarrow> rstr option \<Rightarrow> rstr list \<Rightarrow> bool" where
  "text_contains_all U text want =
     (if want = [] then False
      else (case text of
              None \<Rightarrow> False
            | Some t \<Rightarrow> list_all (\<lambda>w. w \<in> set (fts_tokens U t)) want))"

section \<open>LIKE\<close>

definition pct :: rchar where "pct = of_char (CHR ''%'')"
definition underscore :: rchar where "underscore = of_char (CHR ''_'')"

text \<open>The matching loop, its state the two indices and the last \<^verbatim>\<open>%\<close> seen.\<close>

function like_loop :: "rstr \<Rightarrow> rstr \<Rightarrow> nat \<Rightarrow> nat \<Rightarrow> (nat \<times> nat) option \<Rightarrow> bool" where
  "like_loop p t pi ti star =
     (if ti < length t then
        (if pi < length p \<and> (p ! pi = underscore \<or> p ! pi = t ! ti) then
           like_loop p t (pi + 1) (ti + 1) star
         else if pi < length p \<and> p ! pi = pct then
           like_loop p t (pi + 1) ti (Some (pi + 1, ti))
         else
           (case star of
              Some (sp, st) \<Rightarrow> like_loop p t sp (st + 1) (Some (sp, st + 1))
            | None \<Rightarrow> False))
      else dropWhile (\<lambda>c. c = pct) (drop pi p) = [])"
  by pat_completeness auto
termination
  by (relation "measures [\<lambda>(p, t, pi, ti, star).
                   case star of None \<Rightarrow> length t - ti + 1
                   | Some (sp, st) \<Rightarrow> max (length t - st) (length t - ti),
                 \<lambda>(p, t, pi, ti, star). (length t - ti) + (length p - pi)]")
     (auto split: option.splits)

declare like_loop.simps [simp del]

definition like_match :: "rstr \<Rightarrow> rstr \<Rightarrow> bool" where
  "like_match pattern text = like_loop pattern text 0 0 None"

text \<open>The reading of a pattern, character by character: the specification.\<close>

fun like_spec :: "rstr \<Rightarrow> rstr \<Rightarrow> bool" where
  "like_spec [] t = (t = [])"
| "like_spec (c # p) [] = (c = pct \<and> like_spec p [])"
| "like_spec (c # p) (d # t) =
     (if c = pct then like_spec p (d # t) \<or> like_spec (c # p) t
      else (c = underscore \<or> c = d) \<and> like_spec p t)"

section \<open>Token constraints of a LIKE pattern\<close>

datatype like_constraint = Token rstr | Prefix rstr

instantiation like_constraint :: linorder
begin

text \<open>\<^verbatim>\<open>derive(Ord)\<close>: by variant, then by payload.\<close>

fun lc_key :: "like_constraint \<Rightarrow> nat \<times> rstr" where
  "lc_key (Token s) = (0, s)"
| "lc_key (Prefix s) = (1, s)"

definition less_eq_like_constraint :: "like_constraint \<Rightarrow> like_constraint \<Rightarrow> bool" where
  "less_eq_like_constraint a b \<longleftrightarrow> lc_key a \<le> lc_key b"

definition less_like_constraint :: "like_constraint \<Rightarrow> like_constraint \<Rightarrow> bool" where
  "less_like_constraint a b \<longleftrightarrow> lc_key a < lc_key b"

instance
proof
  fix a b c :: like_constraint
  show "(a < b) = (a \<le> b \<and> \<not> b \<le> a)"
    by (auto simp: less_eq_like_constraint_def less_like_constraint_def)
  show "a \<le> a" by (simp add: less_eq_like_constraint_def)
  show "a \<le> b \<Longrightarrow> b \<le> c \<Longrightarrow> a \<le> c"
    unfolding less_eq_like_constraint_def by (rule order_trans)
  show "a \<le> b \<Longrightarrow> b \<le> a \<Longrightarrow> a = b"
    by (cases a; cases b) (auto simp: less_eq_like_constraint_def)
  show "a \<le> b \<or> b \<le> a"
    unfolding less_eq_like_constraint_def by (rule linear)
qed

end

definition is_ascii_alnum :: "rchar \<Rightarrow> bool" where
  "is_ascii_alnum c \<longleftrightarrow>
     (48 \<le> c \<and> c \<le> 57) \<or> (65 \<le> c \<and> c \<le> 90) \<or> (97 \<le> c \<and> c \<le> 122)"

definition to_ascii_lower :: "rchar \<Rightarrow> rchar" where
  "to_ascii_lower c = (if 65 \<le> c \<and> c \<le> 90 then c + 32 else c)"

definition is_wild :: "rchar \<Rightarrow> bool" where
  "is_wild c \<longleftrightarrow> c = pct \<or> c = underscore"

text \<open>\<^verbatim>\<open>while j < limit && P(chars[j]) { j += 1 }\<close>\<close>

function scan_while :: "(rchar \<Rightarrow> bool) \<Rightarrow> rstr \<Rightarrow> nat \<Rightarrow> nat \<Rightarrow> nat" where
  "scan_while P cs limit j =
     (if j < limit \<and> P (cs ! j) then scan_while P cs limit (j + 1) else j)"
  by pat_completeness auto
termination
  by (relation "measure (\<lambda>(P, cs, limit, j). limit - j)") auto

declare scan_while.simps [simp del]

lemma scan_while_ge: "j \<le> scan_while P cs limit j"
proof (induction P cs limit j rule: scan_while.induct)
  case (1 P cs limit j)
  then show ?case by (subst scan_while.simps) auto
qed

lemma scan_while_gt: "j < limit \<Longrightarrow> P (cs ! j) \<Longrightarrow> j < scan_while P cs limit j"
  using scan_while_ge [of "j + 1" P cs limit] by (subst scan_while.simps) auto

text \<open>The words of one literal run \<open>[run_start, run_end)\<close>, from position \<open>a\<close> on.\<close>

definition word_constraint ::
  "unicode \<Rightarrow> rstr \<Rightarrow> nat \<Rightarrow> nat \<Rightarrow> nat \<Rightarrow> nat \<Rightarrow> like_constraint list" where
  "word_constraint U chars run_start run_end a b =
     (let left_complete = (a > run_start \<or> run_start = 0);
          right_complete = (b < run_end \<or> run_end = length chars);
          word = take (b - a) (drop a chars)
      in if left_complete \<and> right_complete then [Token (uc_lower U word)]
         else if left_complete then
           (let ascii = map to_ascii_lower (takeWhile is_ascii_alnum word)
            in if ascii \<noteq> [] then [Prefix ascii] else [])
         else [])"

function run_constraints ::
  "unicode \<Rightarrow> rstr \<Rightarrow> nat \<Rightarrow> nat \<Rightarrow> nat \<Rightarrow> like_constraint list" where
  "run_constraints U chars run_start run_end a =
     (if a < run_end then
        (if \<not> uc_alnum U (chars ! a) then run_constraints U chars run_start run_end (a + 1)
         else
           (let b = scan_while (uc_alnum U) chars run_end a
            in word_constraint U chars run_start run_end a b @
               run_constraints U chars run_start run_end b))
      else [])"
  by pat_completeness auto
termination
proof (relation "measure (\<lambda>(U, chars, rs, re, a). re - a)", goal_cases)
  case (3 U chars rs re a b)
  then show ?case using scan_while_gt [of a re "uc_alnum U" chars] by auto
qed auto

declare run_constraints.simps [simp del]

function runs_constraints :: "unicode \<Rightarrow> rstr \<Rightarrow> nat \<Rightarrow> like_constraint list" where
  "runs_constraints U chars i =
     (if i < length chars then
        (if is_wild (chars ! i) then runs_constraints U chars (i + 1)
         else
           (let run_end = scan_while (\<lambda>c. \<not> is_wild c) chars (length chars) i
            in run_constraints U chars i run_end i @ runs_constraints U chars run_end))
      else [])"
  by pat_completeness auto
termination
proof (relation "measure (\<lambda>(U, chars, i). length chars - i)", goal_cases)
  case (3 U chars i re)
  then show ?case
    using scan_while_gt [of i "length chars" "\<lambda>c. \<not> is_wild c" chars] by auto
qed auto

declare runs_constraints.simps [simp del]

definition like_constraints :: "unicode \<Rightarrow> rstr \<Rightarrow> like_constraint list" where
  "like_constraints U pattern = remdups_adj (sort (runs_constraints U pattern 0))"

text \<open>Does a token list satisfy a constraint?\<close>

fun satisfies :: "rstr list \<Rightarrow> like_constraint \<Rightarrow> bool" where
  "satisfies toks (Token w) = (w \<in> set toks)"
| "satisfies toks (Prefix w) = (\<exists>x \<in> set toks. prefix w x)"

section \<open>What the code relies on of the Unicode tables\<close>

text \<open>
  The two wildcards are not alphanumeric, and lowercasing maps a leading run of ASCII
  alphanumerics one to one, whatever follows.
\<close>

definition unicode_ok :: "unicode \<Rightarrow> bool" where
  "unicode_ok U \<longleftrightarrow>
     \<not> uc_alnum U pct \<and> \<not> uc_alnum U underscore \<and>
     (\<forall>a x. list_all is_ascii_alnum a \<longrightarrow> prefix (map to_ascii_lower a) (uc_lower U (a @ x)))"

section \<open>The matcher against its specification\<close>

lemma pct_underscore [simp]: "pct \<noteq> underscore" "underscore \<noteq> pct"
  by (simp_all add: pct_def underscore_def)

lemma like_spec_pct: "like_spec (pct # p) t \<longleftrightarrow> (\<exists>k \<le> length t. like_spec p (drop k t))"
proof (induction t)
  case (Cons d t)
  have "(\<exists>k \<le> length (d # t). like_spec p (drop k (d # t))) \<longleftrightarrow>
        like_spec p (d # t) \<or> (\<exists>k \<le> length t. like_spec p (drop k t))"
    (is "?l \<longleftrightarrow> ?r")
  proof
    assume ?l
    then obtain k where "k \<le> length (d # t)" "like_spec p (drop k (d # t))" by blast
    then show ?r by (cases k) auto
  next
    assume ?r
    then show ?l by (metis Suc_le_mono drop0 drop_Suc_Cons le0 length_Cons)
  qed
  then show ?case using Cons by simp
qed simp

lemma like_spec_Nil: "like_spec p [] \<longleftrightarrow> dropWhile (\<lambda>c. c = pct) p = []"
  by (induction p) auto

lemma like_spec_pct_mono:
  assumes "like_spec (pct # p) (drop k t)" and "i \<le> k"
  shows "like_spec (pct # p) (drop i t)"
proof -
  obtain j where j: "j \<le> length (drop k t)" "like_spec p (drop j (drop k t))"
    using assms(1) by (auto simp: like_spec_pct)
  show ?thesis
  proof (cases "k \<le> length t")
    case True
    with j assms(2) have "j + k - i \<le> length (drop i t)" "like_spec p (drop (j + k - i) (drop i t))"
      by (simp_all add: add.commute)
    then show ?thesis unfolding like_spec_pct by blast
  next
    case False
    with j have "like_spec p []" by simp
    then have "like_spec p (drop (length (drop i t)) (drop i t))" by simp
    then show ?thesis unfolding like_spec_pct by blast
  qed
qed

lemma like_spec_segment:
  assumes "pct \<notin> set seg" and "like_spec (seg @ q) u"
  shows "length seg \<le> length u \<and> like_spec q (drop (length seg) u)"
  using assms
proof (induction seg arbitrary: u)
  case (Cons c seg)
  then obtain d u' where "u = d # u'" by (cases u) auto
  with Cons show ?case by auto
qed simp

text \<open>What the loop's state stands for: the rest matches here, or after the last
  \<^verbatim>\<open>%\<close> has swallowed more.\<close>

definition like_R :: "rstr \<Rightarrow> rstr \<Rightarrow> nat \<Rightarrow> nat \<Rightarrow> (nat \<times> nat) option \<Rightarrow> bool" where
  "like_R p t pi ti star \<longleftrightarrow>
     like_spec (drop pi p) (drop ti t) \<or>
     (\<exists>sp st k. star = Some (sp, st) \<and> st < k \<and> k \<le> length t \<and>
        like_spec (drop sp p) (drop k t))"

lemma drop_Suc_nth: "i < length xs \<Longrightarrow> drop i xs = xs ! i # drop (i + 1) xs"
  by (simp add: Cons_nth_drop_Suc)

lemma like_loop_sound:
  "ti \<le> length t \<Longrightarrow> (\<And>sp st. star = Some (sp, st) \<Longrightarrow> st \<le> ti) \<Longrightarrow>
   like_loop p t pi ti star \<Longrightarrow> like_R p t pi ti star"
proof (induction p t pi ti star rule: like_loop.induct)
  case (1 p t pi ti star)
  show ?case
  proof (cases "ti < length t")
    case False
    with "1.prems"(3) have "like_spec (drop pi p) []"
      by (subst (asm) like_loop.simps) (simp add: like_spec_Nil)
    with False show ?thesis by (simp add: like_R_def)
  next
    case lt: True
    note t = drop_Suc_nth [OF lt]
    consider (chr) "pi < length p" "p ! pi = underscore \<or> p ! pi = t ! ti"
      | (wild) "pi < length p" "\<not> (p ! pi = underscore \<or> p ! pi = t ! ti)" "p ! pi = pct"
      | (retry) "\<not> (pi < length p \<and> (p ! pi = underscore \<or> p ! pi = t ! ti))"
          "\<not> (pi < length p \<and> p ! pi = pct)"
      by blast
    then show ?thesis
    proof cases
      case chr
      note p = drop_Suc_nth [OF chr(1)]
      have "like_loop p t (pi + 1) (ti + 1) star"
        using "1.prems"(3) lt chr by (simp add: like_loop.simps [of p t pi ti])
      then have "like_R p t (pi + 1) (ti + 1) star" using "1.IH"(1) "1.prems"(2) lt chr
        by (simp add: le_SucI)
      moreover have "like_spec (drop (pi + 1) p) (drop (ti + 1) t) \<Longrightarrow> like_spec (drop pi p) (drop ti t)"
      proof (cases "p ! pi = pct")
        case True
        assume *: "like_spec (drop (pi + 1) p) (drop (ti + 1) t)"
        then have "like_spec (pct # drop (pi + 1) p) (drop (ti + 1) t)"
          unfolding like_spec_pct by (metis drop0 le0)
        then show ?thesis unfolding p t by (simp add: True)
      qed (use chr p t in auto)
      ultimately show ?thesis by (auto simp: like_R_def)
    next
      case wild
      note p = drop_Suc_nth [OF wild(1)]
      have "like_loop p t (pi + 1) ti (Some (pi + 1, ti))"
        using "1.prems"(3) lt wild by (simp add: like_loop.simps [of p t pi ti])
      then have "like_R p t (pi + 1) ti (Some (pi + 1, ti))" using "1.IH"(2) lt wild by simp
      then obtain k where "ti \<le> k" "k \<le> length t" "like_spec (drop (pi + 1) p) (drop k t)"
        using lt by (auto simp: like_R_def intro: less_imp_le)
      then have "like_spec (pct # drop (pi + 1) p) (drop ti t)"
        unfolding like_spec_pct by (intro exI [of _ "k - ti"]) (simp add: add.commute)
      then show ?thesis by (simp add: like_R_def p wild)
    next
      case retry
      then obtain sp st where star: "star = Some (sp, st)"
        and l: "like_loop p t sp (st + 1) (Some (sp, st + 1))"
        using "1.prems"(3) lt
        by (auto simp: like_loop.simps [of p t pi ti] split: option.splits if_splits prod.splits)
      have "st + 1 \<le> length t" using "1.prems"(2) [OF star] lt by simp
      with l "1.IH"(3) [OF lt retry star refl]
      have "like_R p t sp (st + 1) (Some (sp, st + 1))" by simp
      then obtain k where "st < k" "k \<le> length t" "like_spec (drop sp p) (drop k t)"
        using \<open>st + 1 \<le> length t\<close> by (auto simp: like_R_def intro: Suc_lessD)
      then show ?thesis using star by (auto simp: like_R_def)
    qed
  qed
qed

text \<open>
  The converse needs a text without a literal \<^verbatim>\<open>%\<close>: the loop's first branch takes a
  \<^verbatim>\<open>%\<close> of the pattern for a literal when the text has one at that place, and then has no
  \<^verbatim>\<open>%\<close> to come back to.
\<close>

definition star_inv :: "rstr \<Rightarrow> nat \<Rightarrow> nat \<Rightarrow> (nat \<times> nat) option \<Rightarrow> bool" where
  "star_inv p pi ti star \<longleftrightarrow> pi \<le> length p \<and>
     (\<forall>sp st. star = Some (sp, st) \<longrightarrow>
        st \<le> ti \<and> sp + (ti - st) = pi \<and> pct \<notin> set (take (pi - sp) (drop sp p)))"

lemma star_inv_segment:
  assumes inv: "star_inv p pi ti (Some (sp, st))" and l: "like_spec (drop sp p) u"
  shows "ti - st \<le> length u \<and> like_spec (drop pi p) (drop (ti - st) u)"
proof -
  let ?seg = "take (ti - st) (drop sp p)"
  have "drop sp p = ?seg @ drop pi p"
    using inv by (metis append_take_drop_id drop_drop add.commute star_inv_def)
  moreover have "length ?seg = ti - st" using inv by (auto simp: star_inv_def)
  moreover have "pct \<notin> set ?seg" using inv by (auto simp: star_inv_def)
  ultimately show ?thesis using like_spec_segment [of ?seg "drop pi p" u] l by simp
qed

lemma star_inv_step:
  assumes "star_inv p pi ti star" and "pi < length p" and "p ! pi \<noteq> pct"
  shows "star_inv p (pi + 1) (ti + 1) star"
proof -
  have "take (pi + 1 - sp) (drop sp p) = take (pi - sp) (drop sp p) @ [p ! pi]" if "sp \<le> pi" for sp
    using assms(2) that by (simp add: Suc_diff_le take_Suc_conv_app_nth)
  then show ?thesis using assms by (auto simp: star_inv_def Suc_diff_le)
qed

lemma like_loop_complete:
  "pct \<notin> set t \<Longrightarrow> ti \<le> length t \<Longrightarrow> star_inv p pi ti star \<Longrightarrow> like_R p t pi ti star \<Longrightarrow>
   like_loop p t pi ti star"
proof (induction p t pi ti star rule: like_loop.induct)
  case (1 p t pi ti star)
  note inv = "1.prems"(3)
  show ?case
  proof (cases "ti < length t")
    case False
    then have ti: "ti = length t" using "1.prems"(2) by simp
    have "\<not> (star = Some (sp, st) \<and> st < k \<and> k \<le> length t \<and> like_spec (drop sp p) (drop k t))" for sp st k
    proof
      assume *: "star = Some (sp, st) \<and> st < k \<and> k \<le> length t \<and> like_spec (drop sp p) (drop k t)"
      then have "ti - st \<le> length (drop k t)"
        using inv star_inv_segment [of p pi ti sp st "drop k t"] by simp
      with * ti show False by auto
    qed
    then have "like_spec (drop pi p) []" using "1.prems"(4) ti by (auto simp: like_R_def)
    with False show ?thesis by (subst like_loop.simps) (simp add: like_spec_Nil)
  next
    case lt: True
    note t = drop_Suc_nth [OF lt]
    have tpct: "t ! ti \<noteq> pct" using "1.prems"(1) lt by (metis nth_mem)
    consider (chr) "pi < length p" "p ! pi = underscore \<or> p ! pi = t ! ti"
      | (wild) "pi < length p" "\<not> (p ! pi = underscore \<or> p ! pi = t ! ti)" "p ! pi = pct"
      | (retry) "\<not> (pi < length p \<and> (p ! pi = underscore \<or> p ! pi = t ! ti))"
          "\<not> (pi < length p \<and> p ! pi = pct)"
      by blast
    then show ?thesis
    proof cases
      case chr
      note p = drop_Suc_nth [OF chr(1)]
      have np: "p ! pi \<noteq> pct" using chr(2) tpct by auto
      have "like_R p t (pi + 1) (ti + 1) star"
        using "1.prems"(4) chr np p t by (auto simp: like_R_def)
      then have "like_loop p t (pi + 1) (ti + 1) star"
        using "1.IH"(1) "1.prems"(1) lt chr star_inv_step [OF inv chr(1) np] by simp
      then show ?thesis using lt chr by (subst like_loop.simps) simp
    next
      case wild
      note p = drop_Suc_nth [OF wild(1)]
      have pm: "drop pi p = pct # drop (pi + 1) p" using p wild by simp
      have "like_spec (pct # drop (pi + 1) p) (drop ti t)"
        using "1.prems"(4) unfolding like_R_def
      proof (elim disjE exE conjE)
        fix sp st k
        assume *: "star = Some (sp, st)" "st < k" "k \<le> length t" "like_spec (drop sp p) (drop k t)"
        then have "like_spec (drop pi p) (drop (ti - st) (drop k t))"
          using inv star_inv_segment [of p pi ti sp st "drop k t"] by simp
        then have "like_spec (pct # drop (pi + 1) p) (drop (ti - st + k) t)" by (simp add: pm)
        then show ?thesis by (rule like_spec_pct_mono) (use * in simp)
      qed (simp add: pm)
      then obtain j where "j \<le> length (drop ti t)" "like_spec (drop (pi + 1) p) (drop (j + ti) t)"
        by (auto simp: like_spec_pct)
      then have "like_R p t (pi + 1) ti (Some (pi + 1, ti))"
        using lt by (cases j) (auto simp: like_R_def intro!: exI [of _ "j + ti"])
      moreover have "star_inv p (pi + 1) ti (Some (pi + 1, ti))"
        using wild(1) by (auto simp: star_inv_def)
      ultimately have "like_loop p t (pi + 1) ti (Some (pi + 1, ti))"
        using "1.IH"(2) "1.prems"(1) lt wild by simp
      then show ?thesis using lt wild by (subst like_loop.simps) simp
    next
      case retry
      have "\<not> like_spec (drop pi p) (drop ti t)"
      proof (cases "pi < length p")
        case True
        show ?thesis unfolding drop_Suc_nth [OF True] t using retry True by auto
      qed (simp add: t)
      then obtain sp st k where star: "star = Some (sp, st)" and k: "st < k" "k \<le> length t"
        "like_spec (drop sp p) (drop k t)"
        using "1.prems"(4) by (auto simp: like_R_def)
      have "like_R p t sp (st + 1) (Some (sp, st + 1))"
        using k by (cases "k = st + 1") (auto simp: like_R_def intro!: exI [of _ k])
      moreover have "star_inv p sp (st + 1) (Some (sp, st + 1))"
        using inv star by (auto simp: star_inv_def)
      ultimately have "like_loop p t sp (st + 1) (Some (sp, st + 1))"
        using "1.IH"(3) [OF lt retry star refl] "1.prems"(1) k by simp
      then show ?thesis using lt retry star by (subst like_loop.simps) auto
    qed
  qed
qed

lemma like_match_sound: "like_match p t \<Longrightarrow> like_spec p t"
  using like_loop_sound [of 0 t None p 0] by (auto simp: like_match_def like_R_def)

lemma like_match_complete: "pct \<notin> set t \<Longrightarrow> like_spec p t \<Longrightarrow> like_match p t"
  using like_loop_complete [of t 0 p 0 None] by (simp add: like_match_def like_R_def star_inv_def)

section \<open>Soundness of the token constraints\<close>

lemma like_spec_append:
  "like_spec (p1 @ p2) t \<Longrightarrow> \<exists>t1 t2. t = t1 @ t2 \<and> like_spec p1 t1 \<and> like_spec p2 t2"
proof (induction p1 arbitrary: t)
  case Nil
  then show ?case by auto
next
  case (Cons c p1)
  show ?case
  proof (cases "c = pct")
    case True
    with Cons.prems obtain k where k: "k \<le> length t" "like_spec (p1 @ p2) (drop k t)"
      by (auto simp: like_spec_pct)
    with Cons.IH obtain t1 t2 where t: "drop k t = t1 @ t2" "like_spec p1 t1" "like_spec p2 t2"
      by blast
    have "t = (take k t @ t1) @ t2" using t(1) by (metis append.assoc append_take_drop_id)
    moreover have "like_spec (c # p1) (take k t @ t1)"
      unfolding True like_spec_pct using k t(2) by (intro exI [of _ k]) simp
    ultimately show ?thesis using t(3) by blast
  next
    case False
    with Cons.prems obtain d t' where t: "t = d # t'" and d: "c = underscore \<or> c = d"
      and l: "like_spec (p1 @ p2) t'" by (cases t) auto
    from Cons.IH [OF l] obtain t1 t2 where "t' = t1 @ t2" "like_spec p1 t1" "like_spec p2 t2"
      by blast
    with t d False show ?thesis by (intro exI [of _ "d # t1"] exI [of _ t2]) auto
  qed
qed

lemma like_spec_literal: "list_all (\<lambda>c. \<not> is_wild c) w \<Longrightarrow> like_spec w t \<Longrightarrow> t = w"
proof (induction w arbitrary: t)
  case (Cons c w)
  then show ?case by (cases t) (auto simp: is_wild_def)
qed simp

lemma split_on_sep: "P c \<Longrightarrow> split_on P (xs @ c # ys) = split_on P xs @ split_on P ys"
proof (induction xs)
  case (Cons x xs)
  have "split_on P xs \<noteq> []" by (cases xs) (auto split: list.splits)
  with Cons show ?case by (auto split: list.splits)
qed simp

lemma split_on_word: "list_all (\<lambda>c. \<not> P c) w \<Longrightarrow> split_on P w = [w]"
  by (induction w) auto

lemma word_in_split:
  assumes w: "list_all (\<lambda>c. \<not> P c) w" and x: "x = [] \<or> P (last x)" and y: "y = [] \<or> P (hd y)"
  shows "w \<in> set (split_on P (x @ w @ y))"
proof -
  have wy: "w \<in> set (split_on P (w @ y))"
    using y split_on_word [OF w] by (cases y) (auto simp: split_on_sep)
  show ?thesis
  proof (cases x rule: rev_cases)
    case (snoc x' c)
    then show ?thesis using x wy split_on_sep [of P c x' "w @ y"] by simp
  qed (use wy in simp)
qed

lemma word_is_token:
  assumes "w \<noteq> []" and "list_all (uc_alnum U) w"
    and "x = [] \<or> \<not> uc_alnum U (last x)" and "y = [] \<or> \<not> uc_alnum U (hd y)"
  shows "uc_lower U w \<in> set (fts_tokens U (x @ w @ y))"
  using assms word_in_split [of "\<lambda>c. \<not> uc_alnum U c" w x y] by (auto simp: fts_tokens_def)

text \<open>The shape of an extracted word: literal and alphanumeric, bounded on the left by the
  start of the pattern or a literal separator; the right bound decides the kind.\<close>

definition left_bounded :: "unicode \<Rightarrow> rstr \<Rightarrow> bool" where
  "left_bounded U x \<longleftrightarrow> x = [] \<or> (\<not> uc_alnum U (last x) \<and> \<not> is_wild (last x))"

definition right_bounded :: "unicode \<Rightarrow> rstr \<Rightarrow> bool" where
  "right_bounded U y \<longleftrightarrow> y = [] \<or> (\<not> uc_alnum U (hd y) \<and> \<not> is_wild (hd y))"

definition extracted :: "unicode \<Rightarrow> rstr \<Rightarrow> like_constraint \<Rightarrow> bool" where
  "extracted U p c \<longleftrightarrow>
     (\<exists>x w y. p = x @ w @ y \<and> w \<noteq> [] \<and> list_all (uc_alnum U) w \<and>
        list_all (\<lambda>c. \<not> is_wild c) w \<and> left_bounded U x \<and>
        (c = Token (uc_lower U w) \<and> right_bounded U y \<or>
         c = Prefix (map to_ascii_lower (takeWhile is_ascii_alnum w))))"

lemma like_spec_last:
  assumes "x \<noteq> []" "\<not> is_wild (last x)" "like_spec x t"
  shows "t \<noteq> [] \<and> last t = last x"
proof -
  have "like_spec (butlast x @ [last x]) t" using assms by simp
  then obtain t1 t2 where "t = t1 @ t2" "like_spec [last x] t2" using like_spec_append by blast
  then show ?thesis using like_spec_literal [of "[last x]" t2] assms(2) by simp
qed

lemma like_spec_hd:
  assumes "y \<noteq> []" "\<not> is_wild (hd y)" "like_spec y t"
  shows "t \<noteq> [] \<and> hd t = hd y"
  using assms by (cases y; cases t) (auto simp: is_wild_def split: if_splits)

lemma extracted_sound:
  assumes U: "unicode_ok U" and c: "extracted U p c" and l: "like_spec p t"
  shows "satisfies (fts_tokens U t) c"
proof -
  obtain x w y where p: "p = x @ w @ y" and w: "w \<noteq> []" "list_all (uc_alnum U) w"
      "list_all (\<lambda>c. \<not> is_wild c) w" and x: "left_bounded U x"
    and k: "c = Token (uc_lower U w) \<and> right_bounded U y \<or>
            c = Prefix (map to_ascii_lower (takeWhile is_ascii_alnum w))"
    using c by (auto simp: extracted_def)
  obtain tx tw ty where t: "t = tx @ tw @ ty" and lx: "like_spec x tx" and lw: "like_spec w tw"
    and ly: "like_spec y ty"
    using like_spec_append [of x "w @ y" t] like_spec_append [of w y] l p by blast
  have tw: "tw = w" using like_spec_literal [OF w(3) lw] .
  have tx: "tx = [] \<or> \<not> uc_alnum U (last tx)"
    using x lx like_spec_last [of x tx] by (cases "x = []") (auto simp: left_bounded_def)
  from k show ?thesis
  proof (elim disjE conjE)
    assume "c = Token (uc_lower U w)" "right_bounded U y"
    moreover from this have "ty = [] \<or> \<not> uc_alnum U (hd ty)"
      using ly like_spec_hd [of y ty] by (cases "y = []") (auto simp: right_bounded_def)
    ultimately show ?thesis using word_is_token [OF w(1,2) tx] t tw by simp
  next
    assume pre: "c = Prefix (map to_ascii_lower (takeWhile is_ascii_alnum w))"
    define u where "u = takeWhile (uc_alnum U) ty"
    define v where "v = dropWhile (uc_alnum U) ty"
    have ty: "ty = u @ v" by (simp add: u_def v_def)
    have "list_all (uc_alnum U) (w @ u)"
      using w(2) by (auto simp: u_def list_all_iff dest: set_takeWhileD)
    moreover have "v = [] \<or> \<not> uc_alnum U (hd v)" unfolding v_def by (metis hd_dropWhile)
    ultimately have tok: "uc_lower U (w @ u) \<in> set (fts_tokens U t)"
      using word_is_token [of "w @ u" U tx v] tx w(1) t tw ty by simp
    let ?a = "takeWhile is_ascii_alnum w"
    have "w @ u = ?a @ (dropWhile is_ascii_alnum w @ u)" by simp
    moreover have "list_all is_ascii_alnum ?a" by (auto simp: list_all_iff dest: set_takeWhileD)
    ultimately have "prefix (map to_ascii_lower ?a) (uc_lower U (w @ u))"
      using U unfolding unicode_ok_def by metis
    with tok pre show ?thesis by auto
  qed
qed

lemma scan_while_spec:
  "j \<le> limit \<Longrightarrow> scan_while P cs limit j \<le> limit \<and>
   (\<forall>i. j \<le> i \<and> i < scan_while P cs limit j \<longrightarrow> P (cs ! i)) \<and>
   (scan_while P cs limit j < limit \<longrightarrow> \<not> P (cs ! scan_while P cs limit j))"
proof (induction P cs limit j rule: scan_while.induct)
  case (1 P cs limit j)
  show ?case
  proof (cases "j < limit \<and> P (cs ! j)")
    case True
    then have eq: "scan_while P cs limit j = scan_while P cs limit (j + 1)"
      by (subst scan_while.simps) simp
    have "P (cs ! i)" if "j \<le> i" "i < scan_while P cs limit (j + 1)" for i
      using "1.IH" True that by (cases "i = j") auto
    then show ?thesis using "1.IH" True eq by auto
  next
    case False
    then have "scan_while P cs limit j = j" by (subst scan_while.simps) auto
    then show ?thesis using False "1.prems" by auto
  qed
qed

lemma list_all_slice:
  "b \<le> length cs \<Longrightarrow> (\<And>i. a \<le> i \<Longrightarrow> i < b \<Longrightarrow> P (cs ! i)) \<Longrightarrow> list_all P (take (b - a) (drop a cs))"
  by (auto simp: list_all_length)

lemma split_slice: "a \<le> b \<Longrightarrow> cs = take a cs @ take (b - a) (drop a cs) @ drop b cs"
  by (metis append_take_drop_id drop_drop le_add_diff_inverse2)

lemma word_constraint_extracted:
  assumes c: "c \<in> set (word_constraint U cs rs re a b)"
    and ab: "a < b" "b \<le> re" "re \<le> length cs" "rs \<le> a"
    and word: "\<And>i. a \<le> i \<Longrightarrow> i < b \<Longrightarrow> uc_alnum U (cs ! i)"
    and lits: "\<And>i. rs \<le> i \<Longrightarrow> i < re \<Longrightarrow> \<not> is_wild (cs ! i)"
    and left: "a = rs \<or> \<not> uc_alnum U (cs ! (a - 1))"
    and right: "b < re \<Longrightarrow> \<not> uc_alnum U (cs ! b)"
  shows "extracted U cs c"
proof -
  let ?w = "take (b - a) (drop a cs)"
  have split: "cs = take a cs @ ?w @ drop b cs" using ab(1) by (intro split_slice) simp
  have w: "?w \<noteq> []" "list_all (uc_alnum U) ?w" "list_all (\<lambda>c. \<not> is_wild c) ?w"
    using ab word lits by (auto intro!: list_all_slice)
  have l: "left_bounded U (take a cs)" if "a > rs \<or> rs = 0"
  proof (cases "a = 0")
    case False
    then have "last (take a cs) = cs ! (a - 1)" using ab
      by (subst last_conv_nth) (auto simp: min_absorb2)
    moreover have "\<not> is_wild (cs ! (a - 1))" using that False ab by (intro lits) auto
    moreover have "\<not> uc_alnum U (cs ! (a - 1))" using that False left by auto
    ultimately show ?thesis by (simp add: left_bounded_def)
  qed (simp add: left_bounded_def)
  have r: "right_bounded U (drop b cs)" if "b < re \<or> re = length cs"
  proof (cases "b < length cs")
    case True
    then have "b < re" using that ab by auto
    then show ?thesis
      using right lits [of b] ab True by (auto simp: right_bounded_def hd_drop_conv_nth)
  qed (simp add: right_bounded_def)
  show ?thesis
    unfolding extracted_def
    using c split w l r
    by (intro exI [of _ "take a cs"] exI [of _ ?w] exI [of _ "drop b cs"])
       (auto simp: word_constraint_def Let_def split: if_splits)
qed

lemma run_constraints_extracted:
  "c \<in> set (run_constraints U cs rs re a) \<Longrightarrow> rs \<le> a \<Longrightarrow> a \<le> re \<Longrightarrow> re \<le> length cs \<Longrightarrow>
   (\<And>i. rs \<le> i \<Longrightarrow> i < re \<Longrightarrow> \<not> is_wild (cs ! i)) \<Longrightarrow>
   a = rs \<or> \<not> uc_alnum U (cs ! (a - 1)) \<or> a = re \<or> \<not> uc_alnum U (cs ! a) \<Longrightarrow>
   extracted U cs c"
proof (induction U cs rs re a rule: run_constraints.induct)
  case (1 U cs rs re a)
  have a: "a < re" using "1.prems"(1) by (subst (asm) run_constraints.simps) (auto split: if_splits)
  show ?case
  proof (cases "uc_alnum U (cs ! a)")
    case False
    then have "c \<in> set (run_constraints U cs rs re (a + 1))"
      using "1.prems"(1) a by (subst (asm) run_constraints.simps) simp
    with "1.IH"(1) [OF a] False a "1.prems"(2-5) show ?thesis by auto
  next
    case True
    let ?b = "scan_while (uc_alnum U) cs re a"
    have b: "a < ?b" "?b \<le> re" "\<And>i. a \<le> i \<Longrightarrow> i < ?b \<Longrightarrow> uc_alnum U (cs ! i)"
        "?b < re \<Longrightarrow> \<not> uc_alnum U (cs ! ?b)"
      using scan_while_gt [of a re "uc_alnum U" cs] scan_while_spec [of a re "uc_alnum U" cs] a True
      by auto
    have "c \<in> set (word_constraint U cs rs re a ?b) \<or> c \<in> set (run_constraints U cs rs re ?b)"
      using "1.prems"(1) a True by (subst (asm) run_constraints.simps) (simp add: Let_def)
    then show ?thesis
    proof
      assume "c \<in> set (word_constraint U cs rs re a ?b)"
      then show ?thesis
        using b "1.prems"(2-6) a True by (intro word_constraint_extracted [of c U cs rs re a ?b]) auto
    next
      assume *: "c \<in> set (run_constraints U cs rs re ?b)"
      have "?b = re \<or> \<not> uc_alnum U (cs ! ?b)" using b(2,4) by (cases "?b < re") auto
      then show ?thesis using "1.IH"(2) [OF a _ refl] * True b(1,2) "1.prems"(2-5) by simp
    qed
  qed
qed

lemma runs_constraints_extracted: "c \<in> set (runs_constraints U cs i) \<Longrightarrow> extracted U cs c"
proof (induction U cs i rule: runs_constraints.induct)
  case (1 U cs i)
  have i: "i < length cs"
    using "1.prems" by (subst (asm) runs_constraints.simps) (auto split: if_splits)
  show ?case
  proof (cases "is_wild (cs ! i)")
    case True
    then show ?thesis
      using "1.IH"(1) "1.prems" i by (subst (asm) (2) runs_constraints.simps) simp
  next
    case False
    let ?e = "scan_while (\<lambda>c. \<not> is_wild c) cs (length cs) i"
    have e: "i \<le> ?e" "?e \<le> length cs" "\<And>j. i \<le> j \<Longrightarrow> j < ?e \<Longrightarrow> \<not> is_wild (cs ! j)"
      using scan_while_ge [of i] scan_while_spec [of i "length cs" "\<lambda>c. \<not> is_wild c" cs] i by auto
    have "c \<in> set (run_constraints U cs i ?e i) \<or> c \<in> set (runs_constraints U cs ?e)"
      using "1.prems" i False by (subst (asm) runs_constraints.simps) (simp add: Let_def)
    then show ?thesis
      using run_constraints_extracted [of c U cs i ?e i] e "1.IH"(2) [OF i False refl] by auto
  qed
qed

lemma like_constraints_sound:
  assumes "unicode_ok U" and "like_match p t" and "c \<in> set (like_constraints U p)"
  shows "satisfies (fts_tokens U t) c"
  using assms extracted_sound [of U p c t] like_match_sound [of p t]
    runs_constraints_extracted [of c U p 0]
  by (simp add: like_constraints_def)

section \<open>Properties\<close>

text \<open>An ASCII-only instance of the Unicode tables, for the examples.\<close>

definition ascii_unicode :: unicode where
  "ascii_unicode = \<lparr> uc_alnum = is_ascii_alnum, uc_lower = map to_ascii_lower \<rparr>"

lemma ascii_unicode_ok: "unicode_ok ascii_unicode"
  by (simp add: unicode_ok_def ascii_unicode_def is_ascii_alnum_def pct_def underscore_def)

text \<open>
  C26. The two-pointer LIKE matcher accepts only what the pattern describes (\<^verbatim>\<open>%\<close> any run,
  \<^verbatim>\<open>_\<close> one character), and on a text without a literal \<^verbatim>\<open>%\<close> it accepts all of it:
  there the backtracking to the last \<^verbatim>\<open>%\<close> is complete.
\<close>

theorem like_match_correct:
  "(like_match p t \<longrightarrow> like_spec p t) \<and> (pct \<notin> set t \<longrightarrow> like_match p t = like_spec p t)"
  using like_match_sound like_match_complete by blast

theorem like_match_correct_witness:
  "like_match (lit ''a%c'') (lit ''abbc'') = like_spec (lit ''a%c'') (lit ''abbc'')"
  using like_match_correct [of "lit ''a%c''" "lit ''abbc''"] by (simp add: lit_def pct_def)

text \<open>
  C32. On a text that has a literal \<^verbatim>\<open>%\<close> the matcher can miss a match: the first branch of
  its loop takes the pattern's \<^verbatim>\<open>%\<close> for that character and leaves nothing to backtrack to.
\<close>

theorem like_match_misses_percent_text:
  "like_spec (lit ''%b'') (lit ''%ab'') \<and> \<not> like_match (lit ''%b'') (lit ''%ab'')"
proof
  show "like_spec (lit ''%b'') (lit ''%ab'')" by (simp add: lit_def pct_def underscore_def)
  show "\<not> like_match (lit ''%b'') (lit ''%ab'')" by code_simp
qed

text \<open>
  C27. The token constraints derived from a LIKE pattern are sound: a text the matcher accepts has,
  among its tokens, every required token and one under every required prefix. (Index candidates
  narrowed by them lose no match.)
\<close>

theorem like_constraints_never_lose_a_match:
  assumes "unicode_ok U" and "like_match p t" and "c \<in> set (like_constraints U p)"
  shows "satisfies (fts_tokens U t) c"
  using assms by (rule like_constraints_sound)

theorem like_constraints_never_lose_a_match_witness:
  "satisfies (fts_tokens ascii_unicode (lit ''Foo bar'')) (Prefix (lit ''foo''))"
proof (rule like_constraints_never_lose_a_match [OF ascii_unicode_ok])
  show "like_match (lit ''Foo%'') (lit ''Foo bar'')" by code_simp
  show "Prefix (lit ''foo'') \<in> set (like_constraints ascii_unicode (lit ''Foo%''))" by code_simp
qed

end
