(* ===== verification/Records.thy ===== *)
theory Records
  imports Float64 Text_Search
begin

text \<open>
  \<^verbatim>\<open>src/src/record.rs\<close>: the stored record, the query specification with the naive-scan
  oracle \<open>matches\<close>, the reserved labels of deltas and tombstones, and \<open>merge_delta\<close>, the one
  rule by which an increment folds onto an earlier version of its key.
\<close>

section \<open>Records and queries\<close>

record Record =
  rec_key :: rstr
  rec_timestamp :: int
  rec_labels :: "(rstr, rstr) bmap"
  rec_numerics :: "(rstr, f64) bmap"
  rec_payload :: "byte list"
  rec_text :: "rstr option"

datatype OrderBy =
    TimestampDesc
  | TimestampAsc
  | NumericDesc rstr
  | NumericAsc rstr

record QuerySpec =
  qs_time :: "(int \<times> int) option"
  qs_labels :: "(rstr \<times> rstr) list"
  qs_numeric_ranges :: "(rstr \<times> f64 \<times> f64) list"
  qs_key_prefix :: "rstr option"
  qs_limit :: nat
  qs_order_by :: "OrderBy option"
  qs_after :: "(int \<times> rstr) option"
  qs_text_match :: "rstr option"
  qs_text_like :: "rstr option"
  qs_omit_text :: bool

text \<open>\<^verbatim>\<open>QuerySpec::default()\<close>: no condition, no limit.\<close>

definition QuerySpec_default :: QuerySpec where
  "QuerySpec_default =
     \<lparr> qs_time = None, qs_labels = [], qs_numeric_ranges = [], qs_key_prefix = None,
       qs_limit = 0, qs_order_by = None, qs_after = None, qs_text_match = None,
       qs_text_like = None, qs_omit_text = False \<rparr>"

definition after_bound_ok :: "QuerySpec \<Rightarrow> Record \<Rightarrow> bool" where
  "after_bound_ok spec r =
     (case qs_after spec of
        None \<Rightarrow> True
      | Some (bound_ts, bound_key) \<Rightarrow>
          if qs_order_by spec = Some TimestampAsc then
            bound_ts < rec_timestamp r \<or> rec_timestamp r = bound_ts \<and> bound_key < rec_key r
          else
            rec_timestamp r < bound_ts \<or> rec_timestamp r = bound_ts \<and> bound_key < rec_key r)"

definition text_like_ok :: "QuerySpec \<Rightarrow> Record \<Rightarrow> bool" where
  "text_like_ok spec r =
     (case qs_text_like spec of
        None \<Rightarrow> True
      | Some p \<Rightarrow> (case rec_text r of None \<Rightarrow> False | Some t \<Rightarrow> like_match p t))"

definition time_ok :: "(int \<times> int) option \<Rightarrow> int \<Rightarrow> bool" where
  "time_ok tm ts = (case tm of None \<Rightarrow> True | Some (lo, hi) \<Rightarrow> \<not> (ts < lo \<or> hi < ts))"

definition numeric_ok :: "(rstr, f64) bmap \<Rightarrow> rstr \<times> f64 \<times> f64 \<Rightarrow> bool" where
  "numeric_ok nums c =
     (case c of (name, lo, hi) \<Rightarrow>
        (case fmlookup nums name of None \<Rightarrow> False | Some v \<Rightarrow> f64_le lo v \<and> f64_le v hi))"

definition matches_fields :: "QuerySpec \<Rightarrow> Record \<Rightarrow> bool" where
  "matches_fields spec r \<longleftrightarrow>
     time_ok (qs_time spec) (rec_timestamp r) \<and>
     (case qs_key_prefix spec of None \<Rightarrow> True | Some p \<Rightarrow> prefix p (rec_key r)) \<and>
     list_all (\<lambda>(k, v). fmlookup (rec_labels r) k = Some v) (qs_labels spec) \<and>
     list_all (numeric_ok (rec_numerics r)) (qs_numeric_ranges spec)"

text \<open>The full predicate, the oracle every index must agree with.\<close>

definition text_match_ok :: "unicode \<Rightarrow> QuerySpec \<Rightarrow> Record \<Rightarrow> bool" where
  "text_match_ok U spec r =
     (case qs_text_match spec of
        None \<Rightarrow> True
      | Some q \<Rightarrow> text_contains_all U (rec_text r) (fts_tokens U q))"

definition matches :: "unicode \<Rightarrow> QuerySpec \<Rightarrow> Record \<Rightarrow> bool" where
  "matches U spec r \<longleftrightarrow>
     matches_fields spec r \<and> text_match_ok U spec r \<and> text_like_ok spec r"

section \<open>Deltas and tombstones\<close>

definition DELTA_LABEL :: rstr where
  "DELTA_LABEL = lit ''girder.delta''"

definition TOMBSTONE_LABEL :: rstr where
  "TOMBSTONE_LABEL = lit ''del''"

definition is_delta :: "Record \<Rightarrow> bool" where
  "is_delta r \<longleftrightarrow> fmlookup (rec_labels r) DELTA_LABEL = Some (lit ''1'')"

definition is_tombstone :: "Record \<Rightarrow> bool" where
  "is_tombstone r \<longleftrightarrow> fmlookup (rec_labels r) TOMBSTONE_LABEL = Some (lit ''1'')"

definition tombstone :: "rstr \<Rightarrow> int \<Rightarrow> Record" where
  "tombstone k ts =
     \<lparr> rec_key = k, rec_timestamp = ts,
       rec_labels = fmupd TOMBSTONE_LABEL (lit ''1'') fmempty,
       rec_numerics = fmempty, rec_payload = [], rec_text = None \<rparr>"

definition set_delta :: "Record \<Rightarrow> Record" where
  "set_delta r = r\<lparr> rec_labels := fmupd DELTA_LABEL (lit ''1'') (rec_labels r) \<rparr>"

definition clear_delta :: "Record \<Rightarrow> Record" where
  "clear_delta r = r\<lparr> rec_labels := fmdrop DELTA_LABEL (rec_labels r) \<rparr>"

text \<open>\<^verbatim>\<open>*merged.numerics.entry(name).or_insert(0.0) += v\<close>\<close>

definition add_entry :: "rstr \<times> f64 \<Rightarrow> (rstr, f64) bmap \<Rightarrow> (rstr, f64) bmap" where
  "add_entry e m =
     (case e of (name, v) \<Rightarrow>
        fmupd name (f64_add (case fmlookup m name of None \<Rightarrow> f64_zero | Some x \<Rightarrow> x) v) m)"

definition add_numerics :: "(rstr, f64) bmap \<Rightarrow> (rstr, f64) bmap \<Rightarrow> (rstr, f64) bmap" where
  "add_numerics base delta = fold add_entry (bt_entries delta) base"

definition merge_delta :: "Record option \<Rightarrow> Record \<Rightarrow> Record" where
  "merge_delta b delta =
     (case b of
        None \<Rightarrow> delta
      | Some base \<Rightarrow>
          if is_tombstone base then clear_delta delta
          else
            (let merged = base\<lparr> rec_numerics := add_numerics (rec_numerics base) (rec_numerics delta),
                                rec_timestamp := max (rec_timestamp base) (rec_timestamp delta) \<rparr>
             in if \<not> is_delta base then clear_delta merged else merged))"

section \<open>Lemmas\<close>

lemma DELTA_TOMBSTONE [simp]: "DELTA_LABEL \<noteq> TOMBSTONE_LABEL" "TOMBSTONE_LABEL \<noteq> DELTA_LABEL"
  by (simp_all add: DELTA_LABEL_def TOMBSTONE_LABEL_def lit_def)

lemma tombstone_facts [simp]:
  "is_tombstone (tombstone k ts)" "\<not> is_delta (tombstone k ts)" "rec_key (tombstone k ts) = k"
  "rec_timestamp (tombstone k ts) = ts" "rec_text (tombstone k ts) = None"
  by (simp_all add: is_tombstone_def tombstone_def is_delta_def)

lemma delta_label_facts [simp]:
  "is_delta (set_delta r)" "\<not> is_delta (clear_delta r)"
  "is_tombstone (set_delta r) = is_tombstone r" "is_tombstone (clear_delta r) = is_tombstone r"
  "rec_key (set_delta r) = rec_key r" "rec_key (clear_delta r) = rec_key r"
  "rec_text (set_delta r) = rec_text r" "rec_text (clear_delta r) = rec_text r"
  "rec_timestamp (set_delta r) = rec_timestamp r" "rec_timestamp (clear_delta r) = rec_timestamp r"
  "rec_numerics (set_delta r) = rec_numerics r" "rec_numerics (clear_delta r) = rec_numerics r"
  "rec_payload (set_delta r) = rec_payload r" "rec_payload (clear_delta r) = rec_payload r"
  by (simp_all add: is_delta_def is_tombstone_def set_delta_def clear_delta_def)

lemma clear_delta_idle: "\<not> DELTA_LABEL |\<in>| fmdom (rec_labels r) \<Longrightarrow> clear_delta r = r"
  by (simp add: clear_delta_def fmdrop_idle)

lemma clear_delta_idem [simp]: "clear_delta (clear_delta r) = clear_delta r"
  by (simp add: clear_delta_def fmdrop_idle)

lemma fold_add_entry_lookup:
  "distinct (map fst es) \<Longrightarrow>
   fmlookup (fold add_entry es m) n =
     (case map_of es n of
        None \<Rightarrow> fmlookup m n
      | Some v \<Rightarrow> Some (f64_add (case fmlookup m n of None \<Rightarrow> f64_zero | Some x \<Rightarrow> x) v))"
proof (induction es arbitrary: m)
  case (Cons e es)
  obtain k v where e: "e = (k, v)" by fastforce
  have k: "map_of es k = None" using Cons.prems e by (simp add: map_of_eq_None_iff)
  show ?case
    using Cons.IH [of "add_entry e m"] Cons.prems k
    by (auto simp: e add_entry_def split: option.splits)
qed simp

text \<open>Numerics add pointwise, over the union of the names.\<close>

lemma add_numerics_lookup:
  "fmlookup (add_numerics b d) n =
     (case fmlookup d n of
        None \<Rightarrow> fmlookup b n
      | Some v \<Rightarrow> Some (f64_add (case fmlookup b n of None \<Rightarrow> f64_zero | Some x \<Rightarrow> x) v))"
  by (simp add: add_numerics_def fold_add_entry_lookup)

lemma merge_delta_None [simp]: "merge_delta None d = d"
  by (simp add: merge_delta_def)

lemma merge_delta_key:
  "(\<And>r. b = Some r \<Longrightarrow> rec_key r = rec_key d) \<Longrightarrow> rec_key (merge_delta b d) = rec_key d"
  by (cases b) (simp_all add: merge_delta_def Let_def)

lemma is_tombstone_update [simp]:
  "is_tombstone (r\<lparr> rec_numerics := n, rec_timestamp := t \<rparr>) = is_tombstone r"
  "is_delta (r\<lparr> rec_numerics := n, rec_timestamp := t \<rparr>) = is_delta r"
  by (simp_all add: is_tombstone_def is_delta_def)

lemma is_delta_merge_Some:
  "is_delta (merge_delta (Some b) d) \<longleftrightarrow> is_delta b \<and> \<not> is_tombstone b"
  by (simp add: merge_delta_def Let_def)

lemma is_tombstone_merge_Some:
  "is_tombstone (merge_delta (Some b) d) \<longleftrightarrow> is_tombstone b \<and> is_tombstone d"
  by (simp add: merge_delta_def Let_def)

lemma merge_delta_basified:
  "\<not> is_tombstone b \<Longrightarrow> \<not> is_delta b \<Longrightarrow> \<not> is_delta (merge_delta (Some b) d)"
  by (simp add: is_delta_merge_Some)

text \<open>
  Folding two increments one after the other, or their sum at once, differs only in how the
  additions associate: where those agree the records do.
\<close>

definition add_assoc_at :: "(rstr, f64) bmap \<Rightarrow> (rstr, f64) bmap \<Rightarrow> (rstr, f64) bmap \<Rightarrow> bool" where
  "add_assoc_at b c d \<longleftrightarrow>
     add_numerics (add_numerics b c) d = add_numerics b (add_numerics c d)"

lemma merge_delta_assoc:
  assumes "is_delta c" and "\<not> is_tombstone c"
    and "\<not> is_tombstone b \<Longrightarrow> add_assoc_at (rec_numerics b) (rec_numerics c) (rec_numerics d)"
  shows "merge_delta (Some (merge_delta (Some b) c)) d = merge_delta (Some b) (merge_delta (Some c) d)"
proof -
  have "merge_delta (Some (clear_delta c)) d = clear_delta (merge_delta (Some c) d)"
    using assms(1,2) by (simp add: merge_delta_def Let_def clear_delta_def is_tombstone_def is_delta_def)
  moreover have ?thesis if "\<not> is_tombstone b" "is_delta b"
    using assms that by (simp add: merge_delta_def Let_def add_assoc_at_def max.assoc)
  moreover have ?thesis if "\<not> is_tombstone b" "\<not> is_delta b"
    using assms that
    by (simp add: merge_delta_def Let_def add_assoc_at_def max.assoc is_tombstone_def is_delta_def
        clear_delta_def fmdrop_idle)
  ultimately show ?thesis by (cases "is_tombstone b"; cases "is_delta b") (auto simp: merge_delta_def)
qed

section \<open>Properties\<close>


definition counter_record :: "bool \<Rightarrow> f64 \<Rightarrow> Record" where
  "counter_record delta v =
     \<lparr> rec_key = lit ''k'', rec_timestamp = 1,
       rec_labels = (if delta then fmupd DELTA_LABEL (lit ''1'') fmempty else fmempty),
       rec_numerics = fmupd (lit ''n'') v fmempty, rec_payload = [], rec_text = None \<rparr>"

lemma bt_entries_single [simp]: "bt_entries (fmupd k v fmempty) = [(k, v)]"
  by (simp add: sorted_list_of_fmap_def sorted_list_of_fset.rep_eq)

lemma add_numerics_single:
  "add_numerics (fmupd n a fmempty) (fmupd n b fmempty) = fmupd n (f64_add a b) fmempty"
  by (rule fmap_ext) (simp add: add_numerics_lookup)

lemma counter_record_facts [simp]:
  "is_delta (counter_record d v) = d" "\<not> is_tombstone (counter_record d v)"
  "rec_numerics (counter_record d v) = fmupd (lit ''n'') v fmempty"
  by (simp_all add: counter_record_def is_delta_def is_tombstone_def)



end
