(* ===== verification/Zone_Map.thy ===== *)
theory Zone_Map
  imports Records
begin

text \<open>
  The zone map of a segment (\<^verbatim>\<open>src/src/segment.rs\<close>, \<^verbatim>\<open>ZoneMap\<close>): the bounds a
  scan prunes on. \<open>covers\<close> says what a zone promises of each record it was built from; every
  pruning test is sound for a zone that covers.
\<close>

section \<open>Building a zone\<close>

record ZoneMap =
  zm_min_ts :: int
  zm_max_ts :: int
  zm_min_key :: rstr
  zm_max_key :: rstr
  zm_labels :: "(rstr, rstr fset option) bmap"
  zm_numerics :: "(rstr, f64 \<times> f64) bmap"
  zm_count :: nat

definition LABEL_VALUES_CAP :: nat where
  "LABEL_VALUES_CAP = 64"

definition zone_label :: "rstr \<times> rstr \<Rightarrow> (rstr, rstr fset option) bmap \<Rightarrow> (rstr, rstr fset option) bmap" where
  "zone_label e m =
     (case e of (k, v) \<Rightarrow>
        (case (case fmlookup m k of None \<Rightarrow> Some {||} | Some x \<Rightarrow> x) of
           None \<Rightarrow> fmupd k None m
         | Some s \<Rightarrow>
             (let s' = finsert v s in
              if LABEL_VALUES_CAP < fcard s' then fmupd k None m else fmupd k (Some s') m)))"

definition zone_numeric :: "rstr \<times> f64 \<Rightarrow> (rstr, f64 \<times> f64) bmap \<Rightarrow> (rstr, f64 \<times> f64) bmap" where
  "zone_numeric e m =
     (case e of (k, v) \<Rightarrow>
        (case (case fmlookup m k of None \<Rightarrow> (v, v) | Some x \<Rightarrow> x) of
           (mn, mx) \<Rightarrow> fmupd k (f64_min mn v, f64_max mx v) m))"

definition zone_step :: "nat \<Rightarrow> Record \<Rightarrow> ZoneMap \<Rightarrow> ZoneMap" where
  "zone_step i r z =
     z\<lparr> zm_min_ts := min (zm_min_ts z) (rec_timestamp r),
        zm_max_ts := max (zm_max_ts z) (rec_timestamp r),
        zm_min_key := (if i = 0 \<or> rec_key r < zm_min_key z then rec_key r else zm_min_key z),
        zm_max_key := (if i = 0 \<or> zm_max_key z < rec_key r then rec_key r else zm_max_key z),
        zm_labels := fold zone_label (bt_entries (rec_labels r)) (zm_labels z),
        zm_numerics := fold zone_numeric (bt_entries (rec_numerics r)) (zm_numerics z) \<rparr>"

fun zone_loop :: "nat \<Rightarrow> Record list \<Rightarrow> ZoneMap \<Rightarrow> ZoneMap" where
  "zone_loop i [] z = z"
| "zone_loop i (r # rs) z = zone_loop (i + 1) rs (zone_step i r z)"

definition zone_build :: "Record list \<Rightarrow> ZoneMap" where
  "zone_build records =
     zone_loop 0 records
       \<lparr> zm_min_ts = i64_MAX, zm_max_ts = i64_MIN, zm_min_key = [], zm_max_key = [],
         zm_labels = fmempty, zm_numerics = fmempty, zm_count = length records \<rparr>"

section \<open>Pruning tests\<close>

definition key_range_overlaps_prefix :: "rstr \<Rightarrow> rstr \<Rightarrow> rstr \<Rightarrow> bool" where
  "key_range_overlaps_prefix min_key max_key p =
     (if max_key < p then False
      else if \<not> prefix p min_key \<and> p < min_key then
        (let upper = p @ [char_MAX] in \<not> upper < min_key)
      else True)"

definition zone_label_ok :: "(rstr, rstr fset option) bmap \<Rightarrow> rstr \<times> rstr \<Rightarrow> bool" where
  "zone_label_ok m c =
     (case c of (name, v) \<Rightarrow>
        (case fmlookup m name of
           None \<Rightarrow> False
         | Some None \<Rightarrow> True
         | Some (Some values) \<Rightarrow> v |\<in>| values))"

definition zone_numeric_ok :: "(rstr, f64 \<times> f64) bmap \<Rightarrow> rstr \<times> f64 \<times> f64 \<Rightarrow> bool" where
  "zone_numeric_ok m c =
     (case c of (name, lo, hi) \<Rightarrow>
        (case fmlookup m name of
           None \<Rightarrow> False
         | Some (mn, mx) \<Rightarrow> \<not> (f64_lt mx lo \<or> f64_lt hi mn)))"

definition may_match :: "ZoneMap \<Rightarrow> QuerySpec \<Rightarrow> bool" where
  "may_match z spec \<longleftrightarrow>
     (case qs_time spec of None \<Rightarrow> True
      | Some (lo, hi) \<Rightarrow> \<not> (zm_max_ts z < lo \<or> hi < zm_min_ts z)) \<and>
     (case qs_key_prefix spec of None \<Rightarrow> True
      | Some p \<Rightarrow> key_range_overlaps_prefix (zm_min_key z) (zm_max_key z) p) \<and>
     list_all (zone_label_ok (zm_labels z)) (qs_labels spec) \<and>
     list_all (zone_numeric_ok (zm_numerics z)) (qs_numeric_ranges spec)"

definition may_overlap_prefix :: "ZoneMap \<Rightarrow> QuerySpec \<Rightarrow> bool" where
  "may_overlap_prefix z spec =
     (case qs_key_prefix spec of
        None \<Rightarrow> True
      | Some p \<Rightarrow> key_range_overlaps_prefix (zm_min_key z) (zm_max_key z) p)"

definition key_range_overlaps :: "ZoneMap \<Rightarrow> ZoneMap \<Rightarrow> bool" where
  "key_range_overlaps a b \<longleftrightarrow> \<not> (zm_max_key a < zm_min_key b \<or> zm_max_key b < zm_min_key a)"

section \<open>What a zone promises\<close>

definition label_covered :: "(rstr, rstr fset option) bmap \<Rightarrow> rstr \<Rightarrow> rstr \<Rightarrow> bool" where
  "label_covered m k v \<longleftrightarrow> (\<exists>e. fmlookup m k = Some e \<and> (\<forall>s. e = Some s \<longrightarrow> v |\<in>| s))"

definition numeric_covered :: "(rstr, f64 \<times> f64) bmap \<Rightarrow> rstr \<Rightarrow> f64 \<Rightarrow> bool" where
  "numeric_covered m n v \<longleftrightarrow>
     (\<exists>mn mx. fmlookup m n = Some (mn, mx) \<and> (is_nan v \<or> f64_le mn v \<and> f64_le v mx))"

definition covers :: "ZoneMap \<Rightarrow> Record \<Rightarrow> bool" where
  "covers z r \<longleftrightarrow>
     zm_min_ts z \<le> rec_timestamp r \<and> rec_timestamp r \<le> zm_max_ts z \<and>
     zm_min_key z \<le> rec_key r \<and> rec_key r \<le> zm_max_key z \<and>
     (\<forall>k v. fmlookup (rec_labels r) k = Some v \<longrightarrow> label_covered (zm_labels z) k v) \<and>
     (\<forall>n v. fmlookup (rec_numerics r) n = Some v \<longrightarrow> numeric_covered (zm_numerics z) n v)"

lemma label_covered_mono: "label_covered m k v \<Longrightarrow> label_covered (zone_label e m) k v"
  by (cases e) (auto simp: label_covered_def zone_label_def Let_def split: option.splits if_splits)

lemma label_covered_own: "label_covered (zone_label (k, v) m) k v"
  by (auto simp: label_covered_def zone_label_def Let_def split: option.splits)

lemma fold_zone_label_mono: "label_covered m k v \<Longrightarrow> label_covered (fold zone_label es m) k v"
  by (induction es arbitrary: m) (auto simp: label_covered_mono)

lemma fold_zone_label_own: "(k, v) \<in> set es \<Longrightarrow> label_covered (fold zone_label es m) k v"
  by (induction es arbitrary: m) (auto simp: label_covered_own fold_zone_label_mono)

lemma f64_min_le_mono: "f64_le a v \<Longrightarrow> f64_le (f64_min a b) v"
  by (auto simp: f64_min_def f64_le_def)

lemma f64_max_ge_mono: "f64_le v a \<Longrightarrow> f64_le v (f64_max a b)"
  by (auto simp: f64_max_def f64_le_def)

lemma numeric_covered_mono: "numeric_covered m n v \<Longrightarrow> numeric_covered (zone_numeric e m) n v"
  by (cases e)
     (auto simp: numeric_covered_def zone_numeric_def f64_min_le_mono f64_max_ge_mono
       split: option.splits prod.splits)

lemma numeric_covered_own: "numeric_covered (zone_numeric (n, v) m) n v"
  by (cases "is_nan v")
     (auto simp: numeric_covered_def zone_numeric_def f64_min_le2 f64_max_ge2
       split: option.splits prod.splits)

lemma fold_zone_numeric_mono: "numeric_covered m n v \<Longrightarrow> numeric_covered (fold zone_numeric es m) n v"
  by (induction es arbitrary: m) (auto simp: numeric_covered_mono)

lemma fold_zone_numeric_own: "(n, v) \<in> set es \<Longrightarrow> numeric_covered (fold zone_numeric es m) n v"
  by (induction es arbitrary: m) (auto simp: numeric_covered_own fold_zone_numeric_mono)

lemma zone_step_covers_own: "i = 0 \<or> zm_min_key z \<le> zm_max_key z \<Longrightarrow> covers (zone_step i r z) r"
  by (auto simp: covers_def zone_step_def fold_zone_label_own fold_zone_numeric_own)

lemma zone_step_covers_mono: "covers z r \<Longrightarrow> i \<noteq> 0 \<Longrightarrow> covers (zone_step i r' z) r"
  by (auto simp: covers_def zone_step_def fold_zone_label_mono fold_zone_numeric_mono)

lemma zone_loop_covers_mono: "covers z r \<Longrightarrow> i \<noteq> 0 \<Longrightarrow> covers (zone_loop i rs z) r"
  by (induction rs arbitrary: i z) (auto simp: zone_step_covers_mono)

lemma covers_keys: "covers z r \<Longrightarrow> zm_min_key z \<le> zm_max_key z"
  unfolding covers_def by (meson order_trans)

lemma zone_loop_covers:
  "r \<in> set rs \<Longrightarrow> i = 0 \<or> zm_min_key z \<le> zm_max_key z \<Longrightarrow> covers (zone_loop i rs z) r"
proof (induction rs arbitrary: i z)
  case (Cons a rs)
  have own: "covers (zone_step i a z) a" using Cons.prems(2) by (rule zone_step_covers_own)
  show ?case
  proof (cases "r = a")
    case True
    then show ?thesis using zone_loop_covers_mono [OF own, of "i + 1" rs] by simp
  next
    case False
    then show ?thesis using Cons covers_keys [OF own] by simp
  qed
qed simp

lemma zone_build_covers: "r \<in> set rs \<Longrightarrow> covers (zone_build rs) r"
  unfolding zone_build_def by (rule zone_loop_covers) auto

lemma zone_loop_count: "zm_count (zone_loop i rs z) = zm_count z"
  by (induction rs arbitrary: i z) (auto simp: zone_step_def)

lemma zone_build_count [simp]: "zm_count (zone_build rs) = length rs"
  by (simp add: zone_build_def zone_loop_count)

section \<open>Soundness of the tests\<close>

lemma prefix_append_less: "p < m \<Longrightarrow> \<not> prefix p m \<Longrightarrow> p @ x < (m :: rstr)"
  by (rule prefix_below [of p]) auto

text \<open>The prefix test is exact on key ranges.\<close>

lemma key_range_overlaps_prefix_iff:
  assumes "mn \<le> mx"
  shows "key_range_overlaps_prefix mn mx p \<longleftrightarrow> (\<exists>k. mn \<le> k \<and> k \<le> mx \<and> prefix p k)"
proof
  assume l: "key_range_overlaps_prefix mn mx p"
  then have mx: "p \<le> mx" by (auto simp: key_range_overlaps_prefix_def split: if_splits)
  show "\<exists>k. mn \<le> k \<and> k \<le> mx \<and> prefix p k"
  proof (cases "prefix p mn")
    case True
    then show ?thesis using assms by (intro exI [of _ mn]) simp
  next
    case False
    have "mn \<le> p"
    proof (rule ccontr)
      assume "\<not> mn \<le> p"
      then have "p < mn" by simp
      then have "p @ [char_MAX] < mn" using False prefix_append_less by blast
      with l False \<open>p < mn\<close> show False by (auto simp: key_range_overlaps_prefix_def Let_def split: if_splits)
    qed
    then show ?thesis using mx by (intro exI [of _ p]) simp
  qed
next
  assume "\<exists>k. mn \<le> k \<and> k \<le> mx \<and> prefix p k"
  then obtain k where k: "mn \<le> k" "k \<le> mx" "prefix p k" by blast
  have "\<not> mx < p"
    using prefix_above [OF k(3), of mx] k(2) by (meson leD)
  moreover have "\<not> (\<not> prefix p mn \<and> p < mn)"
    using prefix_below [OF k(3), of mn] k(1) by (meson leD)
  ultimately show "key_range_overlaps_prefix mn mx p" by (auto simp: key_range_overlaps_prefix_def)
qed

lemma overlaps_prefix_sound:
  "mn \<le> k \<Longrightarrow> k \<le> mx \<Longrightarrow> prefix p k \<Longrightarrow> key_range_overlaps_prefix mn mx p"
  using key_range_overlaps_prefix_iff [of mn mx p] order_trans by blast

lemma zone_label_ok_sound:
  "label_covered m k v \<Longrightarrow> zone_label_ok m (k, v)"
  by (auto simp: label_covered_def zone_label_ok_def split: option.splits)

lemma zone_numeric_ok_sound:
  "numeric_covered m n v \<Longrightarrow> f64_le lo v \<Longrightarrow> f64_le v hi \<Longrightarrow> zone_numeric_ok m (n, lo, hi)"
  by (auto simp: numeric_covered_def zone_numeric_ok_def f64_le_def f64_lt_def)

lemma covers_may_match:
  assumes c: "covers z r" and m: "matches_fields spec r"
  shows "may_match z spec"
proof -
  have "list_all (zone_label_ok (zm_labels z)) (qs_labels spec)"
    using assms by (fastforce simp: covers_def matches_fields_def list_all_iff intro: zone_label_ok_sound)
  moreover have "list_all (zone_numeric_ok (zm_numerics z)) (qs_numeric_ranges spec)"
    using assms
    by (fastforce simp: covers_def matches_fields_def list_all_iff numeric_ok_def
        intro: zone_numeric_ok_sound split: option.splits)
  ultimately show ?thesis
    using assms
    by (auto simp: may_match_def covers_def matches_fields_def time_ok_def
        intro: overlaps_prefix_sound split: option.splits)
qed

lemma covers_may_overlap_prefix:
  "covers z r \<Longrightarrow> (\<And>p. qs_key_prefix spec = Some p \<Longrightarrow> prefix p (rec_key r)) \<Longrightarrow> may_overlap_prefix z spec"
  by (auto simp: may_overlap_prefix_def covers_def intro: overlaps_prefix_sound split: option.splits)

lemma covers_key_range_overlaps:
  assumes "covers a r" and "covers b s" and "rec_key r = rec_key s"
  shows "key_range_overlaps a b"
  using assms unfolding covers_def key_range_overlaps_def by (metis leD order_trans)

section \<open>Properties\<close>

text \<open>
  C24. Zone pruning is sound: a segment's zone map, built from its records, admits every query some
  record of the segment satisfies -- NaN values, labels past the tracking cap and the key-prefix
  test included.
\<close>

theorem zone_prune_sound:
  assumes "r \<in> set rs" and "matches_fields spec r"
  shows "may_match (zone_build rs) spec"
  using covers_may_match [OF zone_build_covers [OF assms(1)] assms(2)] .

theorem zone_prune_sound_witness:
  "may_match (zone_build [tombstone (lit ''a'') 3, tombstone (lit ''b'') 9])
     (QuerySpec_default\<lparr> qs_time := Some (5, 9), qs_key_prefix := Some (lit ''b'') \<rparr>)"
  by (rule zone_prune_sound [of "tombstone (lit ''b'') 9"])
     (simp_all add: matches_fields_def time_ok_def QuerySpec_default_def)

text \<open>
  The shared prefix test of segment- and block-level pruning is exact: it holds just when some
  key in the range starts with the prefix.
\<close>

lemma prefix_test_exact:
  assumes "mn \<le> mx"
  shows "key_range_overlaps_prefix mn mx p \<longleftrightarrow> (\<exists>k. mn \<le> k \<and> k \<le> mx \<and> prefix p k)"
  using assms by (rule key_range_overlaps_prefix_iff)

lemma prefix_test_exact_witness:
  "key_range_overlaps_prefix (lit ''a'') (lit ''c'') (lit ''bx'') \<longleftrightarrow>
     (\<exists>k. lit ''a'' \<le> k \<and> k \<le> lit ''c'' \<and> prefix (lit ''bx'') k)"
  by (rule prefix_test_exact) (simp add: lit_def)

end
