(* ===== verification/Utf8.thy ===== *)
theory Utf8
  imports Prelude
begin

text \<open>
  UTF-8, as \<^verbatim>\<open>String::as_bytes\<close> and \<^verbatim>\<open>String::from_utf8\<close> of the standard library
  have it: the on-disk sections hold strings as bytes and index them by byte offsets, while the
  text functions read scalar values. The encoding is injective and order preserving, so that the
  scalar-value lists of the model compare as the bytewise comparison of the source does.
\<close>

definition is_scalar :: "rchar \<Rightarrow> bool" where
  "is_scalar c \<longleftrightarrow> c < 0xD800 \<or> 0xE000 \<le> c \<and> c \<le> char_MAX"

definition str_ok :: "rstr \<Rightarrow> bool" where
  "str_ok s \<longleftrightarrow> list_all is_scalar s"

definition utf8_char :: "rchar \<Rightarrow> nat list" where
  "utf8_char c =
     (if c < 0x80 then [c]
      else if c < 0x800 then [0xC0 + c div 64, 0x80 + c mod 64]
      else if c < 0x10000 then [0xE0 + c div 4096, 0x80 + c div 64 mod 64, 0x80 + c mod 64]
      else [0xF0 + c div 262144, 0x80 + c div 4096 mod 64, 0x80 + c div 64 mod 64, 0x80 + c mod 64])"

definition utf8_values :: "rstr \<Rightarrow> nat list" where
  "utf8_values s = concat (map utf8_char s)"

definition as_bytes :: "rstr \<Rightarrow> byte list" where
  "as_bytes s = map word_of_nat (utf8_values s)"

definition is_cont :: "nat \<Rightarrow> bool" where
  "is_cont b \<longleftrightarrow> 0x80 \<le> b \<and> b < 0xC0"

text \<open>The strict decoder: no overlong forms, no surrogates, nothing above \<^verbatim>\<open>char::MAX\<close>.\<close>

fun utf8_read :: "nat list \<Rightarrow> (rchar \<times> nat list) option" where
  "utf8_read [] = None"
| "utf8_read (a # bs) =
     (if a < 0x80 then Some (a, bs)
      else if a < 0xC0 then None
      else if a < 0xE0 then
        (case bs of
           b # bs' \<Rightarrow>
             (let c = (a - 0xC0) * 64 + (b - 0x80)
              in if is_cont b \<and> 0x80 \<le> c then Some (c, bs') else None)
         | _ \<Rightarrow> None)
      else if a < 0xF0 then
        (case bs of
           b # b' # bs' \<Rightarrow>
             (let c = (a - 0xE0) * 4096 + (b - 0x80) * 64 + (b' - 0x80)
              in if is_cont b \<and> is_cont b' \<and> 0x800 \<le> c \<and> is_scalar c then Some (c, bs') else None)
         | _ \<Rightarrow> None)
      else
        (case bs of
           b # b' # b'' # bs' \<Rightarrow>
             (let c = (a - 0xF0) * 262144 + (b - 0x80) * 4096 + (b' - 0x80) * 64 + (b'' - 0x80)
              in if is_cont b \<and> is_cont b' \<and> is_cont b'' \<and> 0x10000 \<le> c \<and> is_scalar c
                 then Some (c, bs') else None)
         | _ \<Rightarrow> None))"

lemma utf8_read_shorter: "utf8_read bs = Some (c, bs') \<Longrightarrow> length bs' < length bs"
  by (cases bs) (auto simp: Let_def split: if_splits list.splits)

function utf8_decode :: "nat list \<Rightarrow> rstr option" where
  "utf8_decode bs =
     (if bs = [] then Some []
      else
        (case utf8_read bs of
           None \<Rightarrow> None
         | Some (c, bs') \<Rightarrow> map_option (Cons c) (utf8_decode bs')))"
  by pat_completeness auto
termination
  by (relation "measure length") (auto dest: utf8_read_shorter)

declare utf8_decode.simps [simp del]

definition from_utf8 :: "byte list \<Rightarrow> rstr option" where
  "from_utf8 bs = utf8_decode (map unat bs)"

section \<open>Round trip\<close>

lemma utf8_char_bytes: "is_scalar c \<Longrightarrow> b \<in> set (utf8_char c) \<Longrightarrow> b < 256"
  by (auto simp: utf8_char_def is_scalar_def char_MAX_def split: if_splits)

lemma div_mod_64: "c div 64 * 64 + c mod 64 = (c :: nat)"
  by simp

lemma div_mod_4096: "c div 4096 * 4096 + c div 64 mod 64 * 64 + c mod 64 = (c :: nat)"
proof -
  have aux: "a * 4096 + b * 64 + m = c" if "a * 64 + b = q" "q * 64 + m = c" for a b q m :: nat
    using that by simp
  have "c div 4096 = c div 64 div 64" by (simp add: div_mult2_eq [symmetric])
  then show ?thesis by (intro aux [of _ _ "c div 64"]) simp_all
qed

lemma div_mod_262144:
  "c div 262144 * 262144 + c div 4096 mod 64 * 4096 + c div 64 mod 64 * 64 + c mod 64 = (c :: nat)"
proof -
  have aux: "a * 262144 + b * 4096 + m + n = c" if "a * 64 + b = q" "q * 4096 + m + n = c" for a b q m n :: nat
    using that by simp
  have "c div 262144 = c div 4096 div 64" by (simp add: div_mult2_eq [symmetric])
  then show ?thesis using div_mod_4096 [of c] by (intro aux [of _ _ "c div 4096"]) simp_all
qed

lemma is_cont_low [simp]: "is_cont (0x80 + x mod 64)"
proof -
  have "x mod 64 < 64" by simp
  then show ?thesis unfolding is_cont_def by linarith
qed

lemma utf8_read_char:
  assumes "is_scalar c"
  shows "utf8_read (utf8_char c @ bs) = Some (c, bs)"
proof -
  consider "c < 0x80" | "0x80 \<le> c" "c < 0x800" | "0x800 \<le> c" "c < 0x10000" | "0x10000 \<le> c"
    by linarith
  then show ?thesis
  proof cases
    case 2
    then have "c div 64 < 32" by (simp add: less_mult_imp_div_less)
    note lt = this
    show ?thesis using 2 div_mod_64 [of c] by (simp add: utf8_char_def Let_def lt)
  next
    case 3
    then have "c div 4096 < 16" by (simp add: less_mult_imp_div_less)
    then show ?thesis using 3 assms div_mod_4096 [of c] by (simp add: utf8_char_def Let_def)
  next
    case 4
    then show ?thesis using assms div_mod_262144 [of c] by (simp add: utf8_char_def Let_def)
  qed (simp add: utf8_char_def)
qed

lemma utf8_char_nonempty [simp]: "utf8_char c \<noteq> []"
  by (simp add: utf8_char_def)

lemma utf8_decode_values: "str_ok s \<Longrightarrow> utf8_decode (utf8_values s) = Some s"
proof (induction s)
  case Nil
  then show ?case by (simp add: utf8_values_def utf8_decode.simps)
next
  case (Cons c s)
  then have "utf8_decode (utf8_values s) = Some s" by (simp add: str_ok_def)
  moreover have "utf8_values (c # s) = utf8_char c @ utf8_values s" by (simp add: utf8_values_def)
  ultimately show ?case
    using Cons.prems utf8_read_char [of c "utf8_values s"]
    by (subst utf8_decode.simps) (simp add: str_ok_def)
qed

lemma unat_as_bytes:
  assumes "str_ok s"
  shows "map unat (as_bytes s) = utf8_values s"
proof -
  have "unat (word_of_nat b :: byte) = b" if "b \<in> set (utf8_values s)" for b
  proof -
    have "b < 256"
      using that assms utf8_char_bytes by (auto simp: utf8_values_def str_ok_def list_all_iff)
    then show ?thesis by (simp add: unat_of_nat)
  qed
  then show ?thesis by (simp add: as_bytes_def map_idI)
qed

lemma from_utf8_as_bytes [codec_simps]: "str_ok s \<Longrightarrow> from_utf8 (as_bytes s) = Some s"
  by (simp add: from_utf8_def unat_as_bytes utf8_decode_values)

lemma as_bytes_inj: "str_ok s \<Longrightarrow> str_ok t \<Longrightarrow> as_bytes s = as_bytes t \<Longrightarrow> s = t"
  by (metis from_utf8_as_bytes option.inject)

lemma as_bytes_append: "as_bytes (s @ t) = as_bytes s @ as_bytes t"
  by (simp add: as_bytes_def utf8_values_def)

lemma as_bytes_Nil [simp]: "as_bytes [] = []"
  by (simp add: as_bytes_def utf8_values_def)

lemma as_bytes_concat: "as_bytes (concat ss) = concat (map as_bytes ss)"
  by (induction ss) (simp_all add: as_bytes_append)

lemma str_ok_concat: "list_all str_ok ss \<Longrightarrow> str_ok (concat ss)"
  by (induction ss) (auto simp: str_ok_def)

section \<open>Order\<close>

lemma less_div_mod: "(c :: nat) < d \<Longrightarrow> c div n < d div n \<or> c div n = d div n \<and> c mod n < d mod n"
  by (metis div_le_mono div_mult_mod_eq le_neq_implies_less less_imp_le_nat nat_add_left_cancel_less)

lemma less_div_mod_4096:
  assumes "(c :: nat) < d"
  shows "c div 4096 < d div 4096 \<or> c div 4096 = d div 4096 \<and>
    (c div 64 mod 64 < d div 64 mod 64 \<or> c div 64 mod 64 = d div 64 mod 64 \<and> c mod 64 < d mod 64)"
proof -
  have "c div 4096 = c div 64 div 64" "d div 4096 = d div 64 div 64"
    by (simp_all add: div_mult2_eq [symmetric])
  then show ?thesis
    using less_div_mod [OF assms, of 64] less_div_mod [of "c div 64" "d div 64" 64] by auto
qed

lemma less_div_mod_262144:
  assumes "(c :: nat) < d"
  shows "c div 262144 < d div 262144 \<or> c div 262144 = d div 262144 \<and>
    (c div 4096 mod 64 < d div 4096 mod 64 \<or> c div 4096 mod 64 = d div 4096 mod 64 \<and>
      (c div 64 mod 64 < d div 64 mod 64 \<or> c div 64 mod 64 = d div 64 mod 64 \<and> c mod 64 < d mod 64))"
proof -
  have "c div 262144 = c div 4096 div 64" "d div 262144 = d div 4096 div 64"
    by (simp_all add: div_mult2_eq [symmetric])
  then show ?thesis
    using less_div_mod_4096 [OF assms] less_div_mod [of "c div 4096" "d div 4096" 64] by auto
qed

lemma utf8_char_less:
  assumes "c < d"
  shows "utf8_char c @ x < utf8_char d @ (y :: nat list)"
proof -
  have b: "c < 0x800 \<Longrightarrow> c div 64 < 32" "c < 0x10000 \<Longrightarrow> c div 4096 < 16"
    by (simp_all add: less_mult_imp_div_less)
  consider "d < 0x80" | "0x80 \<le> d" "d < 0x800" | "0x800 \<le> d" "d < 0x10000" | "0x10000 \<le> d"
    by linarith
  then show ?thesis
  proof cases
    case 1
    with assms show ?thesis by (simp add: utf8_char_def)
  next
    case 2
    with assms less_div_mod [OF assms, of 64] show ?thesis by (auto simp: utf8_char_def)
  next
    case 3
    with assms b(1) less_div_mod_4096 [OF assms] show ?thesis
      by (cases "c < 0x80"; cases "c < 0x800") (auto simp: utf8_char_def)
  next
    case 4
    with assms b less_div_mod_262144 [OF assms] show ?thesis
      by (cases "c < 0x80"; cases "c < 0x800"; cases "c < 0x10000") (auto simp: utf8_char_def)
  qed
qed

lemma append_less_cancel [simp]: "(a @ x < a @ y) = (x < (y :: nat list))"
  by (induction a) simp_all

text \<open>Comparing the bytes is comparing the scalar values.\<close>

lemma utf8_values_mono: "s < t \<Longrightarrow> utf8_values s < utf8_values t"
proof (induction s arbitrary: t)
  case Nil
  then obtain d t' where t: "t = d # t'" by (cases t) auto
  have "utf8_values t \<noteq> []" by (simp add: t utf8_values_def)
  then show ?case by (cases "utf8_values t") (simp_all add: utf8_values_def)
next
  case (Cons c s)
  then obtain d t' where t: "t = d # t'" by (cases t) auto
  have eq: "utf8_values (a # r) = utf8_char a @ utf8_values r" for a r by (simp add: utf8_values_def)
  show ?case
  proof (cases "c = d")
    case True
    with Cons.prems t have "s < t'" by simp
    then show ?thesis using Cons.IH True t eq by simp
  next
    case False
    with Cons.prems t have "c < d" by simp
    then show ?thesis unfolding t eq by (rule utf8_char_less)
  qed
qed

lemma utf8_values_less_iff: "utf8_values s < utf8_values t \<longleftrightarrow> s < t"
  using utf8_values_mono [of s t] utf8_values_mono [of t s]
  by (metis less_asym' less_irrefl linorder_less_linear)

end
