(* ===== verification/Wal.thy ===== *)
theory Wal
  imports Records
begin

text \<open>
  \<^verbatim>\<open>src/src/wal.rs\<close>: the write-ahead log. A file is its bytes; \<open>wal_synced\<close> counts the
  bytes an fsync has made durable. An I/O outcome is an argument of the operation that performs
  the I/O, so that its error branches are part of the model. The MessagePack codec and the CRC
  are third-party code and enter as the record \<open>wal_ext\<close>.
\<close>

section \<open>Third-party code\<close>

record wal_ext =
  rmp_to_vec :: "Record \<Rightarrow> rstr + byte list"
  rmp_from_slice :: "byte list \<Rightarrow> Record option"
  crc32_hash :: "byte list \<Rightarrow> nat"

text \<open>
  What the log relies on: a serialised record deserialises to itself, and a checksum is a
  \<^verbatim>\<open>u32\<close>.
\<close>

definition rmp_ok :: "('x) wal_ext_scheme \<Rightarrow> bool" where
  "rmp_ok X \<longleftrightarrow>
     (\<forall>r body. rmp_to_vec X r = Inr body \<longrightarrow> rmp_from_slice X body = Some r) \<and>
     (\<forall>body. crc32_hash X body < 2 ^ 32)"

section \<open>State and operations\<close>

datatype FsyncPolicy = Always | EveryN nat | Os

record Wal =
  wal_file :: "byte list"
  wal_synced :: nat
  wal_policy :: FsyncPolicy
  wal_since_sync :: nat
  wal_appended :: nat

definition WAL_MAGIC :: nat where
  "WAL_MAGIC = 0x4c415747"

definition WAL_VERSION :: nat where
  "WAL_VERSION = 1"

definition WAL_FRAME_MAX :: nat where
  "WAL_FRAME_MAX = 64 * 1024 * 1024"

definition wal_header :: "byte list" where
  "wal_header = u32_le WAL_MAGIC @ u32_le WAL_VERSION"

text \<open>
  What the operating system makes of a \<^verbatim>\<open>write_all\<close> and of a \<^verbatim>\<open>sync_data\<close>: all of
  the buffer is written, or only its first \<open>n\<close> bytes before an error; the sync succeeds or not.
\<close>

record wal_io =
  io_write :: "nat option"
  io_sync :: bool

definition io_fine :: wal_io where
  "io_fine = \<lparr> io_write = None, io_sync = True \<rparr>"

definition write_all :: "wal_io \<Rightarrow> byte list \<Rightarrow> Wal \<Rightarrow> unit result \<times> Wal" where
  "write_all io buf w =
     (case io_write io of
        None \<Rightarrow> (Inr (), w\<lparr> wal_file := wal_file w @ buf \<rparr>)
      | Some n \<Rightarrow> (Inl (Io OtherIo), w\<lparr> wal_file := wal_file w @ take n buf \<rparr>))"

definition sync_data :: "wal_io \<Rightarrow> Wal \<Rightarrow> unit result \<times> Wal" where
  "sync_data io w =
     (if io_sync io then (Inr (), w\<lparr> wal_synced := length (wal_file w) \<rparr>)
      else (Inl (Io OtherIo), w))"

text \<open>\<^verbatim>\<open>Wal::open\<close> on a file with the given bytes (empty for a new file).\<close>

definition wal_open :: "wal_io \<Rightarrow> byte list \<Rightarrow> FsyncPolicy \<Rightarrow> Wal result \<times> byte list" where
  "wal_open io bytes policy =
     (let w = \<lparr> wal_file = bytes, wal_synced = 0, wal_policy = policy, wal_since_sync = 0,
                wal_appended = 0 \<rparr>
      in if length bytes = 0 then
           (case write_all io wal_header w of
              (Inl e, w') \<Rightarrow> (Inl e, wal_file w')
            | (Inr _, w') \<Rightarrow> (Inr w', wal_file w'))
         else (Inr w, bytes))"

definition frame :: "('x) wal_ext_scheme \<Rightarrow> byte list \<Rightarrow> byte list" where
  "frame X body = u32_le (length body) @ u32_le (crc32_hash X body) @ body"

definition encode_frame :: "('x) wal_ext_scheme \<Rightarrow> Record \<Rightarrow> byte list result" where
  "encode_frame X r =
     (case rmp_to_vec X r of Inl e \<Rightarrow> Inl (Encode e) | Inr body \<Rightarrow> Inr (frame X body))"

definition encode_frames :: "('x) wal_ext_scheme \<Rightarrow> Record list \<Rightarrow> byte list result" where
  "encode_frames X records = and_then (map_result (encode_frame X) records) (\<lambda>fs. Inr (concat fs))"

definition wal_sync :: "wal_io \<Rightarrow> Wal \<Rightarrow> unit result \<times> Wal" where
  "wal_sync io w =
     (case sync_data io w of
        (Inl e, w') \<Rightarrow> (Inl e, w')
      | (Inr _, w') \<Rightarrow> (Inr (), w'\<lparr> wal_since_sync := 0 \<rparr>))"

definition sync_due :: "FsyncPolicy \<Rightarrow> nat \<Rightarrow> bool" where
  "sync_due policy since =
     (case policy of Always \<Rightarrow> True | EveryN n \<Rightarrow> n \<le> since | Os \<Rightarrow> False)"

definition append_batch ::
  "('x) wal_ext_scheme \<Rightarrow> wal_io \<Rightarrow> Wal \<Rightarrow> Record list \<Rightarrow> unit result \<times> Wal" where
  "append_batch X io w records =
     (case encode_frames X records of
        Inl e \<Rightarrow> (Inl e, w)
      | Inr buf \<Rightarrow>
          (case write_all io buf w of
             (Inl e, w1) \<Rightarrow> (Inl e, w1)
           | (Inr _, w1) \<Rightarrow>
               (let w2 = w1\<lparr> wal_appended := (wal_appended w1 + length records) mod 2 ^ 64,
                             wal_since_sync := (wal_since_sync w1 + length records) mod 2 ^ 32 \<rparr>
                in if sync_due (wal_policy w2) (wal_since_sync w2) then wal_sync io w2
                   else (Inr (), w2))))"

section \<open>Replay\<close>

text \<open>The loop after the version header: stop at the first frame that is not intact.\<close>

function read_frames :: "('x) wal_ext_scheme \<Rightarrow> byte list \<Rightarrow> Record list" where
  "read_frames X bs =
     (if length bs < 8 then []
      else
        (let len = of_le (take 4 bs);
             crc = of_le (take 4 (drop 4 bs));
             rest = drop 8 bs
         in if WAL_FRAME_MAX < len then []
            else if length rest < len then []
            else if crc32_hash X (take len rest) \<noteq> crc then []
            else
              (case rmp_from_slice X (take len rest) of
                 None \<Rightarrow> []
               | Some r \<Rightarrow> r # read_frames X (drop len rest))))"
  by pat_completeness auto
termination
  by (relation "measure (\<lambda>(X, bs). length bs)") auto

declare read_frames.simps [simp del]

definition replay :: "('x) wal_ext_scheme \<Rightarrow> byte list option \<Rightarrow> Record list result" where
  "replay X file =
     (case file of
        None \<Rightarrow> Inr []
      | Some bs \<Rightarrow>
          if length bs < 8 then Inr []
          else if of_le (take 4 bs) = WAL_MAGIC then
            (let version = of_le (take 4 (drop 4 bs))
             in if WAL_VERSION < version then
                  Inl (Corrupt ''wal'' (lit ''unsupported wal version '' @ dec version))
                else Inr (read_frames X (drop 8 bs)))
          else Inr (read_frames X bs))"

section \<open>Frames\<close>

text \<open>A record the log can give back: it serialises, to a body within the replay cap.\<close>

definition loggable :: "('x) wal_ext_scheme \<Rightarrow> Record \<Rightarrow> bool" where
  "loggable X r \<longleftrightarrow>
     (case rmp_to_vec X r of Inl _ \<Rightarrow> False | Inr body \<Rightarrow> length body \<le> WAL_FRAME_MAX)"

definition body_of :: "('x) wal_ext_scheme \<Rightarrow> Record \<Rightarrow> byte list" where
  "body_of X r = (case rmp_to_vec X r of Inl _ \<Rightarrow> [] | Inr body \<Rightarrow> body)"

definition frames_of :: "('x) wal_ext_scheme \<Rightarrow> Record list \<Rightarrow> byte list" where
  "frames_of X rs = concat (map (\<lambda>r. frame X (body_of X r)) rs)"

lemma frames_of_simps [simp]:
  "frames_of X [] = []" "frames_of X (r # rs) = frame X (body_of X r) @ frames_of X rs"
  "frames_of X (rs @ ss) = frames_of X rs @ frames_of X ss"
  by (simp_all add: frames_of_def)

lemma length_frame [simp]: "length (frame X body) = 8 + length body"
  by (simp add: frame_def)

lemma length_wal_header [simp]: "length wal_header = 8"
  by (simp add: wal_header_def)

lemma encode_frames_loggable:
  "list_all (loggable X) rs \<Longrightarrow> encode_frames X rs = Inr (frames_of X rs)"
  by (induction rs)
     (auto simp: encode_frames_def encode_frame_def loggable_def body_of_def split: sum.splits)

lemma frame_head:
  assumes "length body \<le> WAL_FRAME_MAX" and "rmp_ok X"
  shows "of_le (take 4 (frame X body @ bs)) = length body"
    and "of_le (take 4 (drop 4 (frame X body @ bs))) = crc32_hash X body"
    and "drop 8 (frame X body @ bs) = body @ bs"
  using assms by (simp_all add: frame_def of_le_u32 rmp_ok_def WAL_FRAME_MAX_def)

text \<open>One whole frame is read back and the loop goes on behind it.\<close>

lemma read_frames_Cons:
  assumes "rmp_ok X" and "loggable X r"
  shows "read_frames X (frame X (body_of X r) @ bs) = r # read_frames X bs"
proof -
  obtain body where b: "rmp_to_vec X r = Inr body" "length body \<le> WAL_FRAME_MAX"
    using assms(2) by (auto simp: loggable_def split: sum.splits)
  have "rmp_from_slice X body = Some r" using assms(1) b by (simp add: rmp_ok_def)
  with b show ?thesis
    by (subst read_frames.simps)
       (simp add: Let_def frame_head [OF b(2) assms(1), of "[]", simplified] body_of_def)
qed

lemma read_frames_append:
  "rmp_ok X \<Longrightarrow> list_all (loggable X) rs \<Longrightarrow>
   read_frames X (frames_of X rs @ bs) = rs @ read_frames X bs"
  by (induction rs) (simp_all add: read_frames_Cons)

text \<open>A frame cut short is not read, whatever it holds.\<close>

lemma read_frames_torn:
  assumes "rmp_ok X" and "loggable X r" and "n < length (frame X (body_of X r))"
  shows "read_frames X (take n (frame X (body_of X r))) = []"
proof (cases "n < 8")
  case True
  then show ?thesis by (subst read_frames.simps) simp
next
  case False
  let ?body = "body_of X r"
  have b: "length ?body \<le> WAL_FRAME_MAX"
    using assms(2) by (auto simp: loggable_def body_of_def split: sum.splits)
  have "take 4 (take n (frame X ?body)) = take 4 (frame X ?body)" using False by (simp add: min_absorb1)
  then have "of_le (take 4 (take n (frame X ?body))) = length ?body"
    using frame_head(1) [OF b assms(1), of "[]"] by simp
  moreover have "length (drop 8 (take n (frame X ?body))) < length ?body" using assms(3) False by simp
  ultimately show ?thesis by (subst read_frames.simps) (simp add: Let_def)
qed

text \<open>The records whose frames lie within the first \<open>n\<close> bytes.\<close>

fun whole_frames :: "('x) wal_ext_scheme \<Rightarrow> Record list \<Rightarrow> nat \<Rightarrow> nat" where
  "whole_frames X [] n = 0"
| "whole_frames X (r # rs) n =
     (let l = 8 + length (body_of X r) in
      if n < l then 0 else Suc (whole_frames X rs (n - l)))"

lemma read_frames_take:
  "rmp_ok X \<Longrightarrow> list_all (loggable X) rs \<Longrightarrow>
   read_frames X (take n (frames_of X rs)) = take (whole_frames X rs n) rs"
proof (induction rs arbitrary: n)
  case Nil
  then show ?case by (simp add: read_frames.simps)
next
  case (Cons r rs)
  show ?case
  proof (cases "n < length (frame X (body_of X r))")
    case True
    then show ?thesis using Cons.prems read_frames_torn [of X r n] by (simp add: Let_def)
  next
    case False
    then show ?thesis using Cons by (simp add: Let_def read_frames_Cons)
  qed
qed

lemma whole_frames_all: "length (frames_of X rs) \<le> n \<Longrightarrow> whole_frames X rs n = length rs"
  by (induction rs arbitrary: n) (auto simp: Let_def)

lemma whole_frames_mono:
  "length (frames_of X rs) \<le> n \<Longrightarrow> length rs \<le> whole_frames X (rs @ ss) n"
  by (induction rs arbitrary: n) (auto simp: Let_def)

lemma magic_not_frame: "loggable X r \<Longrightarrow> rmp_ok X \<Longrightarrow>
  of_le (take 4 (frame X (body_of X r) @ bs)) \<noteq> WAL_MAGIC"
  using frame_head(1) [of "body_of X r" X bs]
  by (auto simp: loggable_def body_of_def WAL_FRAME_MAX_def WAL_MAGIC_def split: sum.splits)

lemma replay_header: "replay X (Some (wal_header @ bs)) = Inr (read_frames X bs)"
  by (simp add: replay_def wal_header_def Let_def of_le_u32 WAL_MAGIC_def WAL_VERSION_def)

section \<open>The log a file holds\<close>

text \<open>
  \<open>wal_log X w rs k\<close>: the file is the version header and the frames of \<open>rs\<close>, the first \<open>k\<close> of
  them durable, and the unsynced rest is within the counter \<open>wal_since_sync\<close>.
\<close>

definition wal_log :: "('x) wal_ext_scheme \<Rightarrow> Wal \<Rightarrow> Record list \<Rightarrow> nat \<Rightarrow> bool" where
  "wal_log X w rs k \<longleftrightarrow>
     wal_file w = wal_header @ frames_of X rs \<and> list_all (loggable X) rs \<and>
     k \<le> length rs \<and> (k = 0 \<or> 8 + length (frames_of X (take k rs)) \<le> wal_synced w) \<and>
     length rs - k \<le> wal_since_sync w"

text \<open>What a crash leaves of the file: a prefix that has at least the synced bytes.\<close>

definition crash_image :: "Wal \<Rightarrow> byte list \<Rightarrow> bool" where
  "crash_image w bs \<longleftrightarrow> (\<exists>n. wal_synced w \<le> n \<and> bs = take n (wal_file w))"

lemma wal_log_open:
  "wal_open io_fine [] policy = (Inr w, bs) \<Longrightarrow> wal_log X w [] 0 \<and> bs = wal_file w \<and> wal_policy w = policy"
  by (auto simp: wal_open_def io_fine_def write_all_def wal_log_def Let_def)

lemma append_batch_ok:
  assumes log: "wal_log X w rs k" and new: "list_all (loggable X) new" and io: "io_write io = None"
    and small: "wal_since_sync w + length new < 2 ^ 32"
    and res: "append_batch X io w new = (Inr (), w')"
  shows "wal_log X w' (rs @ new) (if sync_due (wal_policy w) (wal_since_sync w + length new)
                                    then length rs + length new else k)"
    and "wal_policy w' = wal_policy w"
proof -
  define since where "since = wal_since_sync w + length new"
  define w2 where "w2 = w\<lparr> wal_file := wal_file w @ frames_of X new,
                           wal_appended := (wal_appended w + length new) mod 2 ^ 64,
                           wal_since_sync := since \<rparr>"
  have eq: "append_batch X io w new =
      (if sync_due (wal_policy w) since then wal_sync io w2 else (Inr (), w2))"
    using small by (simp add: append_batch_def encode_frames_loggable [OF new] write_all_def io Let_def
        w2_def since_def)
  have w2: "wal_file w2 = wal_header @ frames_of X (rs @ new)" "wal_synced w2 = wal_synced w"
      "wal_since_sync w2 = since" "wal_policy w2 = wal_policy w"
    using log by (simp_all add: w2_def wal_log_def)
  have w': "w' = (if sync_due (wal_policy w) since
                  then w2\<lparr> wal_synced := length (wal_file w2), wal_since_sync := 0 \<rparr> else w2)"
    using res unfolding eq by (auto simp: wal_sync_def sync_data_def split: if_splits)
  show "wal_policy w' = wal_policy w" by (simp add: w' w2)
  have "wal_log X w' (rs @ new) (length rs + length new)" if "sync_due (wal_policy w) since"
    using log new that by (simp add: wal_log_def w' w2)
  moreover have "wal_log X w' (rs @ new) k" if "\<not> sync_due (wal_policy w) since"
    using log new that by (auto simp: wal_log_def w' w2 since_def)
  ultimately show "wal_log X w' (rs @ new) (if sync_due (wal_policy w) (wal_since_sync w + length new)
                                    then length rs + length new else k)"
    by (simp add: since_def [symmetric])
qed

lemma replay_log:
  "rmp_ok X \<Longrightarrow> wal_log X w rs k \<Longrightarrow> replay X (Some (wal_file w)) = Inr rs"
  using read_frames_append [of X rs "[]"]
  by (simp add: wal_log_def replay_header read_frames.simps [of X "[]"])

lemma replay_crash:
  assumes X: "rmp_ok X" and log: "wal_log X w rs k" and img: "crash_image w bs"
  shows "\<exists>m. k \<le> m \<and> m \<le> length rs \<and> replay X (Some bs) = Inr (take m rs)"
proof -
  from img obtain n where n: "wal_synced w \<le> n" and bs: "bs = take n (wal_header @ frames_of X rs)"
    using log by (auto simp: crash_image_def wal_log_def)
  show ?thesis
  proof (cases "n < 8")
    case True
    then have "k = 0" using log n by (auto simp: wal_log_def)
    moreover have "replay X (Some bs) = Inr (take 0 rs)" using True by (simp add: bs replay_def)
    ultimately show ?thesis by blast
  next
    case False
    let ?m = "whole_frames X rs (n - 8)"
    have "bs = wal_header @ take (n - 8) (frames_of X rs)" using False by (simp add: bs)
    then have rep: "replay X (Some bs) = Inr (take ?m rs)"
      using log X by (simp add: replay_header read_frames_take wal_log_def)
    have "k \<le> min (length rs) ?m"
    proof (cases "k = 0")
      case False
      then have "length (frames_of X (take k rs)) \<le> n - 8" using log n by (auto simp: wal_log_def)
      then have "length (take k rs) \<le> whole_frames X (take k rs @ drop k rs) (n - 8)"
        by (rule whole_frames_mono)
      with log show ?thesis by (simp add: wal_log_def)
    qed simp
    moreover have "take ?m rs = take (min (length rs) ?m) rs" by (simp add: min_def)
    ultimately show ?thesis using rep by (intro exI [of _ "min (length rs) ?m"]) simp
  qed
qed

section \<open>The interface of a durable log\<close>

text \<open>
  What the writer relies on: an acknowledged batch extends the log, and whatever a crash leaves
  recovers to the acknowledged log.
\<close>

locale durable_log =
  fixes inv :: "'w \<Rightarrow> 'r list \<Rightarrow> bool"
    and acked :: "'w \<Rightarrow> 'r list \<Rightarrow> 'w \<Rightarrow> bool"
    and image :: "'w \<Rightarrow> 'f \<Rightarrow> bool"
    and recover :: "'f \<Rightarrow> 'r list option"
  assumes acked_extends: "inv w rs \<Longrightarrow> acked w new w' \<Longrightarrow> inv w' (rs @ new)"
    and image_recovers: "inv w rs \<Longrightarrow> image w f \<Longrightarrow> recover f = Some rs"
begin

inductive session :: "'w \<Rightarrow> 'r list \<Rightarrow> 'w \<Rightarrow> bool" where
  start: "session w [] w"
| step: "session w rs w1 \<Longrightarrow> acked w1 new w2 \<Longrightarrow> session w (rs @ new) w2"

lemma session_inv: "session w new w' \<Longrightarrow> inv w rs \<Longrightarrow> inv w' (rs @ new)"
proof (induction rule: session.induct)
  case (step w rs' w1 new w2)
  then show ?case using acked_extends [of w1 "rs @ rs'" new w2] by simp
qed simp

lemma nothing_acked_is_lost:
  "session w new w' \<Longrightarrow> inv w rs \<Longrightarrow> image w' f \<Longrightarrow> recover f = Some (rs @ new)"
  using session_inv image_recovers by blast

end

text \<open>Under \<^verbatim>\<open>FsyncPolicy::Always\<close> the write-ahead log is such a log.\<close>

definition wal_durable :: "('x) wal_ext_scheme \<Rightarrow> Wal \<Rightarrow> Record list \<Rightarrow> bool" where
  "wal_durable X w rs \<longleftrightarrow>
     rmp_ok X \<and> wal_policy w = Always \<and> wal_since_sync w = 0 \<and> wal_log X w rs (length rs)"

definition wal_acked :: "('x) wal_ext_scheme \<Rightarrow> Wal \<Rightarrow> Record list \<Rightarrow> Wal \<Rightarrow> bool" where
  "wal_acked X w new w' \<longleftrightarrow>
     list_all (loggable X) new \<and> length new < 2 ^ 32 \<and>
     (\<exists>io. append_batch X io w new = (Inr (), w'))"

definition wal_recover :: "('x) wal_ext_scheme \<Rightarrow> byte list \<Rightarrow> Record list option" where
  "wal_recover X bs = (case replay X (Some bs) of Inl _ \<Rightarrow> None | Inr rs \<Rightarrow> Some rs)"

lemma append_batch_acked_io:
  "append_batch X io w new = (Inr (), w') \<Longrightarrow> io_write io = None"
  by (auto simp: append_batch_def write_all_def split: sum.splits option.splits)

interpretation walog: durable_log "wal_durable X" "wal_acked X" crash_image "wal_recover X" for X
proof
  fix w rs new w'
  assume inv: "wal_durable X w rs" and ack: "wal_acked X w new w'"
  then obtain io where io: "append_batch X io w new = (Inr (), w')" by (auto simp: wal_acked_def)
  note ok = append_batch_ok [OF _ _ append_batch_acked_io [OF io] _ io, of rs "length rs"]
  have log: "wal_log X w' (rs @ new) (length (rs @ new))" and pol: "wal_policy w' = Always"
    using ok inv ack by (auto simp: wal_durable_def wal_acked_def sync_due_def)
  have "wal_since_sync w' = 0"
    using io inv append_batch_acked_io [OF io]
    by (auto simp: append_batch_def wal_durable_def sync_due_def write_all_def Let_def wal_sync_def
        sync_data_def split: sum.splits if_splits)
  with inv log pol show "wal_durable X w' (rs @ new)" by (simp add: wal_durable_def)
next
  fix w rs f
  assume "wal_durable X w rs" "crash_image w f"
  then show "wal_recover X f = Some rs"
    using replay_crash [of X w rs "length rs" f] by (auto simp: wal_durable_def wal_recover_def)
qed

section \<open>Sequences of batches\<close>

text \<open>Appending batches while every one is acknowledged.\<close>

fun wal_appends :: "('x) wal_ext_scheme \<Rightarrow> Wal \<Rightarrow> (wal_io \<times> Record list) list \<Rightarrow> Wal option" where
  "wal_appends X w [] = Some w"
| "wal_appends X w ((io, b) # bs) =
     (case append_batch X io w b of (Inl _, _) \<Rightarrow> None | (Inr _, w') \<Rightarrow> wal_appends X w' bs)"

lemma wal_appends_session:
  assumes "\<forall>b \<in> set (map snd bs). list_all (loggable X) b \<and> length b < 2 ^ 32"
  shows "durable_log.session (wal_acked X) w rs w1 \<Longrightarrow> wal_appends X w1 bs = Some w2 \<Longrightarrow>
         durable_log.session (wal_acked X) w (rs @ concat (map snd bs)) w2"
  using assms
proof (induction bs arbitrary: rs w1)
  case (Cons b bs)
  obtain io rb where b: "b = (io, rb)" by fastforce
  obtain u w' where a: "append_batch X io w1 rb = (Inr u, w')" and r: "wal_appends X w' bs = Some w2"
    using Cons.prems(2) by (auto simp: b split: prod.splits sum.splits)
  have "wal_acked X w1 rb w'"
    using a Cons.prems(3) by (auto simp: wal_acked_def b)
  then have "durable_log.session (wal_acked X) w (rs @ rb) w'" by (rule walog.session.step [OF Cons.prems(1)])
  then show ?case using Cons.IH [of "rs @ rb", OF _ r] Cons.prems(3) by (simp add: b)
qed simp

section \<open>A concrete codec for the examples\<close>

definition sample_record :: "rstr \<Rightarrow> Record" where
  "sample_record k =
     \<lparr> rec_key = k, rec_timestamp = 5, rec_labels = fmempty, rec_numerics = fmempty,
       rec_payload = [7], rec_text = None \<rparr>"

text \<open>It serialises two records, to bodies of three bytes and of one; the checksum is the sum.\<close>

definition sample_ext :: wal_ext where
  "sample_ext =
     \<lparr> rmp_to_vec = (\<lambda>r. if r = sample_record [97] then Inr [1, 2, 3]
                        else if r = sample_record [98] then Inr [4] else Inl []),
       rmp_from_slice = (\<lambda>b. if b = [1, 2, 3] then Some (sample_record [97])
                            else if b = [4] then Some (sample_record [98]) else None),
       crc32_hash = (\<lambda>b. sum_list (map unat b) mod 2 ^ 32) \<rparr>"

lemma sample_ext_ok: "rmp_ok sample_ext"
  by (auto simp: rmp_ok_def sample_ext_def split: if_splits)

lemma sample_records_differ [simp]: "sample_record [97] \<noteq> sample_record [98]"
  "sample_record [98] \<noteq> sample_record [97]"
  by (simp_all add: sample_record_def)

lemma sample_loggable [simp]: "loggable sample_ext (sample_record [97])" "loggable sample_ext (sample_record [98])"
  by (simp_all add: loggable_def sample_ext_def WAL_FRAME_MAX_def)

definition sample_wal :: Wal where
  "sample_wal = \<lparr> wal_file = wal_header, wal_synced = 0, wal_policy = Always, wal_since_sync = 0, wal_appended = 0 \<rparr>"

lemma sample_wal_open: "wal_open io_fine [] Always = (Inr sample_wal, wal_header)"
  by (simp add: wal_open_def io_fine_def write_all_def sample_wal_def Let_def)

lemma sample_wal_log: "wal_log X sample_wal [] 0"
  by (simp add: wal_log_def sample_wal_def)

lemma sample_append:
  "\<exists>w'. append_batch sample_ext io_fine sample_wal [sample_record [97]] = (Inr (), w') \<and>
        wal_synced w' = length (wal_file w')"
  by (simp add: append_batch_def encode_frames_loggable write_all_def io_fine_def Let_def sync_due_def
      wal_sync_def sync_data_def sample_wal_def)

section \<open>Properties\<close>

text \<open>
  C3. Durability. On a log opened under \<^verbatim>\<open>FsyncPolicy::Always\<close>, after any sequence of
  acknowledged batches, whatever prefix of the file a crash leaves replays to exactly the
  acknowledged records, in order.
\<close>

theorem wal_acked_batches_survive_crash:
  assumes "rmp_ok X" and "wal_open io [] Always = (Inr w0, bytes)"
    and "\<forall>b \<in> set (map snd bs). list_all (loggable X) b \<and> length b < 2 ^ 32"
    and "wal_appends X w0 bs = Some w" and "crash_image w f"
  shows "replay X (Some f) = Inr (concat (map snd bs))"
proof -
  have "wal_durable X w0 []"
    using assms(1,2)
    by (auto simp: wal_open_def write_all_def wal_durable_def wal_log_def Let_def split: option.splits)
  moreover have "durable_log.session (wal_acked X) w0 (concat (map snd bs)) w"
    using wal_appends_session [OF assms(3) walog.session.start assms(4)] by simp
  ultimately have "wal_recover X f = Some ([] @ concat (map snd bs))"
    using assms(5) by (intro walog.nothing_acked_is_lost)
  then show ?thesis by (simp add: wal_recover_def split: sum.splits)
qed

theorem wal_acked_batches_survive_crash_witness:
  "\<exists>w f. wal_appends sample_ext sample_wal [(io_fine, [sample_record [97]])] = Some w \<and> crash_image w f \<and>
         replay sample_ext (Some f) = Inr [sample_record [97]]"
proof -
  obtain w where w: "append_batch sample_ext io_fine sample_wal [sample_record [97]] = (Inr (), w)"
    using sample_append by blast
  then have a: "wal_appends sample_ext sample_wal [(io_fine, [sample_record [97]])] = Some w" by simp
  have c: "crash_image w (take (wal_synced w) (wal_file w))" by (auto simp: crash_image_def)
  show ?thesis
    using a c wal_acked_batches_survive_crash [OF sample_ext_ok sample_wal_open _ a c] by auto
qed



text \<open>
  C18. Under \<^verbatim>\<open>FsyncPolicy::EveryN(n)\<close> an acknowledged batch leaves fewer than \<open>n\<close>
  records (none for \<open>n = 0\<close>) that a crash can take away.
\<close>

theorem wal_every_n_loses_less_than_n:
  assumes X: "rmp_ok X" and log: "wal_log X w rs k" and pol: "wal_policy w = EveryN n"
    and new: "list_all (loggable X) new" and small: "wal_since_sync w + length new < 2 ^ 32"
    and ack: "append_batch X io w new = (Inr (), w')" and crash: "crash_image w' bs"
  shows "\<exists>m \<le> length (rs @ new). length (rs @ new) - m < max n 1 \<and>
           replay X (Some bs) = Inr (take m (rs @ new))"
proof -
  let ?due = "sync_due (EveryN n) (wal_since_sync w + length new)"
  let ?k = "if ?due then length rs + length new else k"
  have log': "wal_log X w' (rs @ new) ?k"
    using append_batch_ok(1) [OF log new append_batch_acked_io [OF ack] small ack] pol by simp
  obtain m where m: "?k \<le> m" "m \<le> length (rs @ new)" "replay X (Some bs) = Inr (take m (rs @ new))"
    using replay_crash [OF X log' crash] by blast
  have "length rs - k \<le> wal_since_sync w" using log by (simp add: wal_log_def)
  then have "length (rs @ new) - ?k < max n 1" by (auto simp: sync_due_def)
  then show ?thesis using m by (intro exI [of _ m]) auto
qed

theorem wal_every_n_loses_less_than_n_witness:
  "\<exists>w' bs. append_batch sample_ext io_fine (sample_wal\<lparr> wal_policy := EveryN 9 \<rparr>) [sample_record [97]] = (Inr (), w') \<and>
     crash_image w' bs \<and> (\<exists>m \<le> length ([] @ [sample_record [97]]). length ([] @ [sample_record [97]]) - m < max 9 1 \<and>
       replay sample_ext (Some bs) = Inr (take m ([] @ [sample_record [97]])))"
proof -
  let ?w = "sample_wal\<lparr> wal_policy := EveryN 9 \<rparr>"
  obtain w' where w': "append_batch sample_ext io_fine ?w [sample_record [97]] = (Inr (), w')"
    by (simp add: append_batch_def encode_frames_loggable write_all_def io_fine_def Let_def sync_due_def
        sample_wal_def)
  have log: "wal_log sample_ext ?w [] 0" by (simp add: wal_log_def sample_wal_def)
  have c: "crash_image w' (take (wal_synced w') (wal_file w'))" by (auto simp: crash_image_def)
  show ?thesis
    using w' c wal_every_n_loses_less_than_n [OF sample_ext_ok log _ _ _ w' c, of 9]
    by (auto simp: sample_wal_def)
qed

text \<open>
  C23. Format compatibility: headerless (version 0) and current logs replay the same records, and a
  log of a later version is an error, never an empty log.
\<close>

theorem wal_versions:
  assumes "rmp_ok X" and "list_all (loggable X) rs"
  shows "replay X (Some (frames_of X rs)) = Inr rs \<and>
         replay X (Some (wal_header @ frames_of X rs)) = Inr rs \<and>
         (\<forall>v. WAL_VERSION < v \<and> v < 2 ^ 32 \<longrightarrow>
            (\<exists>d. replay X (Some (u32_le WAL_MAGIC @ u32_le v @ frames_of X rs)) = Inl (Corrupt ''wal'' d)))"
proof (intro conjI allI impI)
  have all: "read_frames X (frames_of X rs) = rs"
    using read_frames_append [OF assms, of "[]"] by (simp add: read_frames.simps [of X "[]"])
  then show "replay X (Some (wal_header @ frames_of X rs)) = Inr rs" by (simp add: replay_header)
  show "replay X (Some (frames_of X rs)) = Inr rs"
  proof (cases rs)
    case (Cons r rs')
    then have "of_le (take 4 (frames_of X rs)) \<noteq> WAL_MAGIC" "\<not> length (frames_of X rs) < 8"
      using magic_not_frame [of X r "frames_of X rs'"] assms by simp_all
    then show ?thesis using all by (simp add: replay_def)
  qed (simp add: replay_def)
  fix v :: nat
  assume v: "WAL_VERSION < v \<and> v < 2 ^ 32"
  then show "\<exists>d. replay X (Some (u32_le WAL_MAGIC @ u32_le v @ frames_of X rs)) = Inl (Corrupt ''wal'' d)"
    by (simp add: replay_def Let_def of_le_u32 WAL_MAGIC_def)
qed

theorem wal_versions_witness:
  "replay sample_ext (Some (frames_of sample_ext [sample_record [98]])) = Inr [sample_record [98]]"
  using wal_versions [OF sample_ext_ok, of "[sample_record [98]]"] by simp



text \<open>
  C31. A failed append is not rolled back: when a write stops inside a frame the torn frame stays in
  the open log, a later batch is appended behind it and acknowledged, and replay stops at the
  torn frame without reaching the acknowledged batch.
\<close>

theorem wal_append_after_torn_write_is_lost:
  "\<exists>w1 w2. append_batch sample_ext \<lparr> io_write = Some 9, io_sync = True \<rparr> sample_wal [sample_record [97]] =
             (Inl (Io OtherIo), w1) \<and>
           append_batch sample_ext io_fine w1 [sample_record [98]] = (Inr (), w2) \<and>
           wal_synced w2 = length (wal_file w2) \<and>
           replay sample_ext (Some (wal_file w2)) = Inr []"
proof -
  have le: "u32_le 3 = [3, 0, 0, 0]" "u32_le 6 = [6, 0, 0, 0]" "u32_le 1 = [1, 0, 0, 0]"
    "u32_le 4 = [4, 0, 0, 0]"
    "u32_le (Suc (Suc (Suc 0))) = [3, 0, 0, 0]" "u32_le (Suc 0) = [1, 0, 0, 0]"
    by code_simp+
  have f: "frame sample_ext (body_of sample_ext (sample_record [97])) = [3,0,0,0, 6,0,0,0, 1,2,3]"
    "frame sample_ext (body_of sample_ext (sample_record [98])) = [1,0,0,0, 4,0,0,0, 4]"
    by (simp_all add: frame_def body_of_def sample_ext_def le)
  let ?w1 = "sample_wal\<lparr> wal_file := wal_header @ [3,0,0,0, 6,0,0,0, 1] \<rparr>"
  let ?f2 = "wal_header @ [3,0,0,0, 6,0,0,0, 1, 1,0,0,0, 4,0,0,0, 4]"
  let ?w2 = "sample_wal\<lparr> wal_file := ?f2, wal_synced := length ?f2, wal_appended := 1 \<rparr>"
  have a: "append_batch sample_ext \<lparr> io_write = Some 9, io_sync = True \<rparr> sample_wal [sample_record [97]] =
      (Inl (Io OtherIo), ?w1)"
    by (simp add: append_batch_def encode_frames_loggable f write_all_def) (simp add: sample_wal_def)
  have b: "append_batch sample_ext io_fine ?w1 [sample_record [98]] = (Inr (), ?w2)"
    by (simp add: append_batch_def encode_frames_loggable f write_all_def io_fine_def Let_def)
       (simp add: sync_due_def wal_sync_def sync_data_def sample_wal_def)
  have len: "of_le [3,0,0,0] = 3" "of_le [6,0,0,0] = 6" by code_simp+
  have bad: "read_frames sample_ext [3,0,0,0, 6,0,0,0, 1, 1,0,0,0, 4,0,0,0, 4] = []"
    by (subst read_frames.simps) (simp add: Let_def sample_ext_def WAL_FRAME_MAX_def len)
  have "replay sample_ext (Some ?f2) = Inr []" using bad by (simp add: replay_header)
  then show ?thesis using a b by (intro exI [of _ ?w1] exI [of _ ?w2]) simp
qed

end
