(* ===== verification/Memtable.thy ===== *)
theory Memtable
  imports Records
begin

text \<open>
  \<^verbatim>\<open>src/src/memtable.rs\<close>: the write buffer. Key-sorted records with a token-to-keys map
  kept consistent by every insert, a counter of resident deltas and a conservative range of
  delta keys. The locale \<open>postings\<close> is the interface of a token index: whoever keeps exact
  posting sets may answer an AND-of-tokens query by intersecting them.
\<close>

section \<open>State and operations\<close>

record MemTable =
  mt_records :: "(rstr, Record) bmap"
  mt_token_keys :: "(rstr, rstr fset) fmap"
  mt_key_tokens :: "(rstr, rstr list) fmap"
  mt_delta_keys :: nat
  mt_delta_key_range :: "(rstr \<times> rstr) option"

definition mt_default :: MemTable where
  "mt_default =
     \<lparr> mt_records = fmempty, mt_token_keys = fmempty, mt_key_tokens = fmempty,
       mt_delta_keys = 0, mt_delta_key_range = None \<rparr>"

definition remove_token :: "rstr \<Rightarrow> rstr \<Rightarrow> (rstr, rstr fset) fmap \<Rightarrow> (rstr, rstr fset) fmap" where
  "remove_token key t tk =
     (case fmlookup tk t of
        None \<Rightarrow> tk
      | Some keys \<Rightarrow>
          (let keys' = keys |-| {|key|} in
           if keys' = {||} then fmdrop t tk else fmupd t keys' tk))"

definition add_token :: "rstr \<Rightarrow> rstr \<Rightarrow> (rstr, rstr fset) fmap \<Rightarrow> (rstr, rstr fset) fmap" where
  "add_token key t tk =
     fmupd t (finsert key (case fmlookup tk t of None \<Rightarrow> {||} | Some keys \<Rightarrow> keys)) tk"

definition distinct_tokens :: "unicode \<Rightarrow> rstr \<Rightarrow> rstr list" where
  "distinct_tokens U text = remdups_adj (sort (fts_tokens U text))"

text \<open>The upsert: the delta bookkeeping, the old version's tokens out, the new one's in.\<close>

definition note_delta :: "Record \<Rightarrow> MemTable \<Rightarrow> MemTable" where
  "note_delta r m =
     (let m1 = (case fmlookup (mt_records m) (rec_key r) of
                  Some old \<Rightarrow> if is_delta old then m\<lparr> mt_delta_keys := mt_delta_keys m - 1 \<rparr> else m
                | None \<Rightarrow> m)
      in if is_delta r then
           m1\<lparr> mt_delta_keys := mt_delta_keys m1 + 1,
               mt_delta_key_range :=
                 Some (case mt_delta_key_range m1 of
                         None \<Rightarrow> (rec_key r, rec_key r)
                       | Some (lo, hi) \<Rightarrow> (min lo (rec_key r), max hi (rec_key r))) \<rparr>
         else m1)"

definition drop_tokens :: "rstr \<Rightarrow> MemTable \<Rightarrow> MemTable" where
  "drop_tokens key m =
     (case fmlookup (mt_key_tokens m) key of
        None \<Rightarrow> m
      | Some old_tokens \<Rightarrow>
          m\<lparr> mt_key_tokens := fmdrop key (mt_key_tokens m),
             mt_token_keys := fold (remove_token key) old_tokens (mt_token_keys m) \<rparr>)"

definition put_tokens :: "unicode \<Rightarrow> Record \<Rightarrow> MemTable \<Rightarrow> MemTable" where
  "put_tokens U r m =
     (case rec_text r of
        None \<Rightarrow> m
      | Some text \<Rightarrow>
          (let ds = distinct_tokens U text;
               m1 = m\<lparr> mt_token_keys := fold (add_token (rec_key r)) ds (mt_token_keys m) \<rparr>
           in if ds \<noteq> [] then m1\<lparr> mt_key_tokens := fmupd (rec_key r) ds (mt_key_tokens m1) \<rparr>
              else m1))"

definition mt_insert :: "unicode \<Rightarrow> MemTable \<Rightarrow> Record \<Rightarrow> MemTable" where
  "mt_insert U m r =
     (let m1 = put_tokens U r (drop_tokens (rec_key r) (note_delta r m))
      in m1\<lparr> mt_records := fmupd (rec_key r) r (mt_records m1) \<rparr>)"

definition mt_get :: "MemTable \<Rightarrow> rstr \<Rightarrow> Record option" where
  "mt_get m key = fmlookup (mt_records m) key"

definition insert_delta :: "unicode \<Rightarrow> MemTable \<Rightarrow> Record \<Rightarrow> MemTable" where
  "insert_delta U m delta =
     mt_insert U m (merge_delta (fmlookup (mt_records m) (rec_key delta)) delta)"

definition mt_len :: "MemTable \<Rightarrow> nat" where
  "mt_len m = fcard (fmdom (mt_records m))"

definition mt_is_empty :: "MemTable \<Rightarrow> bool" where
  "mt_is_empty m \<longleftrightarrow> mt_records m = fmempty"

definition mt_values :: "MemTable \<Rightarrow> Record list" where
  "mt_values m = bt_values (mt_records m)"

definition mt_has_deltas :: "MemTable \<Rightarrow> bool" where
  "mt_has_deltas m \<longleftrightarrow> 0 < mt_delta_keys m"

definition mt_delta_range :: "MemTable \<Rightarrow> (rstr \<times> rstr) option" where
  "mt_delta_range m = mt_delta_key_range m"

fun collect_sets :: "(rstr, rstr fset) fmap \<Rightarrow> rstr list \<Rightarrow> rstr fset list option" where
  "collect_sets tk [] = Some []"
| "collect_sets tk (t # ts) =
     (case fmlookup tk t of
        None \<Rightarrow> None
      | Some s \<Rightarrow> (case collect_sets tk ts of None \<Rightarrow> None | Some ss \<Rightarrow> Some (s # ss)))"

definition text_candidates :: "MemTable \<Rightarrow> rstr list \<Rightarrow> rstr fset" where
  "text_candidates m want =
     (if want = [] then {||}
      else
        (case collect_sets (mt_token_keys m) want of
           None \<Rightarrow> {||}
         | Some sets \<Rightarrow>
             (case sort_key fcard sets of
                [] \<Rightarrow> {||}
              | first # rest \<Rightarrow> ffilter (\<lambda>k. list_all (\<lambda>s. k |\<in>| s) rest) first)))"

section \<open>The invariant\<close>

definition tk_has :: "(rstr, rstr fset) fmap \<Rightarrow> rstr \<Rightarrow> rstr \<Rightarrow> bool" where
  "tk_has tk t k \<longleftrightarrow> (\<exists>s. fmlookup tk t = Some s \<and> k |\<in>| s)"

definition text_tokens :: "unicode \<Rightarrow> Record option \<Rightarrow> rstr list" where
  "text_tokens U r =
     (case r of None \<Rightarrow> [] | Some r \<Rightarrow>
        (case rec_text r of None \<Rightarrow> [] | Some t \<Rightarrow> distinct_tokens U t))"

definition delta_set :: "(rstr, Record) bmap \<Rightarrow> rstr set" where
  "delta_set m = {k. \<exists>r. fmlookup m k = Some r \<and> is_delta r}"

definition in_range :: "(rstr \<times> rstr) option \<Rightarrow> rstr \<Rightarrow> bool" where
  "in_range rg k = (case rg of None \<Rightarrow> False | Some (lo, hi) \<Rightarrow> lo \<le> k \<and> k \<le> hi)"

definition mt_keyed :: "MemTable \<Rightarrow> bool" where
  "mt_keyed m \<longleftrightarrow> (\<forall>k r. fmlookup (mt_records m) k = Some r \<longrightarrow> rec_key r = k)"

definition mt_tokens_ok :: "unicode \<Rightarrow> MemTable \<Rightarrow> bool" where
  "mt_tokens_ok U m \<longleftrightarrow>
     (\<forall>k. fmlookup (mt_key_tokens m) k =
            (let ts = text_tokens U (fmlookup (mt_records m) k) in if ts = [] then None else Some ts)) \<and>
     (\<forall>t k. tk_has (mt_token_keys m) t k \<longleftrightarrow> t \<in> set (text_tokens U (fmlookup (mt_records m) k))) \<and>
     (\<forall>t. fmlookup (mt_token_keys m) t \<noteq> Some {||})"

definition mt_deltas_ok :: "MemTable \<Rightarrow> bool" where
  "mt_deltas_ok m \<longleftrightarrow>
     mt_delta_keys m = card (delta_set (mt_records m)) \<and>
     (\<forall>k \<in> delta_set (mt_records m). in_range (mt_delta_key_range m) k)"

definition mt_inv :: "unicode \<Rightarrow> MemTable \<Rightarrow> bool" where
  "mt_inv U m \<longleftrightarrow> mt_keyed m \<and> mt_tokens_ok U m \<and> mt_deltas_ok m"

section \<open>Token maps\<close>

lemma tk_has_remove:
  "tk_has (remove_token key t' tk) t k \<longleftrightarrow> tk_has tk t k \<and> \<not> (k = key \<and> t = t')"
  by (auto simp: tk_has_def remove_token_def Let_def split: option.splits if_splits)

lemma tk_has_add: "tk_has (add_token key t' tk) t k \<longleftrightarrow> tk_has tk t k \<or> k = key \<and> t = t'"
  by (auto simp: tk_has_def add_token_def split: option.splits if_splits)

lemma tk_has_fold_remove:
  "tk_has (fold (remove_token key) ts tk) t k \<longleftrightarrow> tk_has tk t k \<and> \<not> (k = key \<and> t \<in> set ts)"
  by (induction ts arbitrary: tk) (auto simp: tk_has_remove)

lemma tk_has_fold_add:
  "tk_has (fold (add_token key) ts tk) t k \<longleftrightarrow> tk_has tk t k \<or> k = key \<and> t \<in> set ts"
  by (induction ts arbitrary: tk) (auto simp: tk_has_add)

lemma remove_token_nonempty:
  "(\<And>t. fmlookup tk t \<noteq> Some {||}) \<Longrightarrow> fmlookup (remove_token key t' tk) t \<noteq> Some {||}"
  by (auto simp: remove_token_def Let_def split: option.splits if_splits)

lemma fold_remove_nonempty:
  "(\<And>t. fmlookup tk t \<noteq> Some {||}) \<Longrightarrow> fmlookup (fold (remove_token key) ts tk) t \<noteq> Some {||}"
proof (induction ts arbitrary: tk)
  case (Cons a ts)
  then show ?case using remove_token_nonempty [of tk key a] by simp
qed simp

lemma add_token_nonempty:
  "(\<And>t. fmlookup tk t \<noteq> Some {||}) \<Longrightarrow> fmlookup (add_token key t' tk) t \<noteq> Some {||}"
  by (auto simp: add_token_def split: option.splits if_splits)

lemma fold_add_nonempty:
  "(\<And>t. fmlookup tk t \<noteq> Some {||}) \<Longrightarrow> fmlookup (fold (add_token key) ts tk) t \<noteq> Some {||}"
proof (induction ts arbitrary: tk)
  case (Cons a ts)
  then show ?case using add_token_nonempty [of tk key a] by simp
qed simp

lemma set_distinct_tokens [simp]: "set (distinct_tokens U t) = set (fts_tokens U t)"
  by (simp add: distinct_tokens_def)

lemma distinct_tokens_sorted: "sorted_wrt (<) (distinct_tokens U t)"
  by (simp add: distinct_tokens_def)

section \<open>Every insert keeps the invariant\<close>

lemma note_delta_sel [simp]:
  "mt_records (note_delta r m) = mt_records m"
  "mt_token_keys (note_delta r m) = mt_token_keys m"
  "mt_key_tokens (note_delta r m) = mt_key_tokens m"
  by (simp_all add: note_delta_def Let_def split: option.splits)

lemma drop_tokens_sel [simp]:
  "mt_records (drop_tokens k m) = mt_records m"
  "mt_delta_keys (drop_tokens k m) = mt_delta_keys m"
  "mt_delta_key_range (drop_tokens k m) = mt_delta_key_range m"
  by (simp_all add: drop_tokens_def split: option.splits)

lemma put_tokens_sel [simp]:
  "mt_records (put_tokens U r m) = mt_records m"
  "mt_delta_keys (put_tokens U r m) = mt_delta_keys m"
  "mt_delta_key_range (put_tokens U r m) = mt_delta_key_range m"
  by (simp_all add: put_tokens_def Let_def split: option.splits)

lemma mt_records_insert [simp]: "mt_records (mt_insert U m r) = fmupd (rec_key r) r (mt_records m)"
  by (simp add: mt_insert_def Let_def)

lemma mt_get_insert [simp]: "mt_get (mt_insert U m r) k = (if k = rec_key r then Some r else mt_get m k)"
  by (simp add: mt_get_def)

lemma mt_keyed_insert: "mt_keyed m \<Longrightarrow> mt_keyed (mt_insert U m r)"
  by (auto simp: mt_keyed_def)

lemma drop_tokens_facts:
  assumes "mt_tokens_ok U m"
  shows "fmlookup (mt_key_tokens (drop_tokens key m)) k =
           (if k = key then None else fmlookup (mt_key_tokens m) k)"
    and "tk_has (mt_token_keys (drop_tokens key m)) t k \<longleftrightarrow> k \<noteq> key \<and> tk_has (mt_token_keys m) t k"
    and "fmlookup (mt_token_keys (drop_tokens key m)) t \<noteq> Some {||}"
proof -
  show "fmlookup (mt_key_tokens (drop_tokens key m)) k =
           (if k = key then None else fmlookup (mt_key_tokens m) k)"
    by (auto simp: drop_tokens_def split: option.splits)
  show "tk_has (mt_token_keys (drop_tokens key m)) t k \<longleftrightarrow> k \<noteq> key \<and> tk_has (mt_token_keys m) t k"
    using assms
    by (auto simp: drop_tokens_def tk_has_fold_remove mt_tokens_ok_def Let_def
        split: option.splits if_splits)
  show "fmlookup (mt_token_keys (drop_tokens key m)) t \<noteq> Some {||}"
    using assms fold_remove_nonempty [of "mt_token_keys m"]
    by (simp add: drop_tokens_def mt_tokens_ok_def split: option.splits)
qed

lemma mt_tokens_ok_insert:
  assumes inv: "mt_tokens_ok U m"
  shows "mt_tokens_ok U (mt_insert U m r)"
proof -
  let ?n = "note_delta r m"
  let ?d = "drop_tokens (rec_key r) ?n"
  have n: "mt_tokens_ok U ?n" using inv by (simp add: mt_tokens_ok_def)
  note d = drop_tokens_facts [OF n, of "rec_key r"]
  have eq: "mt_token_keys (mt_insert U m r) =
      (case rec_text r of None \<Rightarrow> mt_token_keys ?d
       | Some t \<Rightarrow> fold (add_token (rec_key r)) (distinct_tokens U t) (mt_token_keys ?d))"
    "mt_key_tokens (mt_insert U m r) =
      (case rec_text r of None \<Rightarrow> mt_key_tokens ?d
       | Some t \<Rightarrow> if distinct_tokens U t = [] then mt_key_tokens ?d
                   else fmupd (rec_key r) (distinct_tokens U t) (mt_key_tokens ?d))"
    by (simp_all add: mt_insert_def put_tokens_def Let_def split: option.splits)
  have "fmlookup (mt_key_tokens (mt_insert U m r)) k =
          (let ts = text_tokens U (fmlookup (fmupd (rec_key r) r (mt_records m)) k)
           in if ts = [] then None else Some ts)" for k
    using inv unfolding eq
    by (auto simp: d text_tokens_def mt_tokens_ok_def Let_def split: option.splits)
  moreover have "tk_has (mt_token_keys (mt_insert U m r)) t k \<longleftrightarrow>
          t \<in> set (text_tokens U (fmlookup (fmupd (rec_key r) r (mt_records m)) k))" for t k
    using inv unfolding eq
    by (auto simp: d text_tokens_def mt_tokens_ok_def tk_has_fold_add split: option.splits)
  moreover have "fmlookup (mt_token_keys (mt_insert U m r)) t \<noteq> Some {||}" for t
    unfolding eq using d(3) fold_add_nonempty [of "mt_token_keys ?d"]
    by (simp split: option.splits)
  ultimately show ?thesis by (simp add: mt_tokens_ok_def)
qed

lemma finite_delta_set [simp]: "finite (delta_set m)"
proof (rule finite_subset)
  show "delta_set m \<subseteq> fset (fmdom m)" by (auto simp: delta_set_def intro: fmdomI)
qed simp

lemma delta_set_upd:
  "delta_set (fmupd k r m) = (if is_delta r then insert k (delta_set m) else delta_set m - {k})"
  by (auto simp: delta_set_def)

lemma mt_deltas_ok_insert:
  assumes "mt_deltas_ok m"
  shows "mt_deltas_ok (mt_insert U m r)"
proof -
  let ?S = "delta_set (mt_records m)" and ?k = "rec_key r"
  have card: "card (?S - {?k}) = (if ?k \<in> ?S then card ?S - 1 else card ?S)"
    by (simp add: card_Diff_singleton_if)
  have pos: "?k \<in> ?S \<Longrightarrow> 0 < card ?S" by (auto simp: card_gt_0_iff)
  have old: "?k \<in> ?S \<longleftrightarrow> (\<exists>o'. fmlookup (mt_records m) ?k = Some o' \<and> is_delta o')"
    by (simp add: delta_set_def)
  have "mt_delta_keys (mt_insert U m r) = card (delta_set (mt_records (mt_insert U m r)))"
    using assms card pos old
    by (auto simp: mt_deltas_ok_def mt_insert_def Let_def note_delta_def delta_set_upd insert_absorb
        split: option.splits)
  moreover have "in_range (mt_delta_key_range (mt_insert U m r)) k"
    if "k \<in> delta_set (mt_records (mt_insert U m r))" for k
  proof -
    have cover: "k \<in> ?S \<Longrightarrow> in_range (mt_delta_key_range m) k"
      using assms by (simp add: mt_deltas_ok_def)
    show ?thesis
      using that cover
      by (auto simp: mt_insert_def Let_def note_delta_def delta_set_upd in_range_def min_le_iff_disj
          le_max_iff_disj split: option.splits if_splits)
  qed
  ultimately show ?thesis by (simp add: mt_deltas_ok_def)
qed

lemma mt_inv_default [simp]: "mt_inv U mt_default"
  by (simp add: mt_inv_def mt_default_def mt_keyed_def mt_tokens_ok_def mt_deltas_ok_def text_tokens_def
      tk_has_def delta_set_def)

lemma mt_inv_insert: "mt_inv U m \<Longrightarrow> mt_inv U (mt_insert U m r)"
  by (simp add: mt_inv_def mt_keyed_insert mt_tokens_ok_insert mt_deltas_ok_insert)

lemma mt_inv_insert_delta: "mt_inv U m \<Longrightarrow> mt_inv U (insert_delta U m d)"
  by (simp add: insert_delta_def mt_inv_insert)

lemma mt_get_insert_delta:
  assumes "mt_keyed m"
  shows "mt_get (insert_delta U m d) k =
           (if k = rec_key d then Some (merge_delta (mt_get m k) d) else mt_get m k)"
proof -
  have "rec_key (merge_delta (mt_get m (rec_key d)) d) = rec_key d"
    using assms by (intro merge_delta_key) (simp add: mt_get_def mt_keyed_def)
  then show ?thesis by (simp add: insert_delta_def mt_get_def)
qed

lemma mt_has_deltas_iff:
  assumes "mt_inv U m"
  shows "mt_has_deltas m \<longleftrightarrow> (\<exists>k r. mt_get m k = Some r \<and> is_delta r)"
proof -
  have "mt_has_deltas m \<longleftrightarrow> delta_set (mt_records m) \<noteq> {}"
    using assms by (simp add: mt_has_deltas_def mt_inv_def mt_deltas_ok_def card_gt_0_iff)
  then show ?thesis by (auto simp: delta_set_def mt_get_def)
qed

section \<open>The interface of a token index\<close>

text \<open>
  \<open>doc\<close> is the text stored under an identifier, \<open>posting\<close> the identifiers an index lists for a
  token. The provider promises that a listed posting is exact and that a token without one
  occurs nowhere.
\<close>

locale postings =
  fixes U :: unicode
    and inv :: "'s \<Rightarrow> bool"
    and doc :: "'s \<Rightarrow> 'i \<Rightarrow> rstr option"
    and posting :: "'s \<Rightarrow> rstr \<Rightarrow> 'i set option"
  assumes posting_exact:
      "inv s \<Longrightarrow> posting s t = Some P \<Longrightarrow>
         i \<in> P \<longleftrightarrow> (\<exists>d. doc s i = Some d \<and> t \<in> set (fts_tokens U d))"
    and posting_absent:
      "inv s \<Longrightarrow> posting s t = None \<Longrightarrow> doc s i = Some d \<Longrightarrow> t \<notin> set (fts_tokens U d)"
begin

lemma all_postings:
  assumes "inv s" and "want \<noteq> []"
  shows "(\<forall>t \<in> set want. \<exists>P. posting s t = Some P \<and> i \<in> P) \<longleftrightarrow>
         text_contains_all U (doc s i) want"
proof
  assume all: "\<forall>t \<in> set want. \<exists>P. posting s t = Some P \<and> i \<in> P"
  obtain t where "t \<in> set want" using assms(2) by (cases want) auto
  with all obtain d where d: "doc s i = Some d" using posting_exact [OF assms(1)] by blast
  have "t \<in> set (fts_tokens U d)" if "t \<in> set want" for t
    using all that d posting_exact [OF assms(1), of t] by fastforce
  with d assms(2) show "text_contains_all U (doc s i) want"
    by (auto simp: text_contains_all_def list_all_iff)
next
  assume "text_contains_all U (doc s i) want"
  then obtain d where d: "doc s i = Some d" and all: "\<forall>t \<in> set want. t \<in> set (fts_tokens U d)"
    by (auto simp: text_contains_all_def list_all_iff split: option.splits if_splits)
  show "\<forall>t \<in> set want. \<exists>P. posting s t = Some P \<and> i \<in> P"
  proof
    fix t assume t: "t \<in> set want"
    with all d posting_absent [OF assms(1), of t i d] obtain P where "posting s t = Some P" by auto
    with posting_exact [OF assms(1) this, of i] d all t show "\<exists>P. posting s t = Some P \<and> i \<in> P"
      by auto
  qed
qed

lemma missing_posting:
  assumes "inv s" and "t \<in> set want" and "posting s t = None"
  shows "\<not> text_contains_all U (doc s i) want"
  using assms posting_absent [OF assms(1,3), of i]
  by (auto simp: text_contains_all_def list_all_iff split: option.splits)

end

section \<open>The memtable is a token index\<close>

definition mt_doc :: "MemTable \<Rightarrow> rstr \<Rightarrow> rstr option" where
  "mt_doc m k = (case mt_get m k of None \<Rightarrow> None | Some r \<Rightarrow> rec_text r)"

definition mt_posting :: "MemTable \<Rightarrow> rstr \<Rightarrow> rstr set option" where
  "mt_posting m t = map_option fset (fmlookup (mt_token_keys m) t)"

lemma mt_posting_iff:
  assumes "mt_inv U m"
  shows "tk_has (mt_token_keys m) t k \<longleftrightarrow> (\<exists>d. mt_doc m k = Some d \<and> t \<in> set (fts_tokens U d))"
proof -
  have "tk_has (mt_token_keys m) t k \<longleftrightarrow> t \<in> set (text_tokens U (mt_get m k))"
    using assms by (simp add: mt_inv_def mt_tokens_ok_def mt_get_def)
  also have "\<dots> \<longleftrightarrow> (\<exists>d. mt_doc m k = Some d \<and> t \<in> set (fts_tokens U d))"
    by (cases "mt_get m k"; cases "rec_text (the (mt_get m k))") (auto simp: mt_doc_def text_tokens_def)
  finally show ?thesis .
qed

interpretation mtp: postings U "mt_inv U" mt_doc mt_posting for U
proof
  fix s t P i
  assume inv: "mt_inv U s" and P: "mt_posting s t = Some P"
  show "i \<in> P \<longleftrightarrow> (\<exists>d. mt_doc s i = Some d \<and> t \<in> set (fts_tokens U d))"
    unfolding mt_posting_iff [OF inv, symmetric] using P by (auto simp: mt_posting_def tk_has_def)
next
  fix s t i d
  assume inv: "mt_inv U s" and "mt_posting s t = None" "mt_doc s i = Some d"
  then show "t \<notin> set (fts_tokens U d)"
    using mt_posting_iff [OF inv, of t i] by (auto simp: mt_posting_def tk_has_def)
qed

lemma collect_sets_None: "collect_sets tk want = None \<longleftrightarrow> (\<exists>t \<in> set want. fmlookup tk t = None)"
  by (induction want) (auto split: option.splits)

lemma collect_sets_Some:
  "collect_sets tk want = Some sets \<Longrightarrow>
   (\<forall>t \<in> set want. \<exists>s. fmlookup tk t = Some s \<and> k |\<in>| s) \<longleftrightarrow> (\<forall>s \<in> set sets. k |\<in>| s)"
  by (induction want arbitrary: sets) (auto split: option.splits)

lemma collect_sets_length: "collect_sets tk want = Some sets \<Longrightarrow> length sets = length want"
  by (induction want arbitrary: sets) (auto split: option.splits)

lemma text_candidates_oracle:
  assumes inv: "mt_inv U m"
  shows "k |\<in>| text_candidates m want \<longleftrightarrow> text_contains_all U (mt_doc m k) want"
proof (cases "want = [] \<or> collect_sets (mt_token_keys m) want = None")
  case True
  then have "k |\<notin>| text_candidates m want" by (auto simp: text_candidates_def)
  moreover have "\<not> text_contains_all U (mt_doc m k) want"
  proof (cases "want = []")
    case False
    with True obtain t where "t \<in> set want" "mt_posting m t = None"
      by (auto simp: collect_sets_None mt_posting_def)
    then show ?thesis by (rule mtp.missing_posting [OF inv])
  qed (simp add: text_contains_all_def)
  ultimately show ?thesis by simp
next
  case False
  then obtain sets where sets: "collect_sets (mt_token_keys m) want = Some sets" and w: "want \<noteq> []"
    by blast
  obtain f r where fr: "sort_key fcard sets = f # r"
    using collect_sets_length [OF sets] w by (cases "sort_key fcard sets") (auto dest: arg_cong [of _ _ length])
  have "k |\<in>| text_candidates m want \<longleftrightarrow> (\<forall>s \<in> set (f # r). k |\<in>| s)"
    using sets w fr by (auto simp: text_candidates_def list_all_iff)
  also have "\<dots> \<longleftrightarrow> (\<forall>s \<in> set sets. k |\<in>| s)" by (metis fr set_sort)
  also have "\<dots> \<longleftrightarrow> text_contains_all U (mt_doc m k) want"
    using collect_sets_Some [OF sets, of k] mtp.all_postings [OF inv w, of k]
    by (auto simp: mt_posting_def)
  finally show ?thesis .
qed

section \<open>Runs of writes\<close>

datatype mt_write = MtPut Record | MtIncr Record

fun mt_apply :: "unicode \<Rightarrow> MemTable \<Rightarrow> mt_write \<Rightarrow> MemTable" where
  "mt_apply U m (MtPut r) = mt_insert U m r"
| "mt_apply U m (MtIncr d) = insert_delta U m d"

text \<open>The specification: what a sequence of writes makes of one key.\<close>

fun key_apply :: "rstr \<Rightarrow> Record option \<Rightarrow> mt_write \<Rightarrow> Record option" where
  "key_apply k v (MtPut r) = (if rec_key r = k then Some r else v)"
| "key_apply k v (MtIncr d) = (if rec_key d = k then Some (merge_delta v d) else v)"

lemma mt_inv_apply: "mt_inv U m \<Longrightarrow> mt_inv U (mt_apply U m w)"
  by (cases w) (simp_all add: mt_inv_insert mt_inv_insert_delta)

lemma mt_inv_run: "mt_inv U m \<Longrightarrow> mt_inv U (foldl (mt_apply U) m ws)"
  by (induction ws arbitrary: m) (simp_all add: mt_inv_apply)

lemma mt_get_apply: "mt_inv U m \<Longrightarrow> mt_get (mt_apply U m w) k = key_apply k (mt_get m k) w"
  by (cases w) (auto simp: mt_get_insert_delta mt_inv_def)

lemma mt_get_run: "mt_inv U m \<Longrightarrow> mt_get (foldl (mt_apply U) m ws) k = foldl (key_apply k) (mt_get m k) ws"
  by (induction ws arbitrary: m) (simp_all add: mt_get_apply mt_inv_apply)

lemma mt_get_default: "mt_get mt_default k = None"
  by (simp add: mt_get_def mt_default_def)

section \<open>Properties\<close>

text \<open>
  C15. Every sequence of puts and increments keeps the memtable's invariant: records under their own
  keys, token map and key-token map exactly those of the resident texts (no stale posting, no
  empty posting set), the delta counter the number of resident deltas, and their keys inside the
  tracked range.
\<close>

theorem memtable_invariant: "mt_inv U (foldl (mt_apply U) mt_default ws)"
  by (simp add: mt_inv_run)

text \<open>
  C14. The memtable refines the per-key specification: a key reads as the fold of its own writes --
  the last put, with the increments since then merged onto it -- whatever the interleaving with
  other keys.
\<close>

theorem memtable_refines_writes:
  "mt_get (foldl (mt_apply U) mt_default ws) k = foldl (key_apply k) None ws"
  using mt_get_run [OF mt_inv_default, of U ws k] by (simp add: mt_get_default)

text \<open>
  C16. The token map answers an AND-of-tokens query exactly: its candidates are the keys whose
  resident record satisfies the naive text oracle.
\<close>

theorem memtable_text_candidates_exact:
  "k |\<in>| text_candidates (foldl (mt_apply U) mt_default ws) want \<longleftrightarrow>
     (\<exists>r. mt_get (foldl (mt_apply U) mt_default ws) k = Some r \<and> text_contains_all U (rec_text r) want)"
  using text_candidates_oracle [of U "foldl (mt_apply U) mt_default ws" k want]
  by (auto simp: mt_inv_run mt_doc_def text_contains_all_def split: option.splits)

end
