(* ===== verification/Columns.thy ===== *)
theory Columns
  imports Zone_Map Utf8 Wal Memtable
begin

text \<open>
  The in-memory side of a segment (\<^verbatim>\<open>src/src/segment.rs\<close>): typed columns, the block index,
  the token postings index, their construction from records, and the row operations over them.
  A segment file is its bytes, an argument of the operations that read it.
\<close>

section \<open>Third-party code\<close>

record seg_ext = wal_ext +
  flate_deflate :: "byte list \<Rightarrow> byte list"
  flate_inflate :: "byte list \<Rightarrow> byte list option"

definition seg_corrupt :: "string \<Rightarrow> girder_error" where
  "seg_corrupt detail = Corrupt ''segment'' (lit detail)"

section \<open>Cursor and varints\<close>

text \<open>
  \<^verbatim>\<open>Cur\<close> only moves forward, so it is the list of the bytes it has not read.
\<close>

definition cur_take :: "nat \<Rightarrow> byte list \<Rightarrow> (byte list \<times> byte list) result" where
  "cur_take n c =
     (if length c < n then Inl (seg_corrupt ''section truncated'') else Inr (take n c, drop n c))"

definition cur_le :: "nat \<Rightarrow> byte list \<Rightarrow> (nat \<times> byte list) result" where
  "cur_le n c = and_then (cur_take n c) (\<lambda>(b, c'). Inr (of_le b, c'))"

definition cur_u8 :: "byte list \<Rightarrow> (nat \<times> byte list) result" where
  "cur_u8 = cur_le 1"

definition cur_u16 :: "byte list \<Rightarrow> (nat \<times> byte list) result" where
  "cur_u16 = cur_le 2"

definition cur_u32 :: "byte list \<Rightarrow> (nat \<times> byte list) result" where
  "cur_u32 = cur_le 4"

definition cur_u64 :: "byte list \<Rightarrow> (nat \<times> byte list) result" where
  "cur_u64 = cur_le 8"

definition cur_i64 :: "byte list \<Rightarrow> (int \<times> byte list) result" where
  "cur_i64 c = and_then (cur_take 8 c) (\<lambda>(b, c'). Inr (of_i64_le b, c'))"

definition cur_f64 :: "byte list \<Rightarrow> (f64 \<times> byte list) result" where
  "cur_f64 c = and_then (cur_take 8 c) (\<lambda>(b, c'). Inr (word_of_nat (of_le b), c'))"

fun varint_push :: "nat \<Rightarrow> byte list" where
  "varint_push v =
     (if v div 128 = 0 then [word_of_nat (v mod 128)]
      else (word_of_nat (v mod 128) OR 0x80) # varint_push (v div 128))"

declare varint_push.simps [simp del]

fun varint_loop :: "nat \<Rightarrow> nat \<Rightarrow> byte list \<Rightarrow> (nat \<times> byte list) result" where
  "varint_loop v shift [] = Inl (seg_corrupt ''section truncated'')"
| "varint_loop v shift (b # bs) =
     (let v' = v OR as_u32 (push_bit shift (unat (b AND 0x7f)))
      in if b AND 0x80 = 0 then Inr (v', bs)
         else if 32 \<le> shift + 7 then Inl (seg_corrupt ''varint too long'')
         else varint_loop v' (shift + 7) bs)"

definition varint_read :: "byte list \<Rightarrow> (nat \<times> byte list) result" where
  "varint_read = varint_loop 0 0"

section \<open>The token postings index\<close>

text \<open>
  A lazy index keeps the encoded pls and decodes one when it is asked for; the source's
  once-cells memoise that decoding.
\<close>

datatype Postings =
    Eager "nat list list"
  | Lazy "byte list" "(nat \<times> nat \<times> nat) list"

record TokenIndex =
  tki_tokens :: "rstr list"
  tki_postings :: Postings

fun posting_loop :: "nat \<Rightarrow> bool \<Rightarrow> nat \<Rightarrow> byte list \<Rightarrow> nat list result" where
  "posting_loop 0 first prev c = Inr []"
| "posting_loop (Suc n) first prev c =
     and_then (varint_read c) (\<lambda>(delta, c').
       let row = (if first then delta else as_u32 (prev + delta))
       in and_then (posting_loop n False row c') (\<lambda>rows. Inr (row # rows)))"

text \<open>The \<^verbatim>\<open>expect\<close> of the source cannot fail on a span that was validated.\<close>

definition decode_posting_list :: "byte list \<Rightarrow> nat \<Rightarrow> nat list" where
  "decode_posting_list span nrows =
     (case posting_loop nrows True 0 span of Inl _ \<Rightarrow> [] | Inr rows \<Rightarrow> rows)"

definition postings_at :: "TokenIndex \<Rightarrow> nat \<Rightarrow> nat list" where
  "postings_at idx i =
     (case tki_postings idx of
        Eager pls \<Rightarrow> pls ! i
      | Lazy blob spans \<Rightarrow>
          (case spans ! i of (off, len, nrows) \<Rightarrow>
             decode_posting_list (take len (drop off blob)) nrows))"

definition has_row :: "nat list \<Rightarrow> nat \<Rightarrow> bool" where
  "has_row l row \<longleftrightarrow> bsearch (\<lambda>i. l ! i) row 0 (length l) \<noteq> None"

definition postings_of :: "TokenIndex \<Rightarrow> rstr \<Rightarrow> nat list option" where
  "postings_of idx token =
     map_option (postings_at idx)
       (bsearch (\<lambda>i. tki_tokens idx ! i) token 0 (length (tki_tokens idx)))"

datatype PrefixUnion = OverBudget | EmptyUnion | Rows "nat list"

definition LIKE_PREFIX_BUDGET :: nat where
  "LIKE_PREFIX_BUDGET = 64"

function prefix_end :: "rstr list \<Rightarrow> rstr \<Rightarrow> nat \<Rightarrow> nat \<Rightarrow> nat \<Rightarrow> nat option" where
  "prefix_end tokens p budget start e =
     (if e < length tokens \<and> prefix p (tokens ! e) then
        (if budget < e + 1 - start then None else prefix_end tokens p budget start (e + 1))
      else Some e)"
  by pat_completeness auto
termination
  by (relation "measure (\<lambda>(tokens, p, budget, start, e). length tokens - e)") auto

declare prefix_end.simps [simp del]

definition postings_union_of_prefix :: "TokenIndex \<Rightarrow> rstr \<Rightarrow> nat \<Rightarrow> PrefixUnion" where
  "postings_union_of_prefix idx p budget =
     (let start = length (takeWhile (\<lambda>t. t < p) (tki_tokens idx)) in
      case prefix_end (tki_tokens idx) p budget start start of
        None \<Rightarrow> OverBudget
      | Some e \<Rightarrow>
          if e = start then EmptyUnion
          else Rows (remdups_adj (sort (concat (map (postings_at idx) [start..<e])))))"

fun collect_lists :: "TokenIndex \<Rightarrow> rstr list \<Rightarrow> nat list list option" where
  "collect_lists idx [] = Some []"
| "collect_lists idx (t # ts) =
     (case postings_of idx t of
        None \<Rightarrow> None
      | Some l \<Rightarrow> (case collect_lists idx ts of None \<Rightarrow> None | Some ls \<Rightarrow> Some (l # ls)))"

definition rows_matching_all :: "TokenIndex \<Rightarrow> rstr list \<Rightarrow> nat list" where
  "rows_matching_all idx want =
     (if want = [] then []
      else
        (case collect_lists idx want of
           None \<Rightarrow> []
         | Some pls \<Rightarrow>
             (case sort_key length pls of
                [] \<Rightarrow> []
              | first # rest \<Rightarrow> filter (\<lambda>row. list_all (\<lambda>l. has_row l row) rest) first)))"

text \<open>Build: one pass over the rows, appending each row to its tokens' pls.\<close>

definition push_row :: "nat \<Rightarrow> rstr \<Rightarrow> (rstr, nat list) bmap \<Rightarrow> (rstr, nat list) bmap" where
  "push_row i t m =
     fmupd t ((case fmlookup m t of None \<Rightarrow> [] | Some l \<Rightarrow> l) @ [as_u32 i]) m"

fun index_rows :: "unicode \<Rightarrow> nat \<Rightarrow> Record list \<Rightarrow> (rstr, nat list) bmap \<Rightarrow> (rstr, nat list) bmap" where
  "index_rows U i [] m = m"
| "index_rows U i (r # rs) m =
     index_rows U (i + 1) rs
       (case rec_text r of None \<Rightarrow> m | Some t \<Rightarrow> fold (push_row i) (distinct_tokens U t) m)"

definition token_index_build :: "unicode \<Rightarrow> Record list \<Rightarrow> TokenIndex" where
  "token_index_build U records =
     (let m = index_rows U 0 records fmempty
      in \<lparr> tki_tokens = bt_keys m, tki_postings = Eager (bt_values m) \<rparr>)"

definition swap_remove :: "'a list \<Rightarrow> nat \<Rightarrow> 'a list" where
  "swap_remove xs i = butlast (xs[i := last xs])"

text \<open>\<^verbatim>\<open>min_by_key\<close> takes the first of the least.\<close>

fun min_idx_by_len :: "nat list list \<Rightarrow> nat" where
  "min_idx_by_len [] = 0"
| "min_idx_by_len [x] = 0"
| "min_idx_by_len (x # xs) =
     (let j = min_idx_by_len xs in if length x \<le> length (xs ! j) then 0 else Suc j)"

definition intersect_ascending :: "nat list list \<Rightarrow> nat list" where
  "intersect_ascending pls =
     (if pls = [] then []
      else
        (let min_idx = min_idx_by_len pls;
             first = pls ! min_idx;
             rest = swap_remove pls min_idx
         in filter (\<lambda>row. list_all (\<lambda>l. has_row l row) rest) first))"

section \<open>Columns\<close>

record BlockMeta =
  bm_start :: nat
  bm_end :: nat
  bm_min_ts :: int
  bm_max_ts :: int
  bm_first_key :: rstr
  bm_last_key :: rstr
  bm_numerics :: "(rstr, f64 \<times> f64) bmap"
  bm_label_bitsets :: "(rstr, 64 word) bmap"

datatype LabelColumn =
    LabelDict "rstr list" "(rstr, nat) fmap" "nat list"
  | LabelPlain "rstr option list"

record NumericColumn =
  nc_present :: "bool list"
  nc_values :: "f64 list"

record KeysSection =
  ks_blob :: "byte list"
  ks_offsets :: "nat list"

record PayloadIndex =
  pi_abs_base :: nat
  pi_rel :: "nat list"

record TextIndex =
  ti_abs_base :: nat
  ti_present :: "bool list"
  ti_rel :: "nat list"
  ti_compressed :: "bool list option"

datatype Texts = TextsFile TextIndex | TextsMem "rstr option list"

datatype Payloads = PayloadsFile PayloadIndex | PayloadsMem "byte list list"

record SegmentColumns =
  sc_count :: nat
  sc_keys :: KeysSection
  sc_timestamps :: "int list"
  sc_labels :: "(rstr, LabelColumn) bmap"
  sc_numerics :: "(rstr, NumericColumn) bmap"
  sc_blocks :: "BlockMeta list"
  sc_payloads :: Payloads
  sc_texts :: "Texts option"
  sc_tokens :: "TokenIndex option"

text \<open>A \<^verbatim>\<open>&str\<close> slice; one that is not on character boundaries panics in the source.\<close>

definition str_slice :: "byte list \<Rightarrow> nat \<Rightarrow> nat \<Rightarrow> rstr" where
  "str_slice blob a b =
     (case from_utf8 (take (b - a) (drop a blob)) of None \<Rightarrow> [] | Some s \<Rightarrow> s)"

definition ks_key_at :: "KeysSection \<Rightarrow> nat \<Rightarrow> rstr" where
  "ks_key_at ks i = str_slice (ks_blob ks) (ks_offsets ks ! i) (ks_offsets ks ! (i + 1))"

definition ks_count :: "KeysSection \<Rightarrow> nat" where
  "ks_count ks = length (ks_offsets ks) - 1"

definition ks_find :: "KeysSection \<Rightarrow> rstr \<Rightarrow> nat option" where
  "ks_find ks key = bsearch (ks_key_at ks) key 0 (ks_count ks)"

definition key_at :: "SegmentColumns \<Rightarrow> nat \<Rightarrow> rstr" where
  "key_at c i = ks_key_at (sc_keys c) i"

definition timestamp_at :: "SegmentColumns \<Rightarrow> nat \<Rightarrow> int" where
  "timestamp_at c i = sc_timestamps c ! i"

definition numeric_at :: "SegmentColumns \<Rightarrow> rstr \<Rightarrow> nat \<Rightarrow> f64 option" where
  "numeric_at c name i =
     (case fmlookup (sc_numerics c) name of
        None \<Rightarrow> None
      | Some nc \<Rightarrow> if nc_present nc ! i then Some (nc_values nc ! i) else None)"

definition col_value :: "LabelColumn \<Rightarrow> nat \<Rightarrow> rstr option" where
  "col_value col i =
     (case col of
        LabelDict dict _ codes \<Rightarrow>
          if codes ! i = 0 then None else Some (dict ! (codes ! i - 1))
      | LabelPlain values \<Rightarrow> values ! i)"

definition label_value_at :: "SegmentColumns \<Rightarrow> rstr \<Rightarrow> nat \<Rightarrow> rstr option" where
  "label_value_at c name i =
     (case fmlookup (sc_labels c) name of None \<Rightarrow> None | Some col \<Rightarrow> col_value col i)"

definition is_tombstone_at :: "SegmentColumns \<Rightarrow> nat \<Rightarrow> bool" where
  "is_tombstone_at c i \<longleftrightarrow> label_value_at c TOMBSTONE_LABEL i = Some (lit ''1'')"

definition find_key :: "SegmentColumns \<Rightarrow> rstr \<Rightarrow> nat option" where
  "find_key c key = bsearch (key_at c) key 0 (sc_count c)"

definition payload_needs_file :: "SegmentColumns \<Rightarrow> bool" where
  "payload_needs_file c = (case sc_payloads c of PayloadsFile _ \<Rightarrow> True | PayloadsMem _ \<Rightarrow> False)"

section \<open>Reading rows\<close>

definition read_at :: "byte list \<Rightarrow> nat \<Rightarrow> nat \<Rightarrow> byte list result" where
  "read_at file off len =
     (if length file < off + len then Inl (Io OtherIo) else Inr (take len (drop off file)))"

definition row_compressed :: "TextIndex \<Rightarrow> nat \<Rightarrow> bool" where
  "row_compressed ti i = (case ti_compressed ti of None \<Rightarrow> False | Some c \<Rightarrow> c ! i)"

definition decode_row_text ::
  "('x) seg_ext_scheme \<Rightarrow> TextIndex \<Rightarrow> nat \<Rightarrow> byte list \<Rightarrow> rstr result" where
  "decode_row_text X ti i stored =
     and_then
       (if row_compressed ti i
        then ok_or (flate_inflate X stored) (seg_corrupt ''text row inflate failed'')
        else Inr stored)
       (\<lambda>bytes. ok_or (from_utf8 bytes) (seg_corrupt ''text not utf8''))"

definition text_at ::
  "('x) seg_ext_scheme \<Rightarrow> byte list option \<Rightarrow> SegmentColumns \<Rightarrow> nat \<Rightarrow> rstr option result" where
  "text_at X file c i =
     (case sc_texts c of
        None \<Rightarrow> Inr None
      | Some (TextsMem v) \<Rightarrow> Inr (v ! i)
      | Some (TextsFile ti) \<Rightarrow>
          if \<not> ti_present ti ! i then Inr None
          else
            (let raw_start = ti_rel ti ! i;
                 raw_len = ti_rel ti ! (i + 1) - raw_start
             in if raw_len = 0 then Inr (Some [])
                else
                  and_then (ok_or file (seg_corrupt ''text file handle missing'')) (\<lambda>f.
                  and_then (read_at f (ti_abs_base ti + raw_start) raw_len) (\<lambda>stored.
                  and_then (decode_row_text X ti i stored) (\<lambda>t. Inr (Some t))))))"

definition put_some :: "(rstr \<times> 'a option) \<Rightarrow> (rstr, 'a) bmap \<Rightarrow> (rstr, 'a) bmap" where
  "put_some e m = (case e of (name, v) \<Rightarrow> (case v of None \<Rightarrow> m | Some x \<Rightarrow> fmupd name x m))"

definition build_record :: "SegmentColumns \<Rightarrow> nat \<Rightarrow> byte list \<Rightarrow> rstr option \<Rightarrow> Record" where
  "build_record c i payload text =
     \<lparr> rec_key = key_at c i, rec_timestamp = sc_timestamps c ! i,
       rec_labels =
         fold (\<lambda>(name, col). put_some (name, col_value col i)) (bt_entries (sc_labels c)) fmempty,
       rec_numerics =
         fold (\<lambda>(name, nc). put_some (name, if nc_present nc ! i then Some (nc_values nc ! i) else None))
           (bt_entries (sc_numerics c)) fmempty,
       rec_payload = payload, rec_text = text \<rparr>"

definition payload_at :: "byte list option \<Rightarrow> SegmentColumns \<Rightarrow> nat \<Rightarrow> byte list result" where
  "payload_at file c i =
     (case sc_payloads c of
        PayloadsMem v \<Rightarrow> Inr (v ! i)
      | PayloadsFile pi \<Rightarrow>
          and_then (ok_or file (seg_corrupt ''payload file handle missing'')) (\<lambda>f.
            read_at f (pi_abs_base pi + pi_rel pi ! i) (pi_rel pi ! (i + 1) - pi_rel pi ! i)))"

definition materialize ::
  "('x) seg_ext_scheme \<Rightarrow> byte list option \<Rightarrow> SegmentColumns \<Rightarrow> nat \<Rightarrow> bool \<Rightarrow> Record result" where
  "materialize X file c i want_text =
     and_then (payload_at file c i) (\<lambda>payload.
     and_then (if want_text then text_at X file c i else Inr None) (\<lambda>text.
       Inr (build_record c i payload text)))"

section \<open>Label plans and the block index\<close>

definition DICT_MAX :: nat where
  "DICT_MAX = 65535"

definition BLOCK_ROWS :: nat where
  "BLOCK_ROWS = 4096"

definition BLOCK_BITSET_CODES :: nat where
  "BLOCK_BITSET_CODES = 64"

datatype LabelMode = ModeDict "rstr list" "nat list" | ModePlain

record LabelPlan =
  lp_name :: rstr
  lp_mode :: LabelMode

definition label_names :: "Record list \<Rightarrow> rstr list" where
  "label_names records = btree_set (concat (map (\<lambda>r. bt_keys (rec_labels r)) records))"

definition numeric_names :: "Record list \<Rightarrow> rstr list" where
  "numeric_names records = btree_set (concat (map (\<lambda>r. bt_keys (rec_numerics r)) records))"

text \<open>\<^verbatim>\<open>dict.iter().enumerate().map(|(i, s)| (s, (i + 1) as u16)).collect()\<close>\<close>

definition dict_codes :: "rstr list \<Rightarrow> (rstr, nat) fmap" where
  "dict_codes dict = fold (\<lambda>(s, c). fmupd s c) (zip dict (map (\<lambda>i. as_u16 (i + 1)) [0..<length dict])) fmempty"

definition label_values :: "Record list \<Rightarrow> rstr \<Rightarrow> rstr list" where
  "label_values records name =
     btree_set (List.map_filter (\<lambda>r. fmlookup (rec_labels r) name) records)"

definition label_plan :: "Record list \<Rightarrow> rstr \<Rightarrow> LabelPlan" where
  "label_plan records name =
     (let dict = label_values records name in
      if length dict \<le> DICT_MAX then
        \<lparr> lp_name = name,
          lp_mode =
            ModeDict dict
              (map (\<lambda>r. case fmlookup (rec_labels r) name of
                          None \<Rightarrow> 0
                        | Some v \<Rightarrow> (case fmlookup (dict_codes dict) v of None \<Rightarrow> 0 | Some c \<Rightarrow> c))
                 records) \<rparr>
      else \<lparr> lp_name = name, lp_mode = ModePlain \<rparr>)"

definition plan_labels :: "Record list \<Rightarrow> LabelPlan list" where
  "plan_labels records = map (label_plan records) (label_names records)"

definition block_numeric :: "rstr \<times> f64 \<Rightarrow> (rstr, f64 \<times> f64) bmap \<Rightarrow> (rstr, f64 \<times> f64) bmap" where
  "block_numeric e m =
     (case e of (k, v) \<Rightarrow>
        (case (case fmlookup m k of None \<Rightarrow> (f64_INFINITY, f64_NEG_INFINITY) | Some x \<Rightarrow> x) of
           (mn, mx) \<Rightarrow> fmupd k (f64_min mn v, f64_max mx v) m))"

definition set_code_bit :: "nat \<Rightarrow> 64 word \<Rightarrow> 64 word" where
  "set_code_bit c bits =
     (if 1 \<le> c \<and> c \<le> BLOCK_BITSET_CODES then bits OR push_bit (c - 1) 1 else bits)"

definition block_bitset :: "nat \<Rightarrow> nat \<Rightarrow> LabelPlan \<Rightarrow> (rstr, 64 word) bmap \<Rightarrow> (rstr, 64 word) bmap" where
  "block_bitset s e plan m =
     (case lp_mode plan of
        ModePlain \<Rightarrow> m
      | ModeDict dict codes \<Rightarrow>
          if length dict \<le> BLOCK_BITSET_CODES
          then fmupd (lp_name plan) (fold set_code_bit (take (e - s) (drop s codes)) 0) m
          else m)"

definition build_block :: "Record list \<Rightarrow> LabelPlan list \<Rightarrow> nat \<Rightarrow> nat \<Rightarrow> BlockMeta" where
  "build_block records plans s e =
     (let rows = take (e - s) (drop s records) in
      \<lparr> bm_start = as_u32 s, bm_end = as_u32 e,
        bm_min_ts = fold (\<lambda>r m. min m (rec_timestamp r)) rows i64_MAX,
        bm_max_ts = fold (\<lambda>r m. max m (rec_timestamp r)) rows i64_MIN,
        bm_first_key = rec_key (records ! s), bm_last_key = rec_key (records ! (e - 1)),
        bm_numerics = fold (\<lambda>r. fold block_numeric (bt_entries (rec_numerics r))) rows fmempty,
        bm_label_bitsets = fold (block_bitset s e) plans fmempty \<rparr>)"

function build_blocks_from :: "Record list \<Rightarrow> LabelPlan list \<Rightarrow> nat \<Rightarrow> BlockMeta list" where
  "build_blocks_from records plans s =
     (if s < length records then
        (let e = min (s + BLOCK_ROWS) (length records)
         in build_block records plans s e # build_blocks_from records plans e)
      else [])"
  by pat_completeness auto
termination
  by (relation "measure (\<lambda>(records, plans, s). length records - s)") (auto simp: BLOCK_ROWS_def)

declare build_blocks_from.simps [simp del]

definition build_blocks :: "Record list \<Rightarrow> LabelPlan list \<Rightarrow> BlockMeta list" where
  "build_blocks records plans = build_blocks_from records plans 0"

section \<open>Columns from records\<close>

definition label_column :: "Record list \<Rightarrow> LabelPlan \<Rightarrow> LabelColumn" where
  "label_column records plan =
     (case lp_mode plan of
        ModeDict dict codes \<Rightarrow> LabelDict dict (dict_codes dict) codes
      | ModePlain \<Rightarrow> LabelPlain (map (\<lambda>r. fmlookup (rec_labels r) (lp_name plan)) records))"

definition numeric_column :: "Record list \<Rightarrow> rstr \<Rightarrow> NumericColumn" where
  "numeric_column records name =
     \<lparr> nc_present = map (\<lambda>r. fmlookup (rec_numerics r) name \<noteq> None) records,
       nc_values =
         map (\<lambda>r. case fmlookup (rec_numerics r) name of None \<Rightarrow> f64_NAN | Some v \<Rightarrow> v) records \<rparr>"

definition from_records :: "unicode \<Rightarrow> Record list \<Rightarrow> SegmentColumns" where
  "from_records U records =
     (let plans = plan_labels records;
          any_text = list_ex (\<lambda>r. rec_text r \<noteq> None) records;
          keys = map (\<lambda>r. as_bytes (rec_key r)) records
      in \<lparr> sc_count = length records,
           sc_keys = \<lparr> ks_blob = concat keys, ks_offsets = run_offsets 0 (map length keys) \<rparr>,
           sc_timestamps = map rec_timestamp records,
           sc_labels = fold (\<lambda>plan. fmupd (lp_name plan) (label_column records plan)) plans fmempty,
           sc_numerics = fold (\<lambda>name. fmupd name (numeric_column records name)) (numeric_names records) fmempty,
           sc_blocks = build_blocks records plans,
           sc_payloads = PayloadsMem (map rec_payload records),
           sc_texts = (if any_text then Some (TextsMem (map rec_text records)) else None),
           sc_tokens = (if any_text then Some (token_index_build U records) else None) \<rparr>)"

section \<open>Selecting rows\<close>

datatype LReq = LCode "nat list" nat | LPlain "rstr option list" rstr

fun resolve_labels ::
  "(rstr, LabelColumn) bmap \<Rightarrow> (rstr \<times> rstr) list \<Rightarrow> (LReq list \<times> (rstr \<times> nat) list) option" where
  "resolve_labels cols [] = Some ([], [])"
| "resolve_labels cols ((name, val) # rest) =
     (case fmlookup cols name of
        None \<Rightarrow> None
      | Some (LabelDict dict code_of codes) \<Rightarrow>
          (case fmlookup code_of val of
             None \<Rightarrow> None
           | Some c \<Rightarrow>
               map_option (\<lambda>(ls, ds).
                 (LCode codes c # ls, (if c \<le> BLOCK_BITSET_CODES then (name, c) # ds else ds)))
                 (resolve_labels cols rest))
      | Some (LabelPlain values) \<Rightarrow>
          map_option (\<lambda>(ls, ds). (LPlain values val # ls, ds)) (resolve_labels cols rest))"

fun resolve_numerics ::
  "(rstr, NumericColumn) bmap \<Rightarrow> (rstr \<times> f64 \<times> f64) list \<Rightarrow> (NumericColumn \<times> f64 \<times> f64) list option" where
  "resolve_numerics cols [] = Some []"
| "resolve_numerics cols ((name, lo, hi) # rest) =
     (case fmlookup cols name of
        None \<Rightarrow> None
      | Some nc \<Rightarrow> map_option (Cons (nc, lo, hi)) (resolve_numerics cols rest))"

fun lreq_hit :: "nat \<Rightarrow> LReq \<Rightarrow> bool" where
  "lreq_hit i (LCode codes c) = (codes ! i = c)"
| "lreq_hit i (LPlain values want) = (values ! i = Some want)"

definition nreq_hit :: "nat \<Rightarrow> NumericColumn \<times> f64 \<times> f64 \<Rightarrow> bool" where
  "nreq_hit i req =
     (case req of (nc, lo, hi) \<Rightarrow>
        nc_present nc ! i \<and> f64_le lo (nc_values nc ! i) \<and> f64_le (nc_values nc ! i) hi)"

text \<open>The per-row checks, the same in both walks of the source.\<close>

definition row_ok ::
  "SegmentColumns \<Rightarrow> QuerySpec \<Rightarrow> LReq list \<Rightarrow> (NumericColumn \<times> f64 \<times> f64) list \<Rightarrow> nat \<Rightarrow> bool" where
  "row_ok c spec lreqs nreqs i \<longleftrightarrow>
     time_ok (qs_time spec) (sc_timestamps c ! i) \<and>
     (case qs_key_prefix spec of None \<Rightarrow> True | Some p \<Rightarrow> prefix p (key_at c i)) \<and>
     list_all (lreq_hit i) lreqs \<and> list_all (nreq_hit i) nreqs"

definition bitset_ok :: "(rstr, 64 word) bmap \<Rightarrow> rstr \<times> nat \<Rightarrow> bool" where
  "bitset_ok m req =
     (case req of (name, code) \<Rightarrow>
        (case fmlookup m name of
           None \<Rightarrow> True
         | Some bits \<Rightarrow> bits AND push_bit (code - 1) 1 \<noteq> 0))"

definition block_may_match :: "BlockMeta \<Rightarrow> QuerySpec \<Rightarrow> (rstr \<times> nat) list \<Rightarrow> bool" where
  "block_may_match b spec dict_prune \<longleftrightarrow>
     (case qs_time spec of None \<Rightarrow> True
      | Some (lo, hi) \<Rightarrow> \<not> (bm_max_ts b < lo \<or> hi < bm_min_ts b)) \<and>
     (case qs_key_prefix spec of None \<Rightarrow> True
      | Some p \<Rightarrow> key_range_overlaps_prefix (bm_first_key b) (bm_last_key b) p) \<and>
     list_all (zone_numeric_ok (bm_numerics b)) (qs_numeric_ranges spec) \<and>
     list_all (bitset_ok (bm_label_bitsets b)) dict_prune"

fun cand_walk :: "(nat \<Rightarrow> bool) \<Rightarrow> BlockMeta list \<Rightarrow> nat list \<Rightarrow> nat list" where
  "cand_walk ok live [] = []"
| "cand_walk ok live (row # rows) =
     (case dropWhile (\<lambda>b. bm_end b \<le> row) live of
        [] \<Rightarrow> []
      | b # bs \<Rightarrow>
          if row < bm_start b then cand_walk ok (b # bs) rows
          else if ok row then row # cand_walk ok (b # bs) rows
          else cand_walk ok (b # bs) rows)"

fun constraint_lists :: "TokenIndex \<Rightarrow> like_constraint list \<Rightarrow> nat list list \<Rightarrow> nat list list" where
  "constraint_lists idx [] pls = pls"
| "constraint_lists idx (Token t # cs) pls =
     (case postings_of idx t of
        Some l \<Rightarrow> constraint_lists idx cs (pls @ [l])
      | None \<Rightarrow> [[]])"
| "constraint_lists idx (Prefix p # cs) pls =
     (case postings_union_of_prefix idx p LIKE_PREFIX_BUDGET of
        OverBudget \<Rightarrow> constraint_lists idx cs pls
      | EmptyUnion \<Rightarrow> [[]]
      | Rows rows \<Rightarrow> constraint_lists idx cs (pls @ [rows]))"

definition like_candidate_lists :: "unicode \<Rightarrow> SegmentColumns \<Rightarrow> rstr \<Rightarrow> nat list list option" where
  "like_candidate_lists U c pattern =
     (case sc_tokens c of
        None \<Rightarrow> None
      | Some idx \<Rightarrow>
          (let constraints = like_constraints U pattern in
           if constraints = [] then None
           else
             (let pls = constraint_lists idx constraints [] in
              if pls = [] then None else Some pls)))"

definition candidate_rows ::
  "unicode \<Rightarrow> TokenIndex \<Rightarrow> rstr option \<Rightarrow> nat list list option \<Rightarrow> nat list" where
  "candidate_rows U idx tm like_lists =
     (case like_lists of
        None \<Rightarrow> (case tm of None \<Rightarrow> [] | Some q \<Rightarrow> rows_matching_all idx (fts_tokens U q))
      | Some pls \<Rightarrow>
          (case tm of
             None \<Rightarrow> intersect_ascending pls
           | Some q \<Rightarrow>
               (let want = fts_tokens U q in
                if want = [] then []
                else
                  (case collect_lists idx want of
                     None \<Rightarrow> []
                   | Some ls \<Rightarrow> intersect_ascending (pls @ ls)))))"

definition rows_by_columns :: "unicode \<Rightarrow> SegmentColumns \<Rightarrow> QuerySpec \<Rightarrow> nat list" where
  "rows_by_columns U c spec =
     (case resolve_labels (sc_labels c) (qs_labels spec) of
        None \<Rightarrow> []
      | Some (lreqs, dict_prune) \<Rightarrow>
          (case resolve_numerics (sc_numerics c) (qs_numeric_ranges spec) of
             None \<Rightarrow> []
           | Some nreqs \<Rightarrow>
               (let like_lists =
                      (case qs_text_like spec of None \<Rightarrow> None | Some p \<Rightarrow> like_candidate_lists U c p);
                    live = filter (\<lambda>b. block_may_match b spec dict_prune) (sc_blocks c)
                in if qs_text_match spec \<noteq> None \<or> like_lists \<noteq> None then
                     (case sc_tokens c of
                        None \<Rightarrow> []
                      | Some idx \<Rightarrow>
                          cand_walk (row_ok c spec lreqs nreqs) live
                            (candidate_rows U idx (qs_text_match spec) like_lists))
                   else
                     concat (map (\<lambda>b. map as_u32
                       (filter (row_ok c spec lreqs nreqs) [bm_start b..<bm_end b])) live))))"

fun like_filter ::
  "('x) seg_ext_scheme \<Rightarrow> byte list option \<Rightarrow> SegmentColumns \<Rightarrow> rstr \<Rightarrow> nat list \<Rightarrow> nat list result" where
  "like_filter X file c pattern [] = Inr []"
| "like_filter X file c pattern (row # rows) =
     and_then (text_at X file c row) (\<lambda>t.
     and_then (like_filter X file c pattern rows) (\<lambda>out.
       Inr (case t of None \<Rightarrow> out | Some s \<Rightarrow> if like_match pattern s then row # out else out)))"

definition matching_rows ::
  "unicode \<Rightarrow> ('x) seg_ext_scheme \<Rightarrow> byte list option \<Rightarrow> SegmentColumns \<Rightarrow> QuerySpec \<Rightarrow> nat list result" where
  "matching_rows U X file c spec =
     (case qs_text_like spec of
        None \<Rightarrow> Inr (rows_by_columns U c spec)
      | Some pattern \<Rightarrow>
          (case sc_texts c of
             None \<Rightarrow> Inr []
           | Some _ \<Rightarrow> like_filter X file c pattern (rows_by_columns U c spec)))"

end
