(* ===== verification/Token_Index.thy ===== *)
theory Token_Index
  imports Columns
begin

text \<open>
  Correctness of the segment's token postings index: what \<open>token_index_build\<close> lists, that it is
  a token index in the sense of the locale \<open>postings\<close>, and that the AND-of-tokens and the
  LIKE-candidate resolutions over it are exact, or sound, for the oracle.
\<close>

section \<open>Occurrences\<close>

definition occurs :: "unicode \<Rightarrow> rstr \<Rightarrow> Record \<Rightarrow> bool" where
  "occurs U t r = (case rec_text r of None \<Rightarrow> False | Some d \<Rightarrow> t \<in> set (fts_tokens U d))"

definition occ_rows :: "unicode \<Rightarrow> rstr \<Rightarrow> Record list \<Rightarrow> nat list" where
  "occ_rows U t rs = filter (\<lambda>i. occurs U t (rs ! i)) [0..<length rs]"

definition index_ok :: "unicode \<Rightarrow> TokenIndex \<Rightarrow> Record list \<Rightarrow> bool" where
  "index_ok U idx rs \<longleftrightarrow>
     sorted_wrt (<) (tki_tokens idx) \<and>
     (\<forall>j < length (tki_tokens idx). postings_at idx j = occ_rows U (tki_tokens idx ! j) rs) \<and>
     (\<forall>t. occ_rows U t rs \<noteq> [] \<longrightarrow> t \<in> set (tki_tokens idx))"

lemma sorted_occ_rows [simp]: "sorted_wrt (<) (occ_rows U t rs)"
  unfolding occ_rows_def by (rule sorted_wrt_filter) simp

lemma set_occ_rows [simp]: "i \<in> set (occ_rows U t rs) \<longleftrightarrow> i < length rs \<and> occurs U t (rs ! i)"
  by (auto simp: occ_rows_def)

lemma occ_rows_snoc:
  "occ_rows U t (rs @ [r]) = occ_rows U t rs @ (if occurs U t r then [length rs] else [])"
  by (auto simp: occ_rows_def nth_append intro!: filter_cong)

lemma has_row_iff: "sorted_wrt (<) l \<Longrightarrow> has_row l row \<longleftrightarrow> row \<in> set l"
  using bsearch_list [of l row] by (auto simp: has_row_def in_set_conv_nth)

section \<open>Building the index\<close>

lemma push_row_fold:
  "distinct ts \<Longrightarrow>
   fmlookup (fold (push_row i) ts m) t =
     (if t \<in> set ts then Some ((case fmlookup m t of None \<Rightarrow> [] | Some l \<Rightarrow> l) @ [as_u32 i])
      else fmlookup m t)"
  by (induction ts arbitrary: m) (auto simp: push_row_def)

lemma index_rows_snoc:
  "index_rows U i (rs @ [r]) m =
     (case rec_text r of
        None \<Rightarrow> index_rows U i rs m
      | Some t \<Rightarrow> fold (push_row (i + length rs)) (distinct_tokens U t) (index_rows U i rs m))"
  by (induction rs arbitrary: i m) (auto split: option.splits)

lemma distinct_distinct_tokens: "distinct (distinct_tokens U t)"
  using distinct_tokens_sorted [of U t] by (simp add: strict_sorted_iff)

lemma index_rows_lookup:
  "length rs < 2 ^ 32 \<Longrightarrow>
   fmlookup (index_rows U 0 rs fmempty) t =
     (if occ_rows U t rs = [] then None else Some (occ_rows U t rs))"
proof (induction rs rule: rev_induct)
  case Nil
  then show ?case by (simp add: occ_rows_def)
next
  case (snoc r rs)
  then show ?case
    by (auto simp: index_rows_snoc push_row_fold [OF distinct_distinct_tokens] occ_rows_snoc occurs_def
        split: option.splits)
qed

lemma token_index_build_ok:
  assumes "length rs < 2 ^ 32"
  shows "index_ok U (token_index_build U rs) rs"
proof -
  let ?m = "index_rows U 0 rs fmempty"
  have "postings_at (token_index_build U rs) j = occ_rows U (bt_keys ?m ! j) rs"
    if "j < length (bt_keys ?m)" for j
  proof -
    have "bt_entries ?m ! j \<in> set (bt_entries ?m)" using that by (simp add: bt_keys_def)
    then have "fmlookup ?m (fst (bt_entries ?m ! j)) = Some (snd (bt_entries ?m ! j))"
      by (metis in_set_bt_entries prod.collapse)
    then have "snd (bt_entries ?m ! j) = occ_rows U (fst (bt_entries ?m ! j)) rs"
      by (auto simp: index_rows_lookup [OF assms] split: if_splits)
    then show ?thesis
      using that by (simp add: token_index_build_def postings_at_def Let_def bt_values_def bt_keys_def)
  qed
  moreover have "t \<in> set (bt_keys ?m)" if "occ_rows U t rs \<noteq> []" for t
    using that index_rows_lookup [OF assms, of U t] by (auto intro: fmdomI)
  ultimately show ?thesis by (simp add: index_ok_def token_index_build_def Let_def)
qed

section \<open>The segment index is a token index\<close>

lemma postings_of_eq:
  assumes "index_ok U idx rs"
  shows "postings_of idx t = (if t \<in> set (tki_tokens idx) then Some (occ_rows U t rs) else None)"
proof (cases "t \<in> set (tki_tokens idx)")
  case True
  then obtain j where j: "j < length (tki_tokens idx)" "tki_tokens idx ! j = t"
    by (auto simp: in_set_conv_nth)
  then have "bsearch (\<lambda>i. tki_tokens idx ! i) t 0 (length (tki_tokens idx)) = Some j"
    using assms bsearch_list [of "tki_tokens idx" t j] by (simp add: index_ok_def)
  then show ?thesis using True j assms by (auto simp: postings_of_def index_ok_def)
next
  case False
  then show ?thesis
    using assms bsearch_list_None [of "tki_tokens idx" t] by (simp add: postings_of_def index_ok_def)
qed

definition seg_doc :: "TokenIndex \<times> Record list \<Rightarrow> nat \<Rightarrow> rstr option" where
  "seg_doc s i = (if i < length (snd s) then rec_text (snd s ! i) else None)"

definition seg_posting :: "TokenIndex \<times> Record list \<Rightarrow> rstr \<Rightarrow> nat set option" where
  "seg_posting s t = map_option set (postings_of (fst s) t)"

definition seg_index_inv :: "unicode \<Rightarrow> TokenIndex \<times> Record list \<Rightarrow> bool" where
  "seg_index_inv U s \<longleftrightarrow> index_ok U (fst s) (snd s)"

interpretation segp: postings U "seg_index_inv U" seg_doc seg_posting for U
proof
  fix s t P i
  assume inv: "seg_index_inv U s" and P: "seg_posting s t = Some P"
  then have "P = set (occ_rows U t (snd s))"
    using postings_of_eq [of U "fst s" "snd s" t]
    by (auto simp: seg_index_inv_def seg_posting_def split: if_splits)
  then show "i \<in> P \<longleftrightarrow> (\<exists>d. seg_doc s i = Some d \<and> t \<in> set (fts_tokens U d))"
    by (auto simp: seg_doc_def occurs_def split: option.splits)
next
  fix s t i d
  assume inv: "seg_index_inv U s" and N: "seg_posting s t = None" and d: "seg_doc s i = Some d"
  have i: "i < length (snd s)" "rec_text (snd s ! i) = Some d"
    using d by (auto simp: seg_doc_def split: if_splits)
  have "t \<notin> set (tki_tokens (fst s))"
    using inv N postings_of_eq [of U "fst s" "snd s" t]
    by (auto simp: seg_index_inv_def seg_posting_def split: if_splits)
  then have "occ_rows U t (snd s) = []" using inv by (auto simp: seg_index_inv_def index_ok_def)
  then have "i \<notin> set (occ_rows U t (snd s))" by simp
  then show "t \<notin> set (fts_tokens U d)" using i by (auto simp: occurs_def)
qed

section \<open>Intersections\<close>

text \<open>Intersecting strictly ascending lists from any one of them.\<close>

lemma filter_inter:
  assumes "\<forall>l \<in> set (first # rest). sorted_wrt (<) l"
  shows "sorted_wrt (<) (filter (\<lambda>row. list_all (\<lambda>l. has_row l row) rest) first)"
    and "row \<in> set (filter (\<lambda>row. list_all (\<lambda>l. has_row l row) rest) first) \<longleftrightarrow>
         (\<forall>l \<in> set (first # rest). row \<in> set l)"
  using assms by (auto simp: sorted_wrt_filter list_all_iff has_row_iff)

lemma min_idx_by_len_less: "xs \<noteq> [] \<Longrightarrow> min_idx_by_len xs < length xs"
  by (induction xs rule: min_idx_by_len.induct) (auto simp: Let_def)

lemma swap_remove_set:
  assumes "i < length xs"
  shows "set (xs ! i # swap_remove xs i) = set xs"
proof -
  obtain ys z where xs: "xs = ys @ [z]" using assms by (cases xs rule: rev_cases) auto
  show ?thesis
  proof (cases "i < length ys")
    case True
    have ys: "ys = take i ys @ ys ! i # drop (Suc i) ys" using True by (simp add: id_take_nth_drop)
    have "swap_remove xs i = ys[i := z]" using True by (simp add: swap_remove_def xs list_update_append)
    also have "\<dots> = take i ys @ z # drop (Suc i) ys" using True by (simp add: upd_conv_take_nth_drop)
    finally have "set (swap_remove xs i) = insert z (set (take i ys) \<union> set (drop (Suc i) ys))" by simp
    moreover have "set ys = insert (ys ! i) (set (take i ys) \<union> set (drop (Suc i) ys))"
      by (subst ys) auto
    ultimately show ?thesis using True by (auto simp: xs nth_append)
  next
    case False
    then have "i = length ys" using assms xs by simp
    then show ?thesis by (simp add: swap_remove_def xs)
  qed
qed

lemma intersect_ascending_spec:
  assumes "pls \<noteq> []" and "\<forall>l \<in> set pls. sorted_wrt (<) l"
  shows "sorted_wrt (<) (intersect_ascending pls)"
    and "row \<in> set (intersect_ascending pls) \<longleftrightarrow> (\<forall>l \<in> set pls. row \<in> set l)"
proof -
  let ?i = "min_idx_by_len pls"
  have s: "set (pls ! ?i # swap_remove pls ?i) = set pls"
    using assms(1) by (intro swap_remove_set min_idx_by_len_less)
  then have a: "\<forall>l \<in> set (pls ! ?i # swap_remove pls ?i). sorted_wrt (<) l" using assms(2) by simp
  have e: "intersect_ascending pls =
      filter (\<lambda>row. list_all (\<lambda>l. has_row l row) (swap_remove pls ?i)) (pls ! ?i)"
    using assms(1) by (simp add: intersect_ascending_def Let_def)
  show "sorted_wrt (<) (intersect_ascending pls)" unfolding e by (rule filter_inter(1) [OF a])
  show "row \<in> set (intersect_ascending pls) \<longleftrightarrow> (\<forall>l \<in> set pls. row \<in> set l)"
    unfolding e s [symmetric] by (rule filter_inter(2) [OF a])
qed

section \<open>AND of tokens\<close>

lemma collect_lists_None: "collect_lists idx want = None \<longleftrightarrow> (\<exists>t \<in> set want. postings_of idx t = None)"
  by (induction want) (auto split: option.splits)

lemma collect_lists_Some:
  "collect_lists idx want = Some ls \<Longrightarrow> set ls = (\<lambda>t. the (postings_of idx t)) ` set want \<and>
   (\<forall>t \<in> set want. postings_of idx t \<noteq> None)"
  by (induction want arbitrary: ls) (auto split: option.splits)

lemma collect_lists_oracle:
  assumes inv: "index_ok U idx rs" and w: "want \<noteq> []" and c: "collect_lists idx want = Some ls"
  shows "\<forall>l \<in> set ls. sorted_wrt (<) l" and "ls \<noteq> []"
    and "(\<forall>l \<in> set ls. row \<in> set l) \<longleftrightarrow>
         row < length rs \<and> text_contains_all U (rec_text (rs ! row)) want"
proof -
  note S = collect_lists_Some [OF c]
  show sorted: "\<forall>l \<in> set ls. sorted_wrt (<) l"
    using S postings_of_eq [OF inv] by (auto split: if_splits)
  show "ls \<noteq> []" using S w by auto
  have "(\<forall>l \<in> set ls. row \<in> set l) \<longleftrightarrow>
        (\<forall>t \<in> set want. \<exists>P. seg_posting (idx, rs) t = Some P \<and> row \<in> P)"
    using S by (fastforce simp: seg_posting_def)
  also have "\<dots> \<longleftrightarrow> text_contains_all U (seg_doc (idx, rs) row) want"
    using inv by (intro segp.all_postings w) (simp add: seg_index_inv_def)
  also have "\<dots> \<longleftrightarrow> row < length rs \<and> text_contains_all U (rec_text (rs ! row)) want"
    using w by (auto simp: seg_doc_def text_contains_all_def)
  finally show "(\<forall>l \<in> set ls. row \<in> set l) \<longleftrightarrow>
         row < length rs \<and> text_contains_all U (rec_text (rs ! row)) want" .
qed

lemma collect_lists_none_oracle:
  assumes inv: "index_ok U idx rs" and c: "collect_lists idx want = None" and i: "i < length rs"
  shows "\<not> text_contains_all U (rec_text (rs ! i)) want"
proof -
  obtain t where t: "t \<in> set want" "seg_posting (idx, rs) t = None"
    using c by (auto simp: collect_lists_None seg_posting_def)
  have "\<not> text_contains_all U (seg_doc (idx, rs) i) want"
    using inv by (intro segp.missing_posting [OF _ t]) (simp add: seg_index_inv_def)
  then show ?thesis using i by (simp add: seg_doc_def)
qed

lemma rows_matching_all_oracle:
  assumes inv: "index_ok U idx rs"
  shows "rows_matching_all idx want =
           filter (\<lambda>i. text_contains_all U (rec_text (rs ! i)) want) [0..<length rs]"
proof (cases "want = [] \<or> collect_lists idx want = None")
  case True
  have "\<not> text_contains_all U (rec_text (rs ! i)) want" if "i < length rs" for i
    using True collect_lists_none_oracle [OF inv _ that]
    by (cases "want = []") (simp_all add: text_contains_all_def [of _ _ "[]"])
  then show ?thesis using True by (auto simp: rows_matching_all_def filter_empty_conv split: option.splits)
next
  case False
  then obtain ls where c: "collect_lists idx want = Some ls" and w: "want \<noteq> []" by auto
  note C = collect_lists_oracle [OF inv w c]
  obtain f r where fr: "sort_key length ls = f # r"
    using C(2) by (metis list.exhaust set_empty set_sort)
  have s: "set (f # r) = set ls" by (metis fr set_sort)
  have a: "\<forall>l \<in> set (f # r). sorted_wrt (<) l" using C(1) s by simp
  have eq: "rows_matching_all idx want = filter (\<lambda>row. list_all (\<lambda>l. has_row l row) r) f"
    using w c fr by (simp add: rows_matching_all_def)
  show ?thesis
    unfolding eq
  proof (rule strict_sorted_eqI)
    show "sorted_wrt (<) (filter (\<lambda>row. list_all (\<lambda>l. has_row l row) r) f)"
      by (rule filter_inter(1) [OF a])
    show "sorted_wrt (<) (filter (\<lambda>i. text_contains_all U (rec_text (rs ! i)) want) [0..<length rs])"
      by (rule sorted_wrt_filter) simp
    show "set (filter (\<lambda>row. list_all (\<lambda>l. has_row l row) r) f) =
          set (filter (\<lambda>i. text_contains_all U (rec_text (rs ! i)) want) [0..<length rs])"
      using filter_inter(2) [OF a] C(3) unfolding s by auto
  qed
qed

section \<open>LIKE candidates\<close>

lemma prefix_end_spec:
  "prefix_end tokens p budget start e = Some e' \<Longrightarrow> e \<le> length tokens \<Longrightarrow>
   e \<le> e' \<and> e' \<le> length tokens \<and> (\<forall>j. e \<le> j \<and> j < e' \<longrightarrow> prefix p (tokens ! j)) \<and>
   (e' < length tokens \<longrightarrow> \<not> prefix p (tokens ! e'))"
proof (induction tokens p budget start e rule: prefix_end.induct)
  case (1 tokens p budget start e)
  show ?case
  proof (cases "e < length tokens \<and> prefix p (tokens ! e)")
    case True
    then have rec: "prefix_end tokens p budget start (e + 1) = Some e'" and b: "\<not> budget < e + 1 - start"
      using "1.prems"(1) by (auto simp: prefix_end.simps [of tokens p budget start e] split: if_splits)
    then have IH: "e + 1 \<le> e' \<and> e' \<le> length tokens \<and>
        (\<forall>j. e + 1 \<le> j \<and> j < e' \<longrightarrow> prefix p (tokens ! j)) \<and>
        (e' < length tokens \<longrightarrow> \<not> prefix p (tokens ! e'))"
      using "1.IH" True by simp
    have "prefix p (tokens ! j)" if "e \<le> j" "j < e'" for j
      using IH True that by (cases "j = e") auto
    then show ?thesis using IH by auto
  next
    case False
    then have "e' = e" using "1.prems"(1) by (auto simp: prefix_end.simps [of tokens p budget start e])
    then show ?thesis using False "1.prems"(2) by auto
  qed
qed

lemma prefix_range:
  assumes "sorted_wrt (<) tokens" and "start = length (takeWhile (\<lambda>t. t < p) tokens)"
    and e: "prefix_end tokens p budget start start = Some e" and j: "j < length tokens"
  shows "prefix p (tokens ! j) \<longleftrightarrow> start \<le> j \<and> j < e"
proof
  have sl: "start \<le> length tokens" using assms(2) by (simp add: length_takeWhile_le)
  note spec = prefix_end_spec [OF e sl]
  assume pj: "prefix p (tokens ! j)"
  have sj: "start \<le> j"
  proof (rule ccontr)
    assume "\<not> start \<le> j"
    then have "j < length (takeWhile (\<lambda>t. t < p) tokens)" using assms(2) by simp
    then have "tokens ! j < p" using nth_mem set_takeWhileD takeWhile_nth by metis
    with prefix_le [OF pj] show False by simp
  qed
  have "j < e"
  proof (rule ccontr)
    assume "\<not> j < e"
    then have ej: "e \<le> j" by simp
    then have el: "e < length tokens" using j by simp
    have st: "start < length tokens" using sj j by simp
    have "p \<le> tokens ! start"
      using st nth_length_takeWhile [of "\<lambda>t. t < p" tokens] assms(2) by (simp add: not_less)
    also have "tokens ! start \<le> tokens ! e"
      using assms(1) spec el by (metis le_neq_implies_less less_imp_le order_refl sorted_wrt_nth_less)
    finally have "p \<le> tokens ! e" .
    moreover have "tokens ! e \<le> tokens ! j"
      using assms(1) ej j by (metis le_neq_implies_less less_imp_le order_refl sorted_wrt_nth_less)
    ultimately have "prefix p (tokens ! e)" using prefix_interval [of p p "tokens ! j"] pj by simp
    with spec el show False by simp
  qed
  with sj show "start \<le> j \<and> j < e" by simp
next
  assume "start \<le> j \<and> j < e"
  moreover have "start \<le> length tokens" using assms(2) by (simp add: length_takeWhile_le)
  ultimately show "prefix p (tokens ! j)" using prefix_end_spec [OF e] by simp
qed

lemma occurs_token:
  assumes "index_ok U idx rs" and "i < length rs" and "occurs U t (rs ! i)"
  shows "t \<in> set (tki_tokens idx)"
proof -
  have "i \<in> set (occ_rows U t rs)" using assms by simp
  then have "occ_rows U t rs \<noteq> []" by (metis empty_iff empty_set)
  then show ?thesis using assms(1) by (simp add: index_ok_def)
qed

text \<open>The prefix resolution never loses a row that holds a token under the prefix.\<close>

lemma postings_union_sound:
  assumes inv: "index_ok U idx rs" and i: "i < length rs"
    and o: "occurs U t (rs ! i)" and p: "prefix p t"
  shows "postings_union_of_prefix idx p budget \<noteq> EmptyUnion"
    and "postings_union_of_prefix idx p budget = Rows rows \<Longrightarrow> i \<in> set rows"
proof -
  let ?ts = "tki_tokens idx"
  let ?start = "length (takeWhile (\<lambda>t. t < p) ?ts)"
  obtain j where j: "j < length ?ts" "?ts ! j = t"
    using occurs_token [OF inv i o] by (auto simp: in_set_conv_nth)
  have sorted: "sorted_wrt (<) ?ts" using inv by (simp add: index_ok_def)
  have range: "?start \<le> j \<and> j < e" if "prefix_end ?ts p budget ?start ?start = Some e" for e
    using prefix_range [OF sorted refl that j(1)] p j(2) by simp
  have "i \<in> set (postings_at idx j)" using inv j i o by (simp add: index_ok_def)
  then have "i \<in> set (remdups_adj (sort (concat (map (postings_at idx) [?start..<e]))))"
    if "prefix_end ?ts p budget ?start ?start = Some e" for e
    using range [OF that] by auto
  note mem = this
  show "postings_union_of_prefix idx p budget = Rows rows \<Longrightarrow> i \<in> set rows"
  proof (cases "prefix_end ?ts p budget ?start ?start")
    case (Some e)
    assume "postings_union_of_prefix idx p budget = Rows rows"
    with Some have "rows = remdups_adj (sort (concat (map (postings_at idx) [?start..<e])))"
      by (simp add: postings_union_of_prefix_def Let_def split: if_splits)
    with mem [OF Some] show ?thesis by (simp only:)
  qed (simp add: postings_union_of_prefix_def)
  show "postings_union_of_prefix idx p budget \<noteq> EmptyUnion"
  proof (cases "prefix_end ?ts p budget ?start ?start")
    case (Some e)
    with range [OF Some] show ?thesis by (simp add: postings_union_of_prefix_def Let_def)
  qed (simp add: postings_union_of_prefix_def)
qed

lemma postings_union_sorted: "postings_union_of_prefix idx p budget = Rows rows \<Longrightarrow> sorted_wrt (<) rows"
  by (auto simp: postings_union_of_prefix_def Let_def split: option.splits if_splits)

lemma constraint_lists_sorted:
  "index_ok U idx rs \<Longrightarrow> \<forall>l \<in> set pls. sorted_wrt (<) l \<Longrightarrow>
   \<forall>l \<in> set (constraint_lists idx cs pls). sorted_wrt (<) l"
  by (induction idx cs pls rule: constraint_lists.induct)
     (auto simp: postings_of_eq postings_union_sorted split: option.splits if_splits PrefixUnion.splits)

lemma postings_union_bounded:
  assumes inv: "index_ok U idx rs" and r: "postings_union_of_prefix idx p budget = Rows rows"
    and i: "i \<in> set rows"
  shows "i < length rs"
proof -
  let ?ts = "tki_tokens idx"
  let ?start = "length (takeWhile (\<lambda>t. t < p) ?ts)"
  obtain e where e: "prefix_end ?ts p budget ?start ?start = Some e"
      "rows = remdups_adj (sort (concat (map (postings_at idx) [?start..<e])))"
    using r by (auto simp: postings_union_of_prefix_def Let_def split: option.splits if_splits)
  have "e \<le> length ?ts" using prefix_end_spec [OF e(1)] by (simp add: length_takeWhile_le)
  moreover obtain j where "?start \<le> j" "j < e" "i \<in> set (postings_at idx j)" using i e(2) by auto
  ultimately have "i \<in> set (occ_rows U (?ts ! j) rs)" using inv by (simp add: index_ok_def)
  then show ?thesis by simp
qed

lemma constraint_lists_bounded:
  "index_ok U idx rs \<Longrightarrow> \<forall>l \<in> set pls. \<forall>i \<in> set l. i < length rs \<Longrightarrow>
   \<forall>l \<in> set (constraint_lists idx cs pls). \<forall>i \<in> set l. i < length rs"
proof (induction idx cs pls rule: constraint_lists.induct)
  case (2 idx t cs pls)
  show ?case
  proof (cases "postings_of idx t")
    case (Some l)
    then have "l = occ_rows U t rs" using postings_of_eq [OF "2.prems"(1), of t] by (simp split: if_splits)
    then have b: "\<forall>l' \<in> set (pls @ [l]). \<forall>i \<in> set l'. i < length rs" using "2.prems"(2) by simp
    show ?thesis using "2.IH" [OF Some "2.prems"(1) b] by (simp add: Some)
  qed simp
next
  case (3 idx p cs pls)
  show ?case
  proof (cases "postings_union_of_prefix idx p LIKE_PREFIX_BUDGET")
    case (Rows rows)
    have b: "\<forall>l' \<in> set (pls @ [rows]). \<forall>i \<in> set l'. i < length rs"
      using "3.prems"(2) postings_union_bounded [OF "3.prems"(1) Rows] by auto
    show ?thesis using "3.IH"(2) [OF Rows "3.prems"(1) b] by (simp add: Rows)
  next
    case OverBudget
    show ?thesis using "3.IH"(1) [OF OverBudget "3.prems"] by (simp add: OverBudget)
  qed simp
qed simp

lemma satisfies_occurs:
  assumes "rec_text r = Some d"
  shows "satisfies (fts_tokens U d) (Token t) \<longleftrightarrow> occurs U t r"
    and "satisfies (fts_tokens U d) (Prefix p) \<longleftrightarrow> (\<exists>t. occurs U t r \<and> prefix p t)"
  using assms by (auto simp: occurs_def)

lemma constraint_lists_sound:
  assumes i: "i < length rs" and d: "rec_text (rs ! i) = Some d"
  shows "\<forall>c \<in> set cs. satisfies (fts_tokens U d) c \<Longrightarrow> \<forall>l \<in> set pls. i \<in> set l \<Longrightarrow>
         index_ok U idx rs \<Longrightarrow> \<forall>l \<in> set (constraint_lists idx cs pls). i \<in> set l"
proof (induction idx cs pls rule: constraint_lists.induct)
  case (2 idx t cs pls)
  have o: "occurs U t (rs ! i)" using "2.prems"(1) satisfies_occurs [OF d] by simp
  then have "t \<in> set (tki_tokens idx)" using occurs_token "2.prems"(3) i by blast
  then have po: "postings_of idx t = Some (occ_rows U t rs)" using postings_of_eq [OF "2.prems"(3)] by simp
  have l: "\<forall>l \<in> set (pls @ [occ_rows U t rs]). i \<in> set l" using "2.prems"(2) o i by simp
  have c: "\<forall>c \<in> set cs. satisfies (fts_tokens U d) c" using "2.prems"(1) by (auto simp del: satisfies.simps)
  show ?case using "2.IH" [OF po c l "2.prems"(3)] by (simp add: po)
next
  case (3 idx p cs pls)
  obtain t where o: "occurs U t (rs ! i)" and p: "prefix p t"
    using "3.prems"(1) satisfies_occurs [OF d] by auto
  have c: "\<forall>c \<in> set cs. satisfies (fts_tokens U d) c" using "3.prems"(1) by (auto simp del: satisfies.simps)
  note u = postings_union_sound [OF "3.prems"(3) i o p, of LIKE_PREFIX_BUDGET]
  show ?case
  proof (cases "postings_union_of_prefix idx p LIKE_PREFIX_BUDGET")
    case (Rows rows)
    then have l: "\<forall>l \<in> set (pls @ [rows]). i \<in> set l" using "3.prems"(2) u(2) by simp
    show ?thesis using "3.IH"(2) [OF Rows c l "3.prems"(3)] by (simp add: Rows)
  next
    case OverBudget
    show ?thesis using "3.IH"(1) [OF OverBudget c "3.prems"(2,3)] by (simp add: OverBudget)
  qed (use u(1) in simp)
qed simp

end
