(* ===== verification/Row_Match.thy ===== *)
theory Row_Match
  imports Token_Index
begin

text \<open>
  Columns that stand for a list of records (\<open>cols_ok\<close>), and the theorem that selecting rows over
  them -- label dictionaries, numeric columns, block pruning, postings, LIKE verification -- is
  filtering the records by the oracle \<open>matches\<close>.
\<close>

section \<open>Columns that stand for records\<close>

fun label_col_ok :: "LabelColumn \<Rightarrow> (nat \<Rightarrow> rstr option) \<Rightarrow> nat \<Rightarrow> bool" where
  "label_col_ok (LabelDict dict code_of codes) f n \<longleftrightarrow>
     (\<forall>i < n. case f i of
        None \<Rightarrow> codes ! i = 0
      | Some v \<Rightarrow> fmlookup code_of v = Some (codes ! i) \<and> dict ! (codes ! i - 1) = v) \<and>
     (\<forall>v c. fmlookup code_of v = Some c \<longrightarrow> c \<noteq> 0) \<and>
     (\<forall>v v' c. fmlookup code_of v = Some c \<longrightarrow> fmlookup code_of v' = Some c \<longrightarrow> v = v')"
| "label_col_ok (LabelPlain vals) f n \<longleftrightarrow> (\<forall>i < n. vals ! i = f i)"

definition labels_ok :: "(rstr, LabelColumn) bmap \<Rightarrow> Record list \<Rightarrow> bool" where
  "labels_ok cols rs \<longleftrightarrow>
     (\<forall>name. case fmlookup cols name of
        None \<Rightarrow> (\<forall>r \<in> set rs. fmlookup (rec_labels r) name = None)
      | Some col \<Rightarrow> label_col_ok col (\<lambda>i. fmlookup (rec_labels (rs ! i)) name) (length rs))"

definition numeric_col_ok :: "NumericColumn \<Rightarrow> (nat \<Rightarrow> f64 option) \<Rightarrow> nat \<Rightarrow> bool" where
  "numeric_col_ok nc f n \<longleftrightarrow>
     (\<forall>i < n. (if nc_present nc ! i then Some (nc_values nc ! i) else None) = f i)"

definition numerics_ok :: "(rstr, NumericColumn) bmap \<Rightarrow> Record list \<Rightarrow> bool" where
  "numerics_ok cols rs \<longleftrightarrow>
     (\<forall>name. case fmlookup cols name of
        None \<Rightarrow> (\<forall>r \<in> set rs. fmlookup (rec_numerics r) name = None)
      | Some nc \<Rightarrow> numeric_col_ok nc (\<lambda>i. fmlookup (rec_numerics (rs ! i)) name) (length rs))"

definition bitsets_ok :: "(rstr, LabelColumn) bmap \<Rightarrow> BlockMeta \<Rightarrow> nat \<Rightarrow> bool" where
  "bitsets_ok cols b i \<longleftrightarrow>
     (\<forall>name bits dict code_of codes.
        fmlookup (bm_label_bitsets b) name = Some bits \<longrightarrow>
        fmlookup cols name = Some (LabelDict dict code_of codes) \<longrightarrow>
        1 \<le> codes ! i \<longrightarrow> codes ! i \<le> BLOCK_BITSET_CODES \<longrightarrow>
        bits AND push_bit (codes ! i - 1) 1 \<noteq> 0)"

definition block_covers :: "(rstr, LabelColumn) bmap \<Rightarrow> BlockMeta \<Rightarrow> nat \<Rightarrow> Record \<Rightarrow> bool" where
  "block_covers cols b i r \<longleftrightarrow>
     bm_min_ts b \<le> rec_timestamp r \<and> rec_timestamp r \<le> bm_max_ts b \<and>
     bm_first_key b \<le> rec_key r \<and> rec_key r \<le> bm_last_key b \<and>
     (\<forall>n v. fmlookup (rec_numerics r) n = Some v \<longrightarrow> numeric_covered (bm_numerics b) n v) \<and>
     bitsets_ok cols b i"

definition in_block :: "BlockMeta \<Rightarrow> nat \<Rightarrow> bool" where
  "in_block b i \<longleftrightarrow> bm_start b \<le> i \<and> i < bm_end b"

definition blocks_ok :: "(rstr, LabelColumn) bmap \<Rightarrow> BlockMeta list \<Rightarrow> Record list \<Rightarrow> bool" where
  "blocks_ok cols bs rs \<longleftrightarrow>
     sorted_wrt (\<lambda>a b. bm_end a \<le> bm_start b) bs \<and>
     (\<forall>b \<in> set bs. bm_end b \<le> length rs) \<and>
     (\<forall>i < length rs. \<exists>b \<in> set bs. in_block b i) \<and>
     (\<forall>b \<in> set bs. \<forall>i < length rs. in_block b i \<longrightarrow> block_covers cols b i (rs ! i))"

text \<open>The token index may be left out when no token query needs it.\<close>

definition tokens_ok :: "unicode \<Rightarrow> bool \<Rightarrow> TokenIndex option \<Rightarrow> Record list \<Rightarrow> bool" where
  "tokens_ok U need idx rs =
     (case idx of
        None \<Rightarrow> need \<longrightarrow> (\<forall>r \<in> set rs. rec_text r = None)
      | Some idx \<Rightarrow> index_ok U idx rs)"

definition texts_ok :: "('x) seg_ext_scheme \<Rightarrow> byte list option \<Rightarrow> SegmentColumns \<Rightarrow> Record list \<Rightarrow> bool" where
  "texts_ok X file c rs \<longleftrightarrow>
     (sc_texts c = None \<longrightarrow> (\<forall>r \<in> set rs. rec_text r = None)) \<and>
     (\<forall>i < length rs. text_at X file c i = Inr (rec_text (rs ! i)))"

definition payloads_ok :: "byte list option \<Rightarrow> SegmentColumns \<Rightarrow> Record list \<Rightarrow> bool" where
  "payloads_ok file c rs \<longleftrightarrow> (\<forall>i < length rs. payload_at file c i = Inr (rec_payload (rs ! i)))"

definition cols_ok ::
  "unicode \<Rightarrow> ('x) seg_ext_scheme \<Rightarrow> byte list option \<Rightarrow> bool \<Rightarrow> SegmentColumns \<Rightarrow> Record list \<Rightarrow> bool" where
  "cols_ok U X file need c rs \<longleftrightarrow>
     sc_count c = length rs \<and> length rs < 2 ^ 32 \<and>
     (\<forall>i < length rs. key_at c i = rec_key (rs ! i)) \<and>
     (\<forall>i < length rs. sc_timestamps c ! i = rec_timestamp (rs ! i)) \<and>
     labels_ok (sc_labels c) rs \<and> numerics_ok (sc_numerics c) rs \<and>
     blocks_ok (sc_labels c) (sc_blocks c) rs \<and> tokens_ok U need (sc_tokens c) rs \<and>
     texts_ok X file c rs \<and> payloads_ok file c rs"

section \<open>Reading rows back\<close>

lemma dict_col_None:
  assumes "label_col_ok (LabelDict dict code_of codes) f n" and "i < n" and "f i = None"
  shows "codes ! i = 0"
proof -
  have "case f i of None \<Rightarrow> codes ! i = 0
      | Some v \<Rightarrow> fmlookup code_of v = Some (codes ! i) \<and> dict ! (codes ! i - 1) = v"
    using assms(1,2) by (simp only: label_col_ok.simps)
  then show ?thesis using assms(3) by simp
qed

lemma dict_col_Some:
  assumes "label_col_ok (LabelDict dict code_of codes) f n" and "i < n" and "f i = Some v"
  shows "fmlookup code_of v = Some (codes ! i)" and "dict ! (codes ! i - 1) = v" and "codes ! i \<noteq> 0"
proof -
  have "case f i of None \<Rightarrow> codes ! i = 0
      | Some v \<Rightarrow> fmlookup code_of v = Some (codes ! i) \<and> dict ! (codes ! i - 1) = v"
    using assms(1,2) by (simp only: label_col_ok.simps)
  then show "fmlookup code_of v = Some (codes ! i)" "dict ! (codes ! i - 1) = v" using assms(3) by simp_all
  then show "codes ! i \<noteq> 0" using assms(1) by (simp only: label_col_ok.simps) blast
qed

text \<open>A row holds a dictionary code exactly when its record has that value.\<close>

lemma dict_col_hit:
  assumes ok: "label_col_ok (LabelDict dict code_of codes) f n" and i: "i < n"
    and c: "fmlookup code_of v = Some c"
  shows "codes ! i = c \<longleftrightarrow> f i = Some v"
proof (cases "f i")
  case None
  have "c \<noteq> 0" using ok c by (simp only: label_col_ok.simps) (metis (no_types))
  with dict_col_None [OF ok i None] None show ?thesis by simp
next
  case (Some w)
  have "w = v" if "codes ! i = c"
    using ok c dict_col_Some(1) [OF ok i Some] that by (simp only: label_col_ok.simps)
  then show ?thesis using dict_col_Some(1) [OF ok i Some] c Some by auto
qed

lemma col_value_ok:
  assumes "label_col_ok col f n" and "i < n"
  shows "col_value col i = f i"
proof (cases col)
  case (LabelDict dict code_of codes)
  note ok = assms(1) [unfolded LabelDict]
  show ?thesis
    using dict_col_None [OF ok assms(2)] dict_col_Some [OF ok assms(2)]
    by (cases "f i") (simp_all add: LabelDict col_value_def)
next
  case (LabelPlain vals)
  then show ?thesis using assms by (simp add: col_value_def)
qed

lemma fold_put_some_lookup:
  "distinct (map fst es) \<Longrightarrow>
   fmlookup (fold (\<lambda>(name, col). put_some (name, g col)) es m) k =
     (case map_of es k of
        None \<Rightarrow> fmlookup m k
      | Some col \<Rightarrow> (case g col of None \<Rightarrow> fmlookup m k | Some v \<Rightarrow> Some v))"
proof (induction es arbitrary: m)
  case (Cons e es)
  obtain k' col where e: "e = (k', col)" by fastforce
  have k: "map_of es k' = None" using Cons.prems e by (simp add: map_of_eq_None_iff)
  show ?case
    using Cons.IH [of "put_some (k', g col) m"] Cons.prems k
    by (auto simp: e put_some_def split: option.splits)
qed simp

lemma labels_ok_None:
  assumes "labels_ok cols rs" and "fmlookup cols k = None" and "i < length rs"
  shows "fmlookup (rec_labels (rs ! i)) k = None"
proof -
  have "\<forall>r \<in> set rs. fmlookup (rec_labels r) k = None"
    using assms(1) [unfolded labels_ok_def, THEN spec, of k] assms(2) by simp
  then show ?thesis using assms(3) by simp
qed

lemma labels_ok_Some:
  assumes "labels_ok cols rs" and "fmlookup cols k = Some col"
  shows "label_col_ok col (\<lambda>i. fmlookup (rec_labels (rs ! i)) k) (length rs)"
  using assms(1) [unfolded labels_ok_def, THEN spec, of k] assms(2) by simp

lemma numerics_ok_None:
  assumes "numerics_ok cols rs" and "fmlookup cols k = None" and "i < length rs"
  shows "fmlookup (rec_numerics (rs ! i)) k = None"
proof -
  have "\<forall>r \<in> set rs. fmlookup (rec_numerics r) k = None"
    using assms(1) [unfolded numerics_ok_def, THEN spec, of k] assms(2) by simp
  then show ?thesis using assms(3) by simp
qed

lemma numerics_ok_Some:
  assumes "numerics_ok cols rs" and "fmlookup cols k = Some nc" and "i < length rs"
  shows "(if nc_present nc ! i then Some (nc_values nc ! i) else None) = fmlookup (rec_numerics (rs ! i)) k"
proof -
  have "numeric_col_ok nc (\<lambda>i. fmlookup (rec_numerics (rs ! i)) k) (length rs)"
    using assms(1) [unfolded numerics_ok_def, THEN spec, of k] assms(2) by simp
  then show ?thesis using assms(3) by (simp add: numeric_col_ok_def)
qed

lemma build_record_ok:
  assumes "cols_ok U X file need c rs" and i: "i < length rs"
  shows "build_record c i (rec_payload (rs ! i)) t = (rs ! i)\<lparr> rec_text := t \<rparr>"
proof -
  have l: "labels_ok (sc_labels c) rs" and n: "numerics_ok (sc_numerics c) rs"
    using assms by (simp_all add: cols_ok_def)
  have "fold (\<lambda>(name, col). put_some (name, col_value col i)) (bt_entries (sc_labels c)) fmempty =
        rec_labels (rs ! i)"
  proof (rule fmap_ext)
    fix k
    show "fmlookup (fold (\<lambda>(name, col). put_some (name, col_value col i)) (bt_entries (sc_labels c)) fmempty) k =
          fmlookup (rec_labels (rs ! i)) k"
      using labels_ok_None [OF l _ i, of k] col_value_ok [OF labels_ok_Some [OF l, of k] i]
      by (cases "fmlookup (sc_labels c) k")
         (simp_all add: fold_put_some_lookup [where g = "\<lambda>col. col_value col i"] split: option.splits)
  qed
  moreover have "fold (\<lambda>(name, nc). put_some (name, if nc_present nc ! i then Some (nc_values nc ! i) else None))
      (bt_entries (sc_numerics c)) fmempty = rec_numerics (rs ! i)"
  proof (rule fmap_ext)
    fix k
    show "fmlookup (fold (\<lambda>(name, nc). put_some (name, if nc_present nc ! i then Some (nc_values nc ! i) else None))
        (bt_entries (sc_numerics c)) fmempty) k = fmlookup (rec_numerics (rs ! i)) k"
      using numerics_ok_None [OF n _ i, of k] numerics_ok_Some [OF n _ i, of k]
      by (cases "fmlookup (sc_numerics c) k")
         (simp_all add: fold_put_some_lookup [where g = "\<lambda>nc. if nc_present nc ! i then Some (nc_values nc ! i) else None"]
           split: option.splits)
  qed
  ultimately show ?thesis using assms by (simp add: build_record_def cols_ok_def)
qed

lemma materialize_ok:
  assumes "cols_ok U X file need c rs" and "i < length rs"
  shows "materialize X file c i want_text =
           Inr (if want_text then rs ! i else (rs ! i)\<lparr> rec_text := None \<rparr>)"
proof -
  have "payload_at file c i = Inr (rec_payload (rs ! i))" "text_at X file c i = Inr (rec_text (rs ! i))"
    using assms by (simp_all add: cols_ok_def payloads_ok_def texts_ok_def)
  then show ?thesis using build_record_ok [OF assms] by (simp add: materialize_def)
qed

lemma find_key_ok:
  assumes c: "cols_ok U X file need c rs" and s: "sorted_wrt (<) (map rec_key rs)"
  shows "find_key c k = Some i \<longleftrightarrow> i < length rs \<and> rec_key (rs ! i) = k"
proof -
  let ?ks = "map rec_key rs"
  have key: "key_at c i = ?ks ! i" if "i < length rs" for i using c that by (simp add: cols_ok_def)
  have cnt: "sc_count c = length ?ks" using c by (simp add: cols_ok_def)
  show ?thesis
    unfolding find_key_def cnt using bsearch_keys [OF s, of "key_at c" k i] key by (simp cong: conj_cong)
qed

section \<open>Resolved predicates\<close>

lemma resolve_labels_None:
  "resolve_labels cols ls = None \<Longrightarrow> labels_ok cols rs \<Longrightarrow> i < length rs \<Longrightarrow>
   \<not> list_all (\<lambda>(k, v). fmlookup (rec_labels (rs ! i)) k = Some v) ls"
proof (induction cols ls rule: resolve_labels.induct)
  case (2 cols name val rest)
  show ?case
  proof (cases "fmlookup cols name")
    case None
    then show ?thesis using labels_ok_None [OF "2.prems"(2) None "2.prems"(3)] by simp
  next
    case (Some col)
    note ok = labels_ok_Some [OF "2.prems"(2) Some]
    show ?thesis
    proof (cases col)
      case (LabelDict dict code_of codes)
      show ?thesis
      proof (cases "fmlookup code_of val")
        case None
        then have "fmlookup (rec_labels (rs ! i)) name \<noteq> Some val"
          using dict_col_Some(1) [OF ok [unfolded LabelDict] "2.prems"(3), of val] by auto
        then show ?thesis by simp
      next
        case (Some c)
        then have "resolve_labels cols rest = None"
          using "2.prems"(1) \<open>fmlookup cols name = Some col\<close> LabelDict by simp
        then show ?thesis
          using "2.IH"(1) [OF \<open>fmlookup cols name = Some col\<close> LabelDict Some _ "2.prems"(2,3)] by simp
      qed
    next
      case (LabelPlain vals)
      then have "resolve_labels cols rest = None" using "2.prems"(1) Some by simp
      then show ?thesis using "2.IH"(2) [OF Some LabelPlain _ "2.prems"(2,3)] by simp
    qed
  qed
qed simp

lemma resolve_labels_Some:
  "resolve_labels cols ls = Some (lreqs, dp) \<Longrightarrow> labels_ok cols rs \<Longrightarrow> i < length rs \<Longrightarrow>
   list_all (lreq_hit i) lreqs \<longleftrightarrow> list_all (\<lambda>(k, v). fmlookup (rec_labels (rs ! i)) k = Some v) ls"
proof (induction cols ls arbitrary: lreqs dp rule: resolve_labels.induct)
  case (2 cols name val rest)
  obtain col where col: "fmlookup cols name = Some col" using "2.prems"(1) by (auto split: option.splits)
  note ok = labels_ok_Some [OF "2.prems"(2) col]
  show ?case
  proof (cases col)
    case (LabelDict dict code_of codes)
    then obtain c where c: "fmlookup code_of val = Some c"
      using "2.prems"(1) col by (auto split: option.splits)
    then obtain ls' ds' where r: "resolve_labels cols rest = Some (ls', ds')" "lreqs = LCode codes c # ls'"
      using "2.prems"(1) col LabelDict by auto
    have "codes ! i = c \<longleftrightarrow> fmlookup (rec_labels (rs ! i)) name = Some val"
      by (rule dict_col_hit [OF ok [unfolded LabelDict] "2.prems"(3) c])
    then show ?thesis using "2.IH"(1) [OF col LabelDict c r(1) "2.prems"(2,3)] r(2) by simp
  next
    case (LabelPlain vals)
    then obtain ls' where r: "resolve_labels cols rest = Some (ls', dp)" "lreqs = LPlain vals val # ls'"
      using "2.prems"(1) col by auto
    then show ?thesis using "2.IH"(2) [OF col LabelPlain r(1) "2.prems"(2,3)] ok LabelPlain "2.prems"(3) by simp
  qed
qed simp

lemma resolve_labels_prune:
  "resolve_labels cols ls = Some (lreqs, dp) \<Longrightarrow> (name, c) \<in> set dp \<Longrightarrow>
   \<exists>dict code_of codes. fmlookup cols name = Some (LabelDict dict code_of codes) \<and>
     LCode codes c \<in> set lreqs \<and> c \<le> BLOCK_BITSET_CODES \<and> (\<exists>v. fmlookup code_of v = Some c)"
proof (induction cols ls arbitrary: lreqs dp rule: resolve_labels.induct)
  case (2 cols name' val rest)
  obtain col where col: "fmlookup cols name' = Some col" using "2.prems"(1) by (auto split: option.splits)
  show ?case
  proof (cases col)
    case (LabelDict dict code_of codes)
    then obtain c' where c: "fmlookup code_of val = Some c'"
      using "2.prems"(1) col by (auto split: option.splits)
    then obtain ls' ds' where r: "resolve_labels cols rest = Some (ls', ds')" "lreqs = LCode codes c' # ls'"
        "dp = (if c' \<le> BLOCK_BITSET_CODES then (name', c') # ds' else ds')"
      using "2.prems"(1) col LabelDict by auto
    show ?thesis
    proof (cases "(name, c) \<in> set ds'")
      case True
      then show ?thesis using "2.IH"(1) [OF col LabelDict c r(1)] r(2) by auto
    next
      case False
      then have "name = name'" "c = c'" "c' \<le> BLOCK_BITSET_CODES"
        using r(3) "2.prems"(2) by (auto split: if_splits)
      then show ?thesis using col LabelDict c r(2) by auto
    qed
  next
    case (LabelPlain vals)
    then obtain ls' where r: "resolve_labels cols rest = Some (ls', dp)" "lreqs = LPlain vals val # ls'"
      using "2.prems"(1) col by auto
    then show ?thesis using "2.IH"(2) [OF col LabelPlain r(1) "2.prems"(2)] by auto
  qed
qed simp

lemma resolve_numerics_None:
  "resolve_numerics cols ns = None \<Longrightarrow> numerics_ok cols rs \<Longrightarrow> i < length rs \<Longrightarrow>
   \<not> list_all (numeric_ok (rec_numerics (rs ! i))) ns"
proof (induction cols ns rule: resolve_numerics.induct)
  case (2 cols name lo hi rest)
  then show ?case
    using numerics_ok_None [OF "2.prems"(2) _ "2.prems"(3), of name]
    by (auto simp: numeric_ok_def split: option.splits)
qed simp

lemma resolve_numerics_Some:
  "resolve_numerics cols ns = Some nreqs \<Longrightarrow> numerics_ok cols rs \<Longrightarrow> i < length rs \<Longrightarrow>
   list_all (nreq_hit i) nreqs \<longleftrightarrow> list_all (numeric_ok (rec_numerics (rs ! i))) ns"
proof (induction cols ns arbitrary: nreqs rule: resolve_numerics.induct)
  case (2 cols name lo hi rest)
  obtain nc nreqs' where nc: "fmlookup cols name = Some nc" and r: "resolve_numerics cols rest = Some nreqs'"
      "nreqs = (nc, lo, hi) # nreqs'"
    using "2.prems"(1) by (auto split: option.splits)
  have "(if nc_present nc ! i then Some (nc_values nc ! i) else None) = fmlookup (rec_numerics (rs ! i)) name"
    by (rule numerics_ok_Some [OF "2.prems"(2) nc "2.prems"(3)])
  then have "nreq_hit i (nc, lo, hi) \<longleftrightarrow> numeric_ok (rec_numerics (rs ! i)) (name, lo, hi)"
    by (auto simp: nreq_hit_def numeric_ok_def split: if_splits option.splits)
  then show ?case using "2.IH" [OF nc r(1) "2.prems"(2,3)] r(2) by simp
qed simp

section \<open>Row and block predicates\<close>

lemma row_ok_iff:
  assumes c: "cols_ok U X file need c rs" and i: "i < length rs"
    and l: "resolve_labels (sc_labels c) (qs_labels spec) = Some (lreqs, dp)"
    and n: "resolve_numerics (sc_numerics c) (qs_numeric_ranges spec) = Some nreqs"
  shows "row_ok c spec lreqs nreqs i \<longleftrightarrow> matches_fields spec (rs ! i)"
proof -
  have "key_at c i = rec_key (rs ! i)" "sc_timestamps c ! i = rec_timestamp (rs ! i)"
    "labels_ok (sc_labels c) rs" "numerics_ok (sc_numerics c) rs"
    using c i by (simp_all add: cols_ok_def)
  then show ?thesis
    using resolve_labels_Some [OF l _ i] resolve_numerics_Some [OF n _ i]
    by (simp add: row_ok_def matches_fields_def split: option.splits)
qed

lemma block_may_match_sound:
  assumes c: "cols_ok U X file need c rs" and i: "i < length rs"
    and l: "resolve_labels (sc_labels c) (qs_labels spec) = Some (lreqs, dp)"
    and n: "resolve_numerics (sc_numerics c) (qs_numeric_ranges spec) = Some nreqs"
    and b: "b \<in> set (sc_blocks c)" "in_block b i" and m: "matches_fields spec (rs ! i)"
  shows "block_may_match b spec dp"
proof -
  have cov: "block_covers (sc_labels c) b i (rs ! i)"
    using c b i by (simp add: cols_ok_def blocks_ok_def)
  have hits: "list_all (lreq_hit i) lreqs"
    using row_ok_iff [OF c i l n] m by (simp add: row_ok_def)
  have "bitset_ok (bm_label_bitsets b) (name, code)" if dp: "(name, code) \<in> set dp" for name code
  proof (cases "fmlookup (bm_label_bitsets b) name")
    case (Some bits)
    obtain dict code_of codes v where d: "fmlookup (sc_labels c) name = Some (LabelDict dict code_of codes)"
        "LCode codes code \<in> set lreqs" "code \<le> BLOCK_BITSET_CODES" "fmlookup code_of v = Some code"
      using resolve_labels_prune [OF l dp] by blast
    have "codes ! i = code" using hits d(2) by (force simp: list_all_iff)
    moreover have "code \<noteq> 0"
    proof -
      have "labels_ok (sc_labels c) rs" using c by (simp add: cols_ok_def)
      then have "\<forall>v c. fmlookup code_of v = Some c \<longrightarrow> c \<noteq> 0"
        using labels_ok_Some [OF _ d(1)] by simp
      then show ?thesis using d(4) by blast
    qed
    ultimately have "bits AND push_bit (code - 1) 1 \<noteq> 0"
      using cov Some d(1,3) unfolding block_covers_def bitsets_ok_def by (metis One_nat_def Suc_leI neq0_conv)
    then show ?thesis by (simp add: bitset_ok_def Some)
  qed (simp add: bitset_ok_def)
  then have "list_all (bitset_ok (bm_label_bitsets b)) dp" by (auto simp: list_all_iff)
  moreover have "list_all (zone_numeric_ok (bm_numerics b)) (qs_numeric_ranges spec)"
    using cov m
    by (fastforce simp: block_covers_def matches_fields_def list_all_iff numeric_ok_def
        intro: zone_numeric_ok_sound split: option.splits)
  ultimately show ?thesis
    using cov m
    by (auto simp: block_may_match_def block_covers_def matches_fields_def time_ok_def
        intro: overlaps_prefix_sound split: option.splits)
qed

section \<open>The two walks\<close>

lemma cand_walk_eq:
  "sorted_wrt (\<lambda>a b. bm_end a \<le> bm_start b) live \<Longrightarrow> sorted_wrt (<) rows \<Longrightarrow>
   cand_walk ok live rows = filter (\<lambda>row. (\<exists>b \<in> set live. in_block b row) \<and> ok row) rows"
proof (induction rows arbitrary: live)
  case (Cons row rows)
  let ?d = "dropWhile (\<lambda>b. bm_end b \<le> row) live"
  have sd: "sorted_wrt (\<lambda>a b. bm_end a \<le> bm_start b) ?d"
    using Cons.prems(1) by (metis sorted_wrt_append takeWhile_dropWhile_id)
  have later: "(\<exists>b \<in> set live. in_block b r) \<longleftrightarrow> (\<exists>b \<in> set ?d. in_block b r)" if "r \<in> set (row # rows)" for r
  proof
    assume "\<exists>b \<in> set live. in_block b r"
    then obtain b where b: "b \<in> set live" "in_block b r" by blast
    have "row \<le> r" using that Cons.prems(2) by auto
    then have "b \<notin> set (takeWhile (\<lambda>b. bm_end b \<le> row) live)"
      using b(2) by (auto dest: set_takeWhileD simp: in_block_def)
    with b show "\<exists>b \<in> set ?d. in_block b r" by (metis Un_iff set_append takeWhile_dropWhile_id)
  qed (auto dest: set_dropWhileD)
  have filt: "filter (\<lambda>r. (\<exists>b \<in> set live. in_block b r) \<and> ok r) (row # rows) =
      filter (\<lambda>r. (\<exists>b \<in> set ?d. in_block b r) \<and> ok r) (row # rows)"
    using later by (intro filter_cong) auto
  show ?case
  proof (cases ?d)
    case Nil
    show ?thesis unfolding filt by (simp add: Nil)
  next
    case (Cons b bs)
    have nb: "row < bm_end b" using Cons by (metis hd_dropWhile list.distinct(1) list.sel(1) not_le)
    have IH: "cand_walk ok (b # bs) rows = filter (\<lambda>r. (\<exists>b \<in> set ?d. in_block b r) \<and> ok r) rows"
      using Cons.IH [of ?d] sd Cons.prems(2) Cons by simp
    have "(\<exists>b \<in> set ?d. in_block b row) \<longleftrightarrow> bm_start b \<le> row"
    proof
      assume "\<exists>b \<in> set ?d. in_block b row"
      then obtain b' where b': "b' \<in> set (b # bs)" "in_block b' row" using Cons by auto
      then show "bm_start b \<le> row" using sd nb Cons by (auto simp: in_block_def)
    next
      assume "bm_start b \<le> row"
      then show "\<exists>b \<in> set ?d. in_block b row" using nb Cons by (auto simp: in_block_def)
    qed
    then have "(\<exists>b \<in> set ?d. in_block b row) \<longleftrightarrow> \<not> row < bm_start b" by (simp add: not_less)
    then show ?thesis unfolding filt by (simp add: IH Cons)
  qed
qed simp

lemma block_walk_eq:
  assumes s: "sorted_wrt (\<lambda>a b. bm_end a \<le> bm_start b) live"
    and e: "\<forall>b \<in> set live. bm_end b \<le> n"
  shows "concat (map (\<lambda>b. filter P [bm_start b..<bm_end b]) live) =
         filter (\<lambda>i. (\<exists>b \<in> set live. in_block b i) \<and> P i) [0..<n]"
proof (rule strict_sorted_eqI)
  show "sorted_wrt (<) (concat (map (\<lambda>b. filter P [bm_start b..<bm_end b]) live))"
    using s
  proof (induction live)
    case (Cons b live)
    then show ?case
      by (force simp: sorted_wrt_append sorted_wrt_filter)
  qed simp
  show "sorted_wrt (<) (filter (\<lambda>i. (\<exists>b \<in> set live. in_block b i) \<and> P i) [0..<n])"
    by (rule sorted_wrt_filter) simp
  show "set (concat (map (\<lambda>b. filter P [bm_start b..<bm_end b]) live)) =
        set (filter (\<lambda>i. (\<exists>b \<in> set live. in_block b i) \<and> P i) [0..<n])"
    using e by (auto simp: in_block_def)
qed

section \<open>Candidates\<close>

definition tm_ok :: "unicode \<Rightarrow> rstr option \<Rightarrow> Record \<Rightarrow> bool" where
  "tm_ok U tm r =
     (case tm of None \<Rightarrow> True | Some q \<Rightarrow> text_contains_all U (rec_text r) (fts_tokens U q))"

definition in_lists :: "nat list list option \<Rightarrow> nat \<Rightarrow> bool" where
  "in_lists ll i = (case ll of None \<Rightarrow> True | Some pls \<Rightarrow> \<forall>l \<in> set pls. i \<in> set l)"

definition lists_ok :: "nat \<Rightarrow> nat list list option \<Rightarrow> bool" where
  "lists_ok n ll =
     (case ll of None \<Rightarrow> True
      | Some pls \<Rightarrow> pls \<noteq> [] \<and> (\<forall>l \<in> set pls. sorted_wrt (<) l \<and> (\<forall>i \<in> set l. i < n)))"

lemma intersect_filter:
  assumes "pls \<noteq> []" and "\<forall>l \<in> set pls. sorted_wrt (<) l" and "\<exists>l \<in> set pls. \<forall>i \<in> set l. i < n"
  shows "intersect_ascending pls = filter (\<lambda>i. \<forall>l \<in> set pls. i \<in> set l) [0..<n]"
proof (rule strict_sorted_eqI)
  show "sorted_wrt (<) (intersect_ascending pls)" by (rule intersect_ascending_spec(1) [OF assms(1,2)])
  show "sorted_wrt (<) (filter (\<lambda>i. \<forall>l \<in> set pls. i \<in> set l) [0..<n])"
    by (rule sorted_wrt_filter) simp
  show "set (intersect_ascending pls) = set (filter (\<lambda>i. \<forall>l \<in> set pls. i \<in> set l) [0..<n])"
    using intersect_ascending_spec(2) [OF assms(1,2)] assms(3) by auto
qed

lemma candidate_rows_eq:
  assumes inv: "index_ok U idx rs" and ll: "lists_ok (length rs) ll" and some: "tm \<noteq> None \<or> ll \<noteq> None"
  shows "candidate_rows U idx tm ll = filter (\<lambda>i. tm_ok U tm (rs ! i) \<and> in_lists ll i) [0..<length rs]"
proof (cases ll)
  case None
  then obtain q where "tm = Some q" using some by auto
  then show ?thesis
    using None rows_matching_all_oracle [OF inv] by (simp add: candidate_rows_def tm_ok_def in_lists_def)
next
  case (Some pls)
  note P = ll [unfolded lists_ok_def Some option.simps]
  show ?thesis
  proof (cases tm)
    case None
    then show ?thesis
      using Some P intersect_filter [of pls "length rs"]
      by (cases pls) (auto simp: candidate_rows_def tm_ok_def in_lists_def)
  next
    case (Some q)
    let ?want = "fts_tokens U q"
    show ?thesis
    proof (cases "?want = [] \<or> collect_lists idx ?want = None")
      case True
      have "\<not> text_contains_all U (rec_text (rs ! i)) ?want" if "i < length rs" for i
        using True collect_lists_none_oracle [OF inv _ that]
        by (cases "?want = []") (simp_all add: text_contains_all_def [of _ _ "[]"])
      then show ?thesis
        using True \<open>ll = Some pls\<close> Some
        by (auto simp: candidate_rows_def tm_ok_def Let_def filter_empty_conv split: option.splits)
    next
      case False
      then obtain ls where c: "collect_lists idx ?want = Some ls" and w: "?want \<noteq> []" by auto
      note C = collect_lists_oracle [OF inv w c]
      obtain l0 where l0: "l0 \<in> set pls" using P by (cases pls) auto
      have "candidate_rows U idx tm ll = intersect_ascending (pls @ ls)"
        using w c Some \<open>ll = Some pls\<close> by (simp add: candidate_rows_def Let_def)
      also have "\<dots> = filter (\<lambda>i. \<forall>l \<in> set (pls @ ls). i \<in> set l) [0..<length rs]"
        using P C(1) l0 by (intro intersect_filter) auto
      also have "\<dots> = filter (\<lambda>i. tm_ok U tm (rs ! i) \<and> in_lists ll i) [0..<length rs]"
        using C(3) Some \<open>ll = Some pls\<close> by (intro filter_cong) (auto simp: tm_ok_def in_lists_def)
      finally show ?thesis .
    qed
  qed
qed

lemma like_candidate_lists_ok:
  assumes inv: "index_ok U idx rs" and t: "sc_tokens c = Some idx"
  shows "lists_ok (length rs) (like_candidate_lists U c p)"
  using constraint_lists_sorted [OF inv, of "[]" "like_constraints U p"]
    constraint_lists_bounded [OF inv, of "[]" "like_constraints U p"] t
  by (auto simp: lists_ok_def like_candidate_lists_def Let_def)

lemma like_candidate_lists_sound:
  assumes U: "unicode_ok U" and inv: "index_ok U idx rs" and t: "sc_tokens c = Some idx"
    and i: "i < length rs" and d: "rec_text (rs ! i) = Some d" and m: "like_match p d"
  shows "in_lists (like_candidate_lists U c p) i"
proof -
  have "\<forall>c \<in> set (like_constraints U p). satisfies (fts_tokens U d) c"
    using like_constraints_sound [OF U m] by blast
  then have "\<forall>l \<in> set (constraint_lists idx (like_constraints U p) []). i \<in> set l"
    by (rule constraint_lists_sound [OF i d _ _ inv]) simp
  then show ?thesis using t by (auto simp: in_lists_def like_candidate_lists_def Let_def)
qed

section \<open>Row selection is the oracle\<close>

lemma live_block:
  assumes c: "cols_ok U X file need c rs" and i: "i < length rs"
    and l: "resolve_labels (sc_labels c) (qs_labels spec) = Some (lreqs, dp)"
    and n: "resolve_numerics (sc_numerics c) (qs_numeric_ranges spec) = Some nreqs"
  shows "(\<exists>b \<in> set (filter (\<lambda>b. block_may_match b spec dp) (sc_blocks c)). in_block b i) \<and>
           row_ok c spec lreqs nreqs i \<longleftrightarrow> matches_fields spec (rs ! i)"
proof -
  obtain b where "b \<in> set (sc_blocks c)" "in_block b i"
    using c i by (auto simp: cols_ok_def blocks_ok_def)
  then show ?thesis
    using block_may_match_sound [OF c i l n] row_ok_iff [OF c i l n] by auto
qed

lemma rows_by_columns_eq:
  assumes U: "unicode_ok U" and c: "cols_ok U X file need c rs"
    and need: "qs_text_match spec \<noteq> None \<Longrightarrow> need"
  shows "\<exists>Q. rows_by_columns U c spec =
              filter (\<lambda>i. matches_fields spec (rs ! i) \<and> text_match_ok U spec (rs ! i) \<and> Q i) [0..<length rs] \<and>
            (\<forall>i < length rs. text_like_ok spec (rs ! i) \<longrightarrow> Q i)"
proof (cases "resolve_labels (sc_labels c) (qs_labels spec) = None \<or>
              resolve_numerics (sc_numerics c) (qs_numeric_ranges spec) = None")
  case True
  have "\<not> matches_fields spec (rs ! i)" if "i < length rs" for i
    using True c that resolve_labels_None [of "sc_labels c" "qs_labels spec" rs i]
      resolve_numerics_None [of "sc_numerics c" "qs_numeric_ranges spec" rs i]
    by (auto simp: matches_fields_def cols_ok_def)
  moreover have "rows_by_columns U c spec = []"
    using True by (auto simp: rows_by_columns_def split: option.splits)
  ultimately show ?thesis by (intro exI [of _ "\<lambda>_. True"]) (auto simp: filter_empty_conv)
next
  case False
  then obtain lreqs dp nreqs where
      l: "resolve_labels (sc_labels c) (qs_labels spec) = Some (lreqs, dp)"
    and n: "resolve_numerics (sc_numerics c) (qs_numeric_ranges spec) = Some nreqs" by auto
  define live where "live = filter (\<lambda>b. block_may_match b spec dp) (sc_blocks c)"
  define ll where "ll = (case qs_text_like spec of None \<Rightarrow> None | Some p \<Rightarrow> like_candidate_lists U c p)"
  have lb: "(\<exists>b \<in> set live. in_block b i) \<and> row_ok c spec lreqs nreqs i \<longleftrightarrow> matches_fields spec (rs ! i)"
    if "i < length rs" for i
    unfolding live_def by (rule live_block [OF c that l n])
  have s: "sorted_wrt (\<lambda>a b. bm_end a \<le> bm_start b) live" "\<forall>b \<in> set live. bm_end b \<le> length rs"
    using c by (auto simp: live_def cols_ok_def blocks_ok_def sorted_wrt_filter)
  have n32: "length rs < 2 ^ 32" using c by (simp add: cols_ok_def)
  have eq: "rows_by_columns U c spec =
      (if qs_text_match spec \<noteq> None \<or> ll \<noteq> None then
         (case sc_tokens c of None \<Rightarrow> []
          | Some idx \<Rightarrow> cand_walk (row_ok c spec lreqs nreqs) live (candidate_rows U idx (qs_text_match spec) ll))
       else concat (map (\<lambda>b. map as_u32 (filter (row_ok c spec lreqs nreqs) [bm_start b..<bm_end b])) live))"
    by (simp only: rows_by_columns_def l n option.simps prod.case Let_def live_def [symmetric]
        ll_def [symmetric])
  show ?thesis
  proof (cases "qs_text_match spec \<noteq> None \<or> ll \<noteq> None")
    case False
    have "map as_u32 (filter P [bm_start b..<bm_end b]) = filter P [bm_start b..<bm_end b]"
      if "b \<in> set live" for P b
      using s(2) that n32 by (intro map_idI) (auto intro!: as_u32_id)
    then have "rows_by_columns U c spec =
        concat (map (\<lambda>b. filter (row_ok c spec lreqs nreqs) [bm_start b..<bm_end b]) live)"
      using eq False by (simp cong: map_cong)
    also have "\<dots> = filter (\<lambda>i. matches_fields spec (rs ! i)) [0..<length rs]"
      unfolding block_walk_eq [OF s] using lb by (intro filter_cong) auto
    finally show ?thesis
      using False by (intro exI [of _ "\<lambda>_. True"]) (simp add: text_match_ok_def)
  next
    case True
    show ?thesis
    proof (cases "sc_tokens c")
      case None
      have tm: "qs_text_match spec \<noteq> None"
        using True None by (auto simp: ll_def like_candidate_lists_def split: option.splits)
      moreover have "\<forall>r \<in> set rs. rec_text r = None"
        using c None need [OF tm] by (simp add: cols_ok_def tokens_ok_def)
      ultimately have "\<not> text_match_ok U spec (rs ! i)" if "i < length rs" for i
        using that by (auto simp: text_match_ok_def text_contains_all_def split: if_splits)
      then show ?thesis
        using eq True None by (intro exI [of _ "\<lambda>_. True"]) (auto simp: filter_empty_conv)
    next
      case (Some idx)
      then have inv: "index_ok U idx rs" using c by (simp add: cols_ok_def tokens_ok_def)
      have lok: "lists_ok (length rs) ll"
        using like_candidate_lists_ok [OF inv Some]
        by (cases "qs_text_like spec") (simp_all add: ll_def lists_ok_def [of _ None])
      note cr = candidate_rows_eq [OF inv lok True]
      have "rows_by_columns U c spec = filter (\<lambda>row. (\<exists>b \<in> set live. in_block b row) \<and> row_ok c spec lreqs nreqs row)
          (filter (\<lambda>i. tm_ok U (qs_text_match spec) (rs ! i) \<and> in_lists ll i) [0..<length rs])"
        using eq True Some cand_walk_eq [OF s(1)] by (simp add: cr sorted_wrt_filter)
      also have "\<dots> = filter (\<lambda>i. matches_fields spec (rs ! i) \<and> text_match_ok U spec (rs ! i) \<and> in_lists ll i)
          [0..<length rs]"
        unfolding filter_filter using lb by (intro filter_cong) (auto simp: tm_ok_def text_match_ok_def)
      finally have "rows_by_columns U c spec = filter (\<lambda>i. matches_fields spec (rs ! i) \<and>
          text_match_ok U spec (rs ! i) \<and> in_lists ll i) [0..<length rs]" .
      moreover have "in_lists ll i" if i: "i < length rs" and tl: "text_like_ok spec (rs ! i)" for i
        using tl like_candidate_lists_sound [OF U inv Some i]
        by (auto simp: ll_def text_like_ok_def in_lists_def [of None] split: option.splits)
      ultimately show ?thesis by blast
    qed
  qed
qed

lemma like_filter_eq:
  assumes "\<And>i. i \<in> set rows \<Longrightarrow> text_at X file c i = Inr (rec_text (rs ! i))"
  shows "like_filter X file c p rows =
           Inr (filter (\<lambda>i. case rec_text (rs ! i) of None \<Rightarrow> False | Some t \<Rightarrow> like_match p t) rows)"
  using assms by (induction rows) (auto split: option.splits)

lemma matching_rows_eq:
  assumes U: "unicode_ok U" and c: "cols_ok U X file need c rs"
    and need: "qs_text_match spec \<noteq> None \<Longrightarrow> need"
  shows "matching_rows U X file c spec = Inr (filter (\<lambda>i. matches U spec (rs ! i)) [0..<length rs])"
proof -
  obtain Q where Q: "rows_by_columns U c spec =
        filter (\<lambda>i. matches_fields spec (rs ! i) \<and> text_match_ok U spec (rs ! i) \<and> Q i) [0..<length rs]"
      "\<forall>i < length rs. text_like_ok spec (rs ! i) \<longrightarrow> Q i"
    using rows_by_columns_eq [OF U c need, of spec] by blast
  have tx: "text_at X file c i = Inr (rec_text (rs ! i))" if "i < length rs" for i
    using c that by (simp add: cols_ok_def texts_ok_def)
  show ?thesis
  proof (cases "qs_text_like spec")
    case None
    have "filter (\<lambda>i. matches_fields spec (rs ! i) \<and> text_match_ok U spec (rs ! i) \<and> Q i) [0..<length rs] =
          filter (\<lambda>i. matches U spec (rs ! i)) [0..<length rs]"
      using Q(2) None by (intro filter_cong) (auto simp: matches_def text_like_ok_def)
    then show ?thesis using None Q(1) by (simp add: matching_rows_def)
  next
    case (Some p)
    show ?thesis
    proof (cases "sc_texts c")
      case None
      then have "\<forall>r \<in> set rs. rec_text r = None" using c by (simp add: cols_ok_def texts_ok_def)
      then have "\<not> matches U spec (rs ! i)" if "i < length rs" for i
        using that Some by (simp add: matches_def text_like_ok_def)
      then show ?thesis using None Some by (simp add: matching_rows_def filter_empty_conv)
    next
      case (Some t)
      have "like_filter X file c p (rows_by_columns U c spec) =
          Inr (filter (\<lambda>i. matches U spec (rs ! i)) [0..<length rs])"
        unfolding Q(1) using Q(2) \<open>qs_text_like spec = Some p\<close>
        by (subst like_filter_eq [where rs = rs])
           (auto simp: tx matches_def text_like_ok_def intro!: filter_cong)
      then show ?thesis using Some \<open>qs_text_like spec = Some p\<close> by (simp add: matching_rows_def)
    qed
  qed
qed

end
