(* ===== verification/Columns_Build.thy ===== *)
theory Columns_Build
  imports Row_Match
begin

text \<open>
  Columns built from a key-sorted list of records stand for it: the label plans, the numeric
  columns, the block index and the token index of \<open>from_records\<close> satisfy \<open>cols_ok\<close>. The facts on
  label plans, blocks and tokens serve the on-disk format too, which stores the same columns.
\<close>

section \<open>Segments' inputs\<close>

text \<open>What Rust's types guarantee of a record: its strings are strings, its time an \<^verbatim>\<open>i64\<close>.\<close>

definition record_ok :: "Record \<Rightarrow> bool" where
  "record_ok r \<longleftrightarrow>
     str_ok (rec_key r) \<and> i64_ok (rec_timestamp r) \<and>
     (\<forall>k v. fmlookup (rec_labels r) k = Some v \<longrightarrow> str_ok k \<and> str_ok v) \<and>
     (\<forall>k v. fmlookup (rec_numerics r) k = Some v \<longrightarrow> str_ok k) \<and>
     (\<forall>t. rec_text r = Some t \<longrightarrow> str_ok t)"

text \<open>What a segment is written from: strictly key-sorted records, fewer than \<^verbatim>\<open>u32::MAX\<close>.\<close>

definition seg_records :: "Record list \<Rightarrow> bool" where
  "seg_records rs \<longleftrightarrow>
     sorted_wrt (<) (map rec_key rs) \<and> length rs < 2 ^ 32 \<and> (\<forall>r \<in> set rs. record_ok r)"

section \<open>Keys\<close>

lemma str_slice_concat:
  assumes "i < length ss" and "\<forall>s \<in> set ss. str_ok s"
  shows "str_slice (concat (map as_bytes ss)) (run_offsets 0 (map length (map as_bytes ss)) ! i)
           (run_offsets 0 (map length (map as_bytes ss)) ! Suc i) = ss ! i"
proof -
  let ?ls = "map length (map as_bytes ss)"
  have "run_offsets 0 ?ls ! Suc i - run_offsets 0 ?ls ! i = length (as_bytes (ss ! i))"
    using assms(1) run_offsets_diff [of i ?ls 0] by simp
  moreover have "run_offsets 0 ?ls ! i = sum_list (map length (take i (map as_bytes ss)))"
    using assms(1) by (simp add: run_offsets_nth take_map)
  ultimately have "take (run_offsets 0 ?ls ! Suc i - run_offsets 0 ?ls ! i)
      (drop (run_offsets 0 ?ls ! i) (concat (map as_bytes ss))) = as_bytes (ss ! i)"
    using slice_concat [of i "map as_bytes ss"] assms(1) by simp
  then show ?thesis using assms by (simp add: str_slice_def from_utf8_as_bytes del: map_map)
qed

section \<open>Dictionaries\<close>

lemma fold_fmupd_lookup:
  "distinct (map fst es) \<Longrightarrow>
   fmlookup (fold (\<lambda>(k, v). fmupd k v) es m) x = (case map_of es x of None \<Rightarrow> fmlookup m x | Some v \<Rightarrow> Some v)"
proof (induction es arbitrary: m)
  case (Cons e es)
  obtain k v where e: "e = (k, v)" by fastforce
  have "map_of es k = None" using Cons.prems e by (simp add: map_of_eq_None_iff)
  then show ?case using Cons by (auto simp: e split: option.splits)
qed simp

lemma fold_fmupd_names:
  "distinct (map f xs) \<Longrightarrow>
   fmlookup (fold (\<lambda>x. fmupd (f x) (g x)) xs m) k =
     (case find (\<lambda>x. f x = k) xs of None \<Rightarrow> fmlookup m k | Some x \<Rightarrow> Some (g x))"
proof (induction xs arbitrary: m)
  case (Cons x xs)
  have "find (\<lambda>y. f y = f x) xs = None" using Cons.prems
    by (simp add: find_None_iff) (metis image_eqI)
  then show ?case using Cons by (auto split: option.splits)
qed simp

lemma dict_codes_iff:
  assumes d: "distinct dict" and l: "length dict \<le> DICT_MAX"
  shows "fmlookup (dict_codes dict) v = Some c \<longleftrightarrow> 1 \<le> c \<and> c \<le> length dict \<and> dict ! (c - 1) = v"
proof -
  let ?cs = "map (\<lambda>i. as_u16 (i + 1)) [0..<length dict]"
  have id: "?cs = map Suc [0..<length dict]"
    using l by (auto simp: DICT_MAX_def)
  have "fmlookup (dict_codes dict) v = map_of (zip dict ?cs) v"
  proof -
    have dist: "distinct (map fst (zip dict ?cs))" using d by simp
    show ?thesis
      unfolding dict_codes_def fold_fmupd_lookup [OF dist]
      by (cases "map_of (zip dict ?cs) v") (simp_all only: option.simps fmempty_lookup)
  qed
  moreover have "map_of (zip dict ?cs) v = Some c \<longleftrightarrow> (\<exists>i < length dict. dict ! i = v \<and> Suc i = c)"
    unfolding id using d by (auto simp: in_set_zip)
  ultimately have "fmlookup (dict_codes dict) v = Some c \<longleftrightarrow> (\<exists>i < length dict. dict ! i = v \<and> Suc i = c)"
    by simp
  also have "\<dots> \<longleftrightarrow> 1 \<le> c \<and> c \<le> length dict \<and> dict ! (c - 1) = v"
    by (cases c) auto
  finally show ?thesis .
qed

lemma set_label_values:
  "v \<in> set (label_values rs name) \<longleftrightarrow> (\<exists>r \<in> set rs. fmlookup (rec_labels r) name = Some v)"
  by (auto simp: label_values_def List.map_filter_def) force

lemma label_values_distinct [simp]: "distinct (label_values rs name)"
  by (simp add: label_values_def)

section \<open>Label columns\<close>

definition plan_codes :: "Record list \<Rightarrow> rstr \<Rightarrow> nat list" where
  "plan_codes rs name =
     map (\<lambda>r. case fmlookup (rec_labels r) name of
                None \<Rightarrow> 0
              | Some v \<Rightarrow> (case fmlookup (dict_codes (label_values rs name)) v of None \<Rightarrow> 0 | Some c \<Rightarrow> c)) rs"

lemma label_plan_eq:
  "lp_name (label_plan rs name) = name"
  "lp_mode (label_plan rs name) =
     (if length (label_values rs name) \<le> DICT_MAX then ModeDict (label_values rs name) (plan_codes rs name)
      else ModePlain)"
  by (simp_all add: label_plan_def Let_def plan_codes_def)

lemma plan_codes_bound:
  assumes "length (label_values rs name) \<le> DICT_MAX"
  shows "\<forall>c \<in> set (plan_codes rs name). c \<le> length (label_values rs name)"
  using dict_codes_iff [OF label_values_distinct assms]
  by (auto simp: plan_codes_def split: option.splits)

lemma dict_column_ok:
  assumes l: "length (label_values rs name) \<le> DICT_MAX"
  shows "label_col_ok (LabelDict (label_values rs name) (dict_codes (label_values rs name)) (plan_codes rs name))
           (\<lambda>i. fmlookup (rec_labels (rs ! i)) name) (length rs)"
proof -
  let ?d = "label_values rs name"
  note D = dict_codes_iff [OF label_values_distinct l]
  have row: "case fmlookup (rec_labels (rs ! i)) name of
        None \<Rightarrow> plan_codes rs name ! i = 0
      | Some v \<Rightarrow> fmlookup (dict_codes ?d) v = Some (plan_codes rs name ! i) \<and>
                  ?d ! (plan_codes rs name ! i - 1) = v"
    if i: "i < length rs" for i
  proof (cases "fmlookup (rec_labels (rs ! i)) name")
    case (Some v)
    then have "v \<in> set ?d" using i by (auto simp: set_label_values)
    then obtain j where j: "j < length ?d" "?d ! j = v" by (auto simp: in_set_conv_nth)
    then have "fmlookup (dict_codes ?d) v = Some (Suc j)" using D [of v "Suc j"] by simp
    then show ?thesis using Some i j by (simp add: plan_codes_def)
  qed (use i in \<open>simp add: plan_codes_def\<close>)
  show ?thesis unfolding label_col_ok.simps using row D by auto
qed

lemma set_label_names: "name \<in> set (label_names rs) \<longleftrightarrow> (\<exists>r \<in> set rs. fmlookup (rec_labels r) name \<noteq> None)"
  by (auto simp: label_names_def fmlookup_dom_iff)

lemma set_numeric_names:
  "name \<in> set (numeric_names rs) \<longleftrightarrow> (\<exists>r \<in> set rs. fmlookup (rec_numerics r) name \<noteq> None)"
  by (auto simp: numeric_names_def fmlookup_dom_iff)

lemma plan_names [simp]: "map lp_name (plan_labels rs) = label_names rs"
  by (simp add: plan_labels_def comp_def label_plan_eq)

lemma distinct_label_names [simp]: "distinct (label_names rs)"
  by (simp add: label_names_def)

lemma distinct_numeric_names [simp]: "distinct (numeric_names rs)"
  by (simp add: numeric_names_def)

lemma find_plan:
  "find (\<lambda>p. lp_name p = k) (plan_labels rs) = (if k \<in> set (label_names rs) then Some (label_plan rs k) else None)"
proof -
  have "find (\<lambda>p. lp_name p = k) (map (label_plan rs) ns) = (if k \<in> set ns then Some (label_plan rs k) else None)"
    for ns by (induction ns) (auto simp: label_plan_eq)
  then show ?thesis by (simp add: plan_labels_def)
qed

lemma label_column_ok:
  "label_col_ok (label_column rs (label_plan rs name)) (\<lambda>i. fmlookup (rec_labels (rs ! i)) name) (length rs)"
  using dict_column_ok [of rs name] by (simp add: label_column_def label_plan_eq)

lemma plans_lookup:
  "fmlookup (fold (\<lambda>plan. fmupd (lp_name plan) (label_column rs plan)) (plan_labels rs) fmempty) k =
     (if k \<in> set (label_names rs) then Some (label_column rs (label_plan rs k)) else None)"
  by (subst fold_fmupd_names) (simp_all add: find_plan)

lemma labels_ok_build:
  assumes "\<And>k. fmlookup cols k = (if k \<in> set (label_names rs) then Some (label_column rs (label_plan rs k)) else None)"
  shows "labels_ok cols rs"
  using assms label_column_ok by (auto simp: labels_ok_def set_label_names)

section \<open>Numeric columns\<close>

lemma find_name: "find (\<lambda>x. x = k) xs = (if k \<in> set xs then Some k else None)"
  by (induction xs) auto

lemma numeric_names_lookup:
  "fmlookup (fold (\<lambda>name. fmupd name (numeric_column rs name)) (numeric_names rs) fmempty) k =
     (if k \<in> set (numeric_names rs) then Some (numeric_column rs k) else None)"
  using fold_fmupd_names [of "\<lambda>x. x" "numeric_names rs" "numeric_column rs" fmempty k]
  by (simp add: find_name)

lemma numeric_column_ok:
  "numeric_col_ok (numeric_column rs name) (\<lambda>i. fmlookup (rec_numerics (rs ! i)) name) (length rs)"
  by (auto simp: numeric_col_ok_def numeric_column_def split: option.splits)

lemma numerics_ok_build:
  assumes "\<And>k. fmlookup cols k = (if k \<in> set (numeric_names rs) then Some (numeric_column rs k) else None)"
  shows "numerics_ok cols rs"
  using assms numeric_column_ok by (auto simp: numerics_ok_def set_numeric_names)

section \<open>The block index\<close>

lemma fold_min_le: "fold (\<lambda>r m. min m (f r)) rs m0 \<le> (m0 :: int)"
proof (induction rs arbitrary: m0)
  case (Cons a rs)
  show ?case using Cons [of "min m0 (f a)"] by simp
qed simp

lemma fold_min_mem: "r \<in> set rs \<Longrightarrow> fold (\<lambda>r m. min m (f r)) rs m0 \<le> (f r :: int)"
proof (induction rs arbitrary: m0)
  case (Cons a rs)
  then show ?case using fold_min_le [of f rs "min m0 (f a)"] by auto
qed simp

lemma fold_max_ge: "(m0 :: int) \<le> fold (\<lambda>r m. max m (f r)) rs m0"
proof (induction rs arbitrary: m0)
  case (Cons a rs)
  show ?case using Cons [of "max m0 (f a)"] by simp
qed simp

lemma fold_max_mem: "r \<in> set rs \<Longrightarrow> (f r :: int) \<le> fold (\<lambda>r m. max m (f r)) rs m0"
proof (induction rs arbitrary: m0)
  case (Cons a rs)
  then show ?case using fold_max_ge [of "max m0 (f a)" f rs] by auto
qed simp

lemma block_numeric_mono: "numeric_covered m n v \<Longrightarrow> numeric_covered (block_numeric e m) n v"
  by (cases e)
     (auto simp: numeric_covered_def block_numeric_def f64_min_le_mono f64_max_ge_mono
       split: option.splits prod.splits)

lemma block_numeric_own: "numeric_covered (block_numeric (n, v) m) n v"
  by (cases "is_nan v")
     (auto simp: numeric_covered_def block_numeric_def f64_min_le2 f64_max_ge2
       split: option.splits prod.splits)

lemma fold_block_numeric_mono: "numeric_covered m n v \<Longrightarrow> numeric_covered (fold block_numeric es m) n v"
  by (induction es arbitrary: m) (auto simp: block_numeric_mono)

lemma fold_block_numeric_own: "(n, v) \<in> set es \<Longrightarrow> numeric_covered (fold block_numeric es m) n v"
  by (induction es arbitrary: m) (auto simp: block_numeric_own fold_block_numeric_mono)

lemma fold_rows_mono:
  "numeric_covered m n v \<Longrightarrow>
   numeric_covered (fold (\<lambda>r. fold block_numeric (bt_entries (rec_numerics r))) rows m) n v"
  by (induction rows arbitrary: m) (auto simp: fold_block_numeric_mono)

lemma fold_rows_own:
  "r \<in> set rows \<Longrightarrow> fmlookup (rec_numerics r) n = Some v \<Longrightarrow>
   numeric_covered (fold (\<lambda>r. fold block_numeric (bt_entries (rec_numerics r))) rows m) n v"
  by (induction rows arbitrary: m) (auto simp: fold_block_numeric_own fold_rows_mono)

lemma set_code_bit_mono: "bit w k \<Longrightarrow> bit (fold set_code_bit cs w) k"
  by (induction cs arbitrary: w) (auto simp: set_code_bit_def bit_or_iff)

lemma set_code_bit_own:
  "c \<in> set cs \<Longrightarrow> 1 \<le> c \<Longrightarrow> c \<le> BLOCK_BITSET_CODES \<Longrightarrow> bit (fold set_code_bit cs w) (c - 1)"
proof (induction cs arbitrary: w)
  case (Cons a cs)
  have "bit (set_code_bit c w) (c - 1)"
    using Cons.prems(2,3)
    by (auto simp: set_code_bit_def bit_or_iff BLOCK_BITSET_CODES_def bit_exp_iff)
  then show ?case using Cons by (auto intro: set_code_bit_mono)
qed simp

lemma fold_block_bitset:
  "distinct (map lp_name plans) \<Longrightarrow> fmlookup (fold (block_bitset s e) plans m) k = Some bits \<Longrightarrow>
   fmlookup m k = Some bits \<or>
   (\<exists>plan dict codes. plan \<in> set plans \<and> lp_name plan = k \<and> lp_mode plan = ModeDict dict codes \<and>
      bits = fold set_code_bit (take (e - s) (drop s codes)) 0)"
proof (induction plans arbitrary: m)
  case (Cons p plans)
  then have "fmlookup (block_bitset s e p m) k = Some bits \<or>
     (\<exists>plan dict codes. plan \<in> set plans \<and> lp_name plan = k \<and> lp_mode plan = ModeDict dict codes \<and>
      bits = fold set_code_bit (take (e - s) (drop s codes)) 0)" by simp
  then show ?case
    by (auto simp: block_bitset_def split: LabelMode.splits if_splits)
qed simp

lemma length_plan_codes [simp]: "length (plan_codes rs name) = length rs"
  by (simp add: plan_codes_def)

lemma build_block_bitsets:
  assumes cols: "\<And>k. fmlookup cols k = (if k \<in> set (label_names rs) then Some (label_column rs (label_plan rs k)) else None)"
    and i: "s \<le> i" "i < e" "e \<le> length rs"
  shows "bitsets_ok cols (build_block rs (plan_labels rs) s e) i"
  unfolding bitsets_ok_def
proof (intro allI impI)
  fix name bits dict code_of codes
  assume b: "fmlookup (bm_label_bitsets (build_block rs (plan_labels rs) s e)) name = Some bits"
    and c: "fmlookup cols name = Some (LabelDict dict code_of codes)"
    and r: "1 \<le> codes ! i" "codes ! i \<le> BLOCK_BITSET_CODES"
  obtain plan dict' codes' where p: "plan \<in> set (plan_labels rs)" "lp_name plan = name"
      "lp_mode plan = ModeDict dict' codes'" "bits = fold set_code_bit (take (e - s) (drop s codes')) 0"
    using b fold_block_bitset [of "plan_labels rs" s e fmempty name bits]
    by (auto simp: build_block_def Let_def)
  have "plan = label_plan rs name" using p(1,2) by (auto simp: plan_labels_def label_plan_eq)
  then have eq: "codes' = codes" "codes = plan_codes rs name"
    using p(3) c cols [of name] by (auto simp: label_column_def label_plan_eq split: if_splits)
  have "take (e - s) (drop s codes) ! (i - s) = codes ! i" using i eq(2) by simp
  moreover have "i - s < length (take (e - s) (drop s codes))" using i eq(2) by simp
  ultimately have "codes ! i \<in> set (take (e - s) (drop s codes))" by (metis nth_mem)
  then have "bit bits (codes ! i - 1)" using set_code_bit_own r p(4) eq(1) by blast
  then show "bits AND push_bit (codes ! i - 1) 1 \<noteq> 0" by (simp add: bit_iff_and_push_bit_not_eq_0)
qed

lemma build_block_covers:
  assumes cols: "\<And>k. fmlookup cols k = (if k \<in> set (label_names rs) then Some (label_column rs (label_plan rs k)) else None)"
    and sorted: "sorted_wrt (<) (map rec_key rs)"
    and i: "s \<le> i" "i < e" "e \<le> length rs"
  shows "block_covers cols (build_block rs (plan_labels rs) s e) i (rs ! i)"
proof -
  let ?rows = "take (e - s) (drop s rs)"
  have "?rows ! (i - s) = rs ! i" "i - s < length ?rows" using i by simp_all
  then have mem: "rs ! i \<in> set ?rows" by (metis nth_mem)
  have le: "rec_key (rs ! a) \<le> rec_key (rs ! b)" if "a \<le> b" "b < length rs" for a b
  proof (cases "a = b")
    case False
    then have "map rec_key rs ! a < map rec_key rs ! b"
      using sorted that False by (intro sorted_wrt_nth_less [of "(<)" "map rec_key rs" a b]) auto
    then show ?thesis using that by simp
  qed simp
  have "rec_key (rs ! s) \<le> rec_key (rs ! i)" "rec_key (rs ! i) \<le> rec_key (rs ! (e - 1))"
    using i by (auto intro!: le)
  then show ?thesis
    using mem fold_min_mem [OF mem, of rec_timestamp] fold_max_mem [OF mem, of rec_timestamp]
      fold_rows_own [OF mem] build_block_bitsets [OF cols i]
    by (simp add: block_covers_def build_block_def Let_def)
qed

text \<open>Consecutive blocks from \<open>s\<close> on.\<close>

lemma build_blocks_from_props:
  "length rs < 2 ^ 32 \<Longrightarrow>
   sorted_wrt (\<lambda>a b. bm_end a \<le> bm_start b) (build_blocks_from rs plans s) \<and>
   (\<forall>b \<in> set (build_blocks_from rs plans s). s \<le> bm_start b \<and> bm_start b < bm_end b \<and> bm_end b \<le> length rs \<and>
      b = build_block rs plans (bm_start b) (bm_end b)) \<and>
   (\<forall>i. s \<le> i \<and> i < length rs \<longrightarrow> (\<exists>b \<in> set (build_blocks_from rs plans s). in_block b i))"
proof (induction rs plans s rule: build_blocks_from.induct)
  case (1 rs plans s)
  show ?case
  proof (cases "s < length rs")
    case False
    then show ?thesis by (simp add: build_blocks_from.simps)
  next
    case True
    define e where "e = min (s + BLOCK_ROWS) (length rs)"
    define b where "b = build_block rs plans s e"
    have e: "s < e" "e \<le> length rs" using True by (auto simp: e_def BLOCK_ROWS_def)
    have eq: "build_blocks_from rs plans s = b # build_blocks_from rs plans e"
      using True by (simp add: build_blocks_from.simps [of rs plans s] Let_def e_def b_def)
    have b: "bm_start b = s" "bm_end b = e"
      using e "1.prems" by (simp_all add: b_def build_block_def Let_def)
    note IH = "1.IH" [OF True e_def "1.prems"]
    have "\<exists>b' \<in> set (build_blocks_from rs plans s). in_block b' i" if "s \<le> i" "i < length rs" for i
      using IH that b eq by (cases "i < e") (auto simp: in_block_def)
    then show ?thesis using IH b e by (auto simp: eq b_def)
  qed
qed

lemma blocks_ok_build:
  assumes cols: "\<And>k. fmlookup cols k = (if k \<in> set (label_names rs) then Some (label_column rs (label_plan rs k)) else None)"
    and sorted: "sorted_wrt (<) (map rec_key rs)" and len: "length rs < 2 ^ 32"
  shows "blocks_ok cols (build_blocks rs (plan_labels rs)) rs"
proof -
  note P = build_blocks_from_props [OF len, of "plan_labels rs" 0]
  have "block_covers cols b i (rs ! i)"
    if b: "b \<in> set (build_blocks rs (plan_labels rs))" and i: "in_block b i" for b i
  proof -
    have "b = build_block rs (plan_labels rs) (bm_start b) (bm_end b)" "bm_end b \<le> length rs"
      using P b unfolding build_blocks_def by blast+
    then show ?thesis using build_block_covers [OF cols sorted, of "bm_start b" i "bm_end b"] i
      by (simp add: in_block_def)
  qed
  then show ?thesis using P by (auto simp: blocks_ok_def build_blocks_def)
qed

section \<open>Columns from records\<close>

lemma from_records_ok:
  assumes "seg_records rs"
  shows "cols_ok U X file need (from_records U rs) rs"
proof -
  let ?c = "from_records U rs"
  have len: "length rs < 2 ^ 32" and sorted: "sorted_wrt (<) (map rec_key rs)"
    using assms by (simp_all add: seg_records_def)
  have keys: "key_at ?c i = rec_key (rs ! i)" if "i < length rs" for i
    using str_slice_concat [of i "map rec_key rs"] assms that
    by (simp add: key_at_def ks_key_at_def from_records_def Let_def comp_def seg_records_def record_ok_def)
  note cols = plans_lookup [of rs]
  have "labels_ok (sc_labels ?c) rs"
    using labels_ok_build [OF cols] by (simp add: from_records_def Let_def)
  moreover have "numerics_ok (sc_numerics ?c) rs"
    using numerics_ok_build [OF numeric_names_lookup] by (simp add: from_records_def Let_def)
  moreover have "blocks_ok (sc_labels ?c) (sc_blocks ?c) rs"
    using blocks_ok_build [OF cols sorted len] by (simp add: from_records_def Let_def)
  moreover have "tokens_ok U need (sc_tokens ?c) rs"
    using token_index_build_ok [OF len] by (auto simp: tokens_ok_def from_records_def Let_def list_ex_iff)
  moreover have "texts_ok X file ?c rs"
    by (auto simp: texts_ok_def text_at_def from_records_def Let_def list_ex_iff)
  moreover have "payloads_ok file ?c rs"
    by (simp add: payloads_ok_def payload_at_def from_records_def Let_def)
  ultimately show ?thesis
    using len keys by (simp add: cols_ok_def) (simp add: from_records_def Let_def)
qed

section \<open>Properties\<close>

definition sample_seg_ext :: seg_ext where
  "sample_seg_ext =
     \<lparr> rmp_to_vec = rmp_to_vec sample_ext, rmp_from_slice = rmp_from_slice sample_ext,
       crc32_hash = crc32_hash sample_ext, flate_deflate = (\<lambda>b. b), flate_inflate = Some \<rparr>"

definition sample_rows :: "Record list" where
  "sample_rows = [(sample_record [97])\<lparr> rec_text := Some (lit ''Hello world'') \<rparr>, sample_record [98]]"

lemma sample_rows_ok: "seg_records sample_rows"
  by (simp add: seg_records_def sample_rows_def sample_record_def record_ok_def str_ok_def is_scalar_def
      i64_ok_def i64_MIN_def i64_MAX_def lit_def)

text \<open>
  C2. Selecting rows from a segment's columns is the naive scan: over the columns built from
  key-sorted records, \<open>matching_rows\<close> -- dictionary codes, block pruning, postings intersection,
  LIKE candidates and verification -- returns, in order, exactly the rows whose record satisfies
  the oracle, and no error.
\<close>

theorem segment_rows_equal_naive_scan:
  assumes "unicode_ok U" and "seg_records rs"
  shows "matching_rows U X file (from_records U rs) spec =
           Inr (filter (\<lambda>i. matches U spec (rs ! i)) [0..<length rs])"
  using assms matching_rows_eq [OF assms(1) from_records_ok [OF assms(2), of U X "file" True]] by simp

theorem segment_rows_equal_naive_scan_witness:
  "matching_rows ascii_unicode sample_seg_ext None (from_records ascii_unicode sample_rows)
     (QuerySpec_default\<lparr> qs_text_match := Some (lit ''WORLD'') \<rparr>) = Inr [0]"
proof -
  have "matches ascii_unicode (QuerySpec_default\<lparr> qs_text_match := Some (lit ''WORLD'') \<rparr>) (sample_rows ! 0)"
    "\<not> matches ascii_unicode (QuerySpec_default\<lparr> qs_text_match := Some (lit ''WORLD'') \<rparr>) (sample_rows ! 1)"
    by (simp_all add: matches_def matches_fields_def text_match_ok_def text_like_ok_def time_ok_def
        QuerySpec_default_def sample_rows_def text_contains_all_def fts_tokens_def ascii_unicode_def lit_def
        is_ascii_alnum_def to_ascii_lower_def sample_record_def)
  then show ?thesis
    using segment_rows_equal_naive_scan [OF ascii_unicode_ok sample_rows_ok, of sample_seg_ext None]
    by (simp add: sample_rows_def upt_rec)
qed

text \<open>
  C25. A row read back is the record it was built from (or, under the \<open>omit_text\<close> projection, that
  record without its text): labels through dictionary codes or the plain fallback, numerics with
  their absences, payload and text.
\<close>

theorem segment_row_roundtrip:
  assumes "seg_records rs" and "i < length rs"
  shows "materialize X file (from_records U rs) i want_text =
           Inr (if want_text then rs ! i else (rs ! i)\<lparr> rec_text := None \<rparr>)"
  using materialize_ok [OF from_records_ok [OF assms(1), of U X "file" True] assms(2)] .

theorem segment_row_roundtrip_witness:
  "materialize sample_seg_ext None (from_records ascii_unicode sample_rows) 1 True = Inr (sample_record [98])"
  using segment_row_roundtrip [OF sample_rows_ok, of 1 sample_seg_ext None ascii_unicode True]
  by (simp add: sample_rows_def)

text \<open>
  The binary search over a segment's key column finds a key exactly when some record has it,
  and then its row.
\<close>

lemma segment_find_key_exact:
  assumes "seg_records rs"
  shows "find_key (from_records U rs) k = Some i \<longleftrightarrow> i < length rs \<and> rec_key (rs ! i) = k"
  using find_key_ok [OF from_records_ok [OF assms, of U undefined None True]] assms
  by (simp add: seg_records_def)

lemma segment_find_key_exact_witness:
  "find_key (from_records ascii_unicode sample_rows) [98] = Some 1"
  using segment_find_key_exact [OF sample_rows_ok, of ascii_unicode "[98]" 1]
  by (simp add: sample_rows_def sample_record_def)

end
