(* ===== verification/Codec.thy ===== *)
theory Codec
  imports Columns_Build
begin

text \<open>
  The on-disk segment format (\<^verbatim>\<open>src/src/segment.rs\<close>): encoding records into a version 2
  file, the whole-file decoders and the targeted section readers. MessagePack of the block index,
  of the footer directory and of version 1 record lists is third-party code: fields of
  \<open>codec_ext\<close>.
\<close>

section \<open>Third-party code\<close>

record SectionEntry =
  se_kind :: nat
  se_name :: rstr
  se_offset :: nat
  se_len :: nat
  se_crc :: nat

record SectionDir =
  sd_count :: nat
  sd_entries :: "SectionEntry list"

record codec_ext = seg_ext +
  rmp_blocks_to_vec :: "BlockMeta list \<Rightarrow> rstr + byte list"
  rmp_blocks_from_slice :: "byte list \<Rightarrow> rstr + BlockMeta list"
  rmp_dir_to_vec :: "SectionDir \<Rightarrow> rstr + byte list"
  rmp_dir_from_slice :: "byte list \<Rightarrow> rstr + SectionDir"
  rmp_records_from_slice :: "byte list \<Rightarrow> rstr + Record list"

section \<open>Constants\<close>

definition MAGIC :: nat where "MAGIC = 0x67697264"
definition VERSION_V1 :: nat where "VERSION_V1 = 1"
definition VERSION_V2 :: nat where "VERSION_V2 = 2"
definition K_KEYS :: nat where "K_KEYS = 0"
definition K_TS :: nat where "K_TS = 1"
definition K_LABEL :: nat where "K_LABEL = 2"
definition K_NUMERIC :: nat where "K_NUMERIC = 3"
definition K_PAYLOAD :: nat where "K_PAYLOAD = 4"
definition K_BLOCKS :: nat where "K_BLOCKS = 5"
definition K_TEXT :: nat where "K_TEXT = 6"
definition K_TOKENS :: nat where "K_TOKENS = 7"

definition TEXT_COMPRESS_MIN :: nat where "TEXT_COMPRESS_MIN = 512"
definition TEXT_POISON :: "byte list" where "TEXT_POISON = [33, 50]"
definition TEXT_V2_NAME :: rstr where "TEXT_V2_NAME = lit ''z2''"
definition TEXT_V2_VERSION :: nat where "TEXT_V2_VERSION = 2"
definition TOKENS_V2_SENTINEL :: nat where "TOKENS_V2_SENTINEL = 2 ^ 32 - 1"
definition TOKENS_VERSION :: nat where "TOKENS_VERSION = 2"

section \<open>Encoding\<close>

type_synonym section_out = "byte list \<times> SectionEntry list"

definition push_section ::
  "('x) wal_ext_scheme \<Rightarrow> nat \<times> rstr \<times> byte list \<Rightarrow> section_out \<Rightarrow> section_out" where
  "push_section X s st =
     (case s of (kind, name, body) \<Rightarrow>
      case st of (out, dir) \<Rightarrow>
        (out @ u32_le (crc32_hash X body) @ body,
         dir @ [\<lparr> se_kind = kind, se_name = name, se_offset = length out, se_len = length body,
                  se_crc = crc32_hash X body \<rparr>]))"

definition encode_strings :: "byte list list \<Rightarrow> byte list" where
  "encode_strings items =
     u32_le (length items) @ concat (map u64_le (run_offsets 0 (map length items))) @ concat items"

text \<open>\<^verbatim>\<open>presence[i / 8] |= 1 << (i % 8)\<close> for every listed row.\<close>

definition set_row_bit :: "nat \<Rightarrow> byte list \<Rightarrow> byte list" where
  "set_row_bit i p = p[i div 8 := p ! (i div 8) OR push_bit (i mod 8) 1]"

definition bitmap :: "nat \<Rightarrow> (nat \<Rightarrow> bool) \<Rightarrow> byte list" where
  "bitmap count P = fold set_row_bit (filter P [0..<count]) (replicate ((count + 7) div 8) 0)"

definition encode_label_column :: "Record list \<Rightarrow> LabelPlan \<Rightarrow> byte list" where
  "encode_label_column records plan =
     (case lp_mode plan of
        ModeDict dict codes \<Rightarrow>
          [0] @ u32_le (length dict) @
          concat (map (\<lambda>v. u32_le (length (as_bytes v)) @ as_bytes v) dict) @
          concat (map (le_bytes 2) codes)
      | ModePlain \<Rightarrow>
          [1] @
          bitmap (length records) (\<lambda>i. fmlookup (rec_labels (records ! i)) (lp_name plan) \<noteq> None) @
          encode_strings (map as_bytes
            (List.map_filter (\<lambda>r. fmlookup (rec_labels r) (lp_name plan)) records)))"

definition f64_le_bytes :: "f64 \<Rightarrow> byte list" where
  "f64_le_bytes v = u64_le (unat v)"

definition encode_numeric_column :: "Record list \<Rightarrow> rstr \<Rightarrow> byte list" where
  "encode_numeric_column records name =
     bitmap (length records) (\<lambda>i. fmlookup (rec_numerics (records ! i)) name \<noteq> None) @
     concat (map f64_le_bytes (List.map_filter (\<lambda>r. fmlookup (rec_numerics r) name) records))"

definition encode_payloads :: "Record list \<Rightarrow> byte list" where
  "encode_payloads records =
     concat (map u64_le (run_offsets 0 (map (\<lambda>r. length (rec_payload r)) records))) @
     concat (map rec_payload records)"

text \<open>One row's stored text: deflated when it is long enough and shrinks.\<close>

definition store_text :: "('x) seg_ext_scheme \<Rightarrow> rstr option \<Rightarrow> bool \<times> byte list" where
  "store_text X t =
     (case t of
        None \<Rightarrow> (False, [])
      | Some t \<Rightarrow>
          (let raw = as_bytes t in
           if TEXT_COMPRESS_MIN \<le> length raw then
             (let comp = flate_deflate X raw in
              if length comp < length raw then (True, comp) else (False, raw))
           else (False, raw)))"

definition encode_texts :: "('x) seg_ext_scheme \<Rightarrow> Record list \<Rightarrow> byte list" where
  "encode_texts X records =
     (let stored = map (\<lambda>r. store_text X (rec_text r)) records
      in u32_le TEXT_V2_VERSION @
         bitmap (length records) (\<lambda>i. rec_text (records ! i) \<noteq> None) @
         bitmap (length records) (\<lambda>i. fst (stored ! i)) @
         concat (map u64_le (run_offsets 0 (map (\<lambda>s. length (snd s)) stored))) @
         concat (map snd stored))"

fun encode_deltas :: "bool \<Rightarrow> nat \<Rightarrow> nat list \<Rightarrow> byte list" where
  "encode_deltas first prev [] = []"
| "encode_deltas first prev (row # rows) =
     varint_push (if first then row else row - prev) @ encode_deltas False row rows"

definition token_dir_entry :: "(rstr \<times> nat list) \<times> nat \<times> nat \<Rightarrow> byte list" where
  "token_dir_entry e =
     (case e of ((t, rows), (off, len)) \<Rightarrow>
        u32_le (length (as_bytes t)) @ as_bytes t @ u32_le (length rows) @ u32_le off @ u32_le len)"

definition encode_tokens :: "TokenIndex \<Rightarrow> byte list" where
  "encode_tokens idx =
     (case tki_postings idx of
        Lazy _ _ \<Rightarrow> []
      | Eager pls \<Rightarrow>
          (let spans = map (encode_deltas True 0) pls;
               lens = map length spans
           in u32_le TOKENS_V2_SENTINEL @ u32_le TOKENS_VERSION @ u32_le (length (tki_tokens idx)) @
              concat (map token_dir_entry
                (zip (zip (tki_tokens idx) pls) (zip (run_offsets 0 lens) lens))) @
              u32_le (length (concat spans)) @ concat spans))"

text \<open>The sections of a file, in the order they are pushed; the block index is the last.\<close>

definition v2_sections :: "unicode \<Rightarrow> ('x) seg_ext_scheme \<Rightarrow> Record list \<Rightarrow> (nat \<times> rstr \<times> byte list) list" where
  "v2_sections U X records =
     [(K_KEYS, [], encode_strings (map (\<lambda>r. as_bytes (rec_key r)) records)),
      (K_TS, [], concat (map (\<lambda>r. i64_le (rec_timestamp r)) records))] @
     map (\<lambda>plan. (K_LABEL, lp_name plan, encode_label_column records plan)) (plan_labels records) @
     map (\<lambda>name. (K_NUMERIC, name, encode_numeric_column records name)) (numeric_names records) @
     [(K_PAYLOAD, [], encode_payloads records)] @
     (if list_ex (\<lambda>r. rec_text r \<noteq> None) records then
        [(K_TEXT, [], TEXT_POISON), (K_TEXT, TEXT_V2_NAME, encode_texts X records),
         (K_TOKENS, [], encode_tokens (token_index_build U records))]
      else [])"

definition encode_v2 :: "unicode \<Rightarrow> ('x) codec_ext_scheme \<Rightarrow> Record list \<Rightarrow> byte list result" where
  "encode_v2 U X records =
     (case rmp_blocks_to_vec X (build_blocks records (plan_labels records)) of
        Inl e \<Rightarrow> Inl (Encode e)
      | Inr blocks_body \<Rightarrow>
          (case fold (push_section X) (v2_sections U X records @ [(K_BLOCKS, [], blocks_body)])
                  (u32_le MAGIC @ u32_le VERSION_V2, []) of
             (out, dir) \<Rightarrow>
               (case rmp_dir_to_vec X \<lparr> sd_count = length records, sd_entries = dir \<rparr> of
                  Inl e \<Rightarrow> Inl (Encode e)
                | Inr dir_body \<Rightarrow>
                    Inr (out @ dir_body @ u64_le (length out) @ u32_le (crc32_hash X dir_body) @
                         u32_le MAGIC))))"

section \<open>Section decoders\<close>

fun cur_many :: "(byte list \<Rightarrow> ('a \<times> byte list) result) \<Rightarrow> nat \<Rightarrow> byte list \<Rightarrow> ('a list \<times> byte list) result" where
  "cur_many f 0 c = Inr ([], c)"
| "cur_many f (Suc n) c =
     and_then (f c) (\<lambda>(x, c'). and_then (cur_many f n c') (\<lambda>(xs, c''). Inr (x # xs, c'')))"

definition decode_strings :: "byte list \<Rightarrow> (byte list \<times> nat list) result" where
  "decode_strings body =
     and_then (cur_u32 body) (\<lambda>(count, c).
     and_then (cur_many cur_u64 (count + 1) c) (\<lambda>(offsets, blob).
       if last offsets \<noteq> length blob then Inl (seg_corrupt ''string blob length mismatch'')
       else and_then (ok_or (from_utf8 blob) (seg_corrupt ''non-utf8 string column'')) (\<lambda>_.
         Inr (blob, offsets))))"

text \<open>\<^verbatim>\<open>p[i / 8] >> (i % 8) & 1 == 1\<close>, and \<^verbatim>\<open>p[i / 8] & (1 << (i % 8)) != 0\<close>.\<close>

definition row_bit :: "byte list \<Rightarrow> nat \<Rightarrow> bool" where
  "row_bit p i \<longleftrightarrow> drop_bit (i mod 8) (p ! (i div 8)) AND 1 = 1"

definition row_flag :: "byte list \<Rightarrow> nat \<Rightarrow> bool" where
  "row_flag p i \<longleftrightarrow> p ! (i div 8) AND push_bit (i mod 8) 1 \<noteq> 0"

definition cur_dict_value :: "byte list \<Rightarrow> (rstr \<times> byte list) result" where
  "cur_dict_value c =
     and_then (cur_u32 c) (\<lambda>(len, c1).
     and_then (cur_take len c1) (\<lambda>(b, c2).
     and_then (ok_or (from_utf8 b) (seg_corrupt ''non-utf8 dict value'')) (\<lambda>s. Inr (s, c2))))"

text \<open>The values of a plain label column: the next string for each present row.\<close>

fun plain_values :: "(nat \<Rightarrow> bool) \<Rightarrow> byte list \<Rightarrow> nat list \<Rightarrow> nat \<Rightarrow> nat list \<Rightarrow> rstr option list \<times> nat" where
  "plain_values P blob offsets pi [] = ([], pi)"
| "plain_values P blob offsets pi (i # is) =
     (if P i then
        (case plain_values P blob offsets (pi + 1) is of
           (vs, pi') \<Rightarrow> (Some (str_slice blob (offsets ! pi) (offsets ! (pi + 1))) # vs, pi'))
      else (case plain_values P blob offsets pi is of (vs, pi') \<Rightarrow> (None # vs, pi')))"

definition decode_label_column :: "byte list \<Rightarrow> nat \<Rightarrow> LabelColumn result" where
  "decode_label_column body count =
     (case body of
        [] \<Rightarrow> Inl (seg_corrupt ''empty label section'')
      | mode # rest \<Rightarrow>
          if mode = 0 then
            and_then (cur_u32 rest) (\<lambda>(n, c).
            and_then (cur_many cur_dict_value n c) (\<lambda>(dict, c1).
            and_then (cur_many cur_u16 count c1) (\<lambda>(codes, c2).
              Inr (LabelDict dict (dict_codes dict) codes))))
          else if mode = 1 then
            and_then (cur_take ((count + 7) div 8) rest) (\<lambda>(presence, c).
            and_then (decode_strings c) (\<lambda>(blob, offsets).
              case plain_values (row_bit presence) blob offsets 0 [0..<count] of (vs, pi) \<Rightarrow>
                if pi + 1 \<noteq> length offsets
                then Inl (seg_corrupt ''plain label presence/value count mismatch'')
                else Inr (LabelPlain vs)))
          else Inl (Corrupt ''segment'' (lit ''bad label mode '' @ dec (unat mode))))"

fun numeric_values :: "bool list \<Rightarrow> byte list \<Rightarrow> f64 list result" where
  "numeric_values [] c = Inr []"
| "numeric_values (p # ps) c =
     (if p then
        and_then (cur_f64 c) (\<lambda>(v, c'). and_then (numeric_values ps c') (\<lambda>vs. Inr (v # vs)))
      else and_then (numeric_values ps c) (\<lambda>vs. Inr (f64_NAN # vs)))"

definition decode_numeric_column :: "byte list \<Rightarrow> nat \<Rightarrow> NumericColumn result" where
  "decode_numeric_column body count =
     and_then (cur_take ((count + 7) div 8) body) (\<lambda>(presence, c).
       let present = map (row_bit presence) [0..<count] in
       and_then (numeric_values present c) (\<lambda>vs. Inr \<lparr> nc_present = present, nc_values = vs \<rparr>))"

definition decode_timestamps :: "byte list \<Rightarrow> nat \<Rightarrow> int list result" where
  "decode_timestamps body count =
     (if length body \<noteq> count * 8 then Inl (seg_corrupt ''timestamp column size mismatch'')
      else and_then (cur_many cur_i64 count body) (\<lambda>(v, _). Inr v))"

fun monotonic :: "nat list \<Rightarrow> bool" where
  "monotonic (a # b # xs) \<longleftrightarrow> a \<le> b \<and> monotonic (b # xs)"
| "monotonic _ \<longleftrightarrow> True"

definition check_offsets :: "string \<Rightarrow> nat list \<Rightarrow> nat \<Rightarrow> unit result" where
  "check_offsets what rel blob_len =
     (if rel ! 0 \<noteq> 0 then Inl (seg_corrupt (what @ '' offsets not zero-based''))
      else if \<not> monotonic rel then Inl (seg_corrupt (what @ '' offsets not monotonic''))
      else if last rel \<noteq> blob_len
      then Inl (seg_corrupt (what @ '' offset table inconsistent with section length''))
      else Inr ())"

definition decode_text_header :: "byte list \<Rightarrow> nat \<Rightarrow> nat \<Rightarrow> nat \<Rightarrow> TextIndex result" where
  "decode_text_header header count body_abs blob_len =
     (let presence_len = (count + 7) div 8;
          table_len = 8 * (count + 1);
          present = map (row_flag header) [0..<count]
      in and_then (cur_many cur_u64 (count + 1) (take table_len (drop presence_len header))) (\<lambda>(rel, _).
         and_then (check_offsets ''text'' rel blob_len) (\<lambda>_.
           Inr \<lparr> ti_abs_base = body_abs + presence_len + table_len, ti_present = present,
                 ti_rel = rel, ti_compressed = None \<rparr>)))"

definition decode_text_index :: "byte list \<Rightarrow> nat \<Rightarrow> nat \<Rightarrow> TextIndex result" where
  "decode_text_index body count body_abs =
     (let presence_len = (count + 7) div 8;
          table_len = 8 * (count + 1)
      in if 2 ^ 64 \<le> table_len then Inl (seg_corrupt ''text table overflow'')
         else if length body < presence_len + table_len
         then Inl (seg_corrupt ''text section shorter than header'')
         else decode_text_header (take (presence_len + table_len) body) count body_abs
                (length body - presence_len - table_len))"

definition decode_text_v2_header :: "byte list \<Rightarrow> nat \<Rightarrow> nat \<Rightarrow> nat \<Rightarrow> TextIndex result" where
  "decode_text_v2_header header count blob_abs blob_len =
     (let bitmap_len = (count + 7) div 8;
          table_len = 8 * (count + 1);
          present = map (row_flag header) [0..<count];
          compressed = map (row_flag (drop bitmap_len header)) [0..<count]
      in if length header \<noteq> bitmap_len * 2 + table_len
         then Inl (seg_corrupt ''text v2 header length mismatch'')
         else if list_ex (\<lambda>(c, p). c \<and> \<not> p) (zip compressed present)
         then Inl (seg_corrupt ''compressed bit on absent text row'')
         else
           and_then (cur_many cur_u64 (count + 1) (drop (bitmap_len * 2) header)) (\<lambda>(rel, _).
           and_then (check_offsets ''text'' rel blob_len) (\<lambda>_.
             Inr \<lparr> ti_abs_base = blob_abs, ti_present = present, ti_rel = rel,
                   ti_compressed = Some compressed \<rparr>)))"

definition decode_text_v2 :: "byte list \<Rightarrow> nat \<Rightarrow> nat \<Rightarrow> TextIndex result" where
  "decode_text_v2 body count body_abs =
     and_then (cur_u32 body) (\<lambda>(version, c).
       if version \<noteq> TEXT_V2_VERSION then Inl (seg_corrupt ''unsupported K_TEXT z2 version'')
       else
         (let header_len = (count + 7) div 8 * 2 + 8 * (count + 1)
          in if 2 ^ 64 \<le> header_len then Inl (seg_corrupt ''text v2 header overflow'')
             else and_then (cur_take header_len c) (\<lambda>(header, blob).
               decode_text_v2_header header count (body_abs + 4 + header_len) (length blob))))"

section \<open>Token sections\<close>

text \<open>The rows of one list with every check: strictly ascending, in range.\<close>

fun checked_rows :: "nat \<Rightarrow> nat \<Rightarrow> bool \<Rightarrow> nat \<Rightarrow> byte list \<Rightarrow> (nat list \<times> byte list) result" where
  "checked_rows count 0 first prev c = Inr ([], c)"
| "checked_rows count (Suc n) first prev c =
     and_then (varint_read c) (\<lambda>(delta, c').
       let row = (if first then delta else prev + delta) in
       if \<not> first \<and> 2 ^ 32 \<le> row then Inl (seg_corrupt ''posting overflow'')
       else if \<not> first \<and> delta = 0 then Inl (seg_corrupt ''postings not strictly ascending'')
       else if count \<le> row then Inl (seg_corrupt ''posting row out of range'')
       else and_then (checked_rows count n False row c') (\<lambda>(rows, c''). Inr (row # rows, c'')))"

definition cur_token :: "rstr option \<Rightarrow> byte list \<Rightarrow> (rstr \<times> byte list) result" where
  "cur_token prev c =
     and_then (cur_u32 c) (\<lambda>(tlen, c1).
     and_then (cur_take tlen c1) (\<lambda>(b, c2).
     and_then (ok_or (from_utf8 b) (seg_corrupt ''token not utf8'')) (\<lambda>tok.
       if (case prev of None \<Rightarrow> False | Some p \<Rightarrow> tok \<le> p)
       then Inl (seg_corrupt ''token dictionary not sorted'')
       else Inr (tok, c2))))"

fun tokens_v1 :: "nat \<Rightarrow> nat \<Rightarrow> rstr option \<Rightarrow> byte list \<Rightarrow> (rstr \<times> nat list) list result" where
  "tokens_v1 count 0 prev c = Inr []"
| "tokens_v1 count (Suc n) prev c =
     and_then (cur_token prev c) (\<lambda>(tok, c1).
     and_then (cur_u32 c1) (\<lambda>(nrows, c2).
     and_then (checked_rows count nrows True 0 c2) (\<lambda>(rows, c3).
     and_then (tokens_v1 count n (Some tok) c3) (\<lambda>rest. Inr ((tok, rows) # rest)))))"

fun token_dir :: "nat \<Rightarrow> rstr option \<Rightarrow> byte list \<Rightarrow> ((rstr \<times> nat \<times> nat \<times> nat) list \<times> byte list) result" where
  "token_dir 0 prev c = Inr ([], c)"
| "token_dir (Suc n) prev c =
     and_then (cur_token prev c) (\<lambda>(tok, c1).
     and_then (cur_u32 c1) (\<lambda>(nrows, c2).
     and_then (cur_u32 c2) (\<lambda>(off, c3).
     and_then (cur_u32 c3) (\<lambda>(len, c4).
     and_then (token_dir n (Some tok) c4) (\<lambda>(rest, c5). Inr ((tok, off, len, nrows) # rest, c5))))))"

definition check_span :: "nat \<Rightarrow> byte list \<Rightarrow> nat \<times> nat \<times> nat \<Rightarrow> unit result" where
  "check_span count blob span =
     (case span of (off, len, nrows) \<Rightarrow>
        if length blob < off + len then Inl (seg_corrupt ''posting span out of blob'')
        else
          and_then (checked_rows count nrows True 0 (take len (drop off blob))) (\<lambda>(_, rest).
            if rest \<noteq> [] then Inl (seg_corrupt ''posting span length mismatch'') else Inr ()))"

definition decode_tokens_v2 :: "byte list \<Rightarrow> nat \<Rightarrow> TokenIndex result" where
  "decode_tokens_v2 c count =
     and_then (cur_u32 c) (\<lambda>(n, c1).
     and_then (token_dir n None c1) (\<lambda>(dir, c2).
     and_then (cur_u32 c2) (\<lambda>(blob_len, c3).
     and_then (cur_take blob_len c3) (\<lambda>(blob, rest).
       if rest \<noteq> [] then Inl (seg_corrupt ''trailing bytes after postings blob'')
       else
         and_then (map_result (check_span count blob) (map snd dir)) (\<lambda>_.
           Inr \<lparr> tki_tokens = map fst dir, tki_postings = Lazy blob (map snd dir) \<rparr>)))))"

definition decode_tokens :: "byte list \<Rightarrow> nat \<Rightarrow> TokenIndex result" where
  "decode_tokens body count =
     and_then (cur_u32 body) (\<lambda>(first, c).
       if first = TOKENS_V2_SENTINEL then
         and_then (cur_u32 c) (\<lambda>(version, c1).
           if version \<noteq> TOKENS_VERSION then Inl (seg_corrupt ''unsupported K_TOKENS version'')
           else decode_tokens_v2 c1 count)
       else
         and_then (tokens_v1 count first None c) (\<lambda>ts.
           Inr \<lparr> tki_tokens = map fst ts, tki_postings = Eager (map snd ts) \<rparr>))"

end
