(* ===== verification/Segment_File.thy ===== *)
theory Segment_File
  imports Codec
begin

text \<open>
  Segment files (\<^verbatim>\<open>src/src/segment.rs\<close>): the whole-file decoders used by compaction and the
  targeted section readers used by scans, down to the error every malformed file gives.
\<close>

section \<open>Whole-file decoding\<close>

definition seg_slice :: "byte list \<Rightarrow> nat \<Rightarrow> nat \<Rightarrow> byte list result" where
  "seg_slice bytes from len =
     (if 2 ^ 64 \<le> from + len then Inl (seg_corrupt ''offset overflow'')
      else if length bytes < from + len then Inl (seg_corrupt ''section out of bounds'')
      else Inr (take len (drop from bytes)))"

record decoded =
  de_keys :: "KeysSection option"
  de_timestamps :: "int list option"
  de_labels :: "(rstr, LabelColumn) bmap"
  de_numerics :: "(rstr, NumericColumn) bmap"
  de_blocks :: "BlockMeta list option"
  de_payloads :: "PayloadIndex option"
  de_texts :: "TextIndex option"
  de_text_v1_pending :: "(byte list \<times> nat) option"
  de_tokens :: "TokenIndex option"

definition decoded_init :: decoded where
  "decoded_init =
     \<lparr> de_keys = None, de_timestamps = None, de_labels = fmempty, de_numerics = fmempty,
       de_blocks = None, de_payloads = None, de_texts = None, de_text_v1_pending = None,
       de_tokens = None \<rparr>"

text \<open>One section body, by kind; an unknown kind is ignored.\<close>

definition decode_section ::
  "('x) codec_ext_scheme \<Rightarrow> nat \<Rightarrow> nat \<Rightarrow> rstr \<Rightarrow> nat \<Rightarrow> byte list \<Rightarrow> decoded \<Rightarrow> decoded result" where
  "decode_section X count kind name start body d =
     (if kind = K_KEYS then
        and_then (decode_strings body) (\<lambda>(blob, offsets).
          Inr (d\<lparr> de_keys := Some \<lparr> ks_blob = blob, ks_offsets = offsets \<rparr> \<rparr>))
      else if kind = K_TS then
        and_then (decode_timestamps body count) (\<lambda>ts. Inr (d\<lparr> de_timestamps := Some ts \<rparr>))
      else if kind = K_LABEL then
        and_then (decode_label_column body count) (\<lambda>col.
          Inr (d\<lparr> de_labels := fmupd name col (de_labels d) \<rparr>))
      else if kind = K_NUMERIC then
        and_then (decode_numeric_column body count) (\<lambda>col.
          Inr (d\<lparr> de_numerics := fmupd name col (de_numerics d) \<rparr>))
      else if kind = K_PAYLOAD then
        and_then (cur_many cur_u64 (count + 1) body) (\<lambda>(rel, _).
          Inr (d\<lparr> de_payloads := Some \<lparr> pi_abs_base = start + 4 + 8 * (count + 1), pi_rel = rel \<rparr> \<rparr>))
      else if kind = K_BLOCKS then
        (case rmp_blocks_from_slice X body of
           Inl e \<Rightarrow> Inl (Corrupt ''segment'' (lit ''blocks: '' @ e))
         | Inr bs \<Rightarrow> Inr (d\<lparr> de_blocks := Some bs \<rparr>))
      else if kind = K_TEXT then
        (if name = TEXT_V2_NAME then
           and_then (decode_text_v2 body count (start + 4)) (\<lambda>ti. Inr (d\<lparr> de_texts := Some ti \<rparr>))
         else Inr (d\<lparr> de_text_v1_pending := Some (body, start) \<rparr>))
      else if kind = K_TOKENS then
        and_then (decode_tokens body count) (\<lambda>idx. Inr (d\<lparr> de_tokens := Some idx \<rparr>))
      else Inr d)"

definition crc_mismatch :: "nat \<Rightarrow> girder_error" where
  "crc_mismatch kind = Corrupt ''segment'' (lit ''section crc mismatch (kind '' @ dec kind @ lit '')'')"

definition decode_entry ::
  "('x) codec_ext_scheme \<Rightarrow> byte list \<Rightarrow> nat \<Rightarrow> SectionEntry \<Rightarrow> decoded \<Rightarrow> decoded result" where
  "decode_entry X bytes count e d =
     and_then (seg_slice bytes (se_offset e) 4) (\<lambda>crc_bytes.
     and_then (seg_slice bytes (se_offset e + 4) (se_len e)) (\<lambda>body.
       if of_le crc_bytes \<noteq> se_crc e \<or> crc32_hash X body \<noteq> se_crc e then Inl (crc_mismatch (se_kind e))
       else decode_section X count (se_kind e) (se_name e) (se_offset e) body d))"

fun decode_entries ::
  "('x) codec_ext_scheme \<Rightarrow> byte list \<Rightarrow> nat \<Rightarrow> SectionEntry list \<Rightarrow> decoded \<Rightarrow> decoded result" where
  "decode_entries X bytes count [] d = Inr d"
| "decode_entries X bytes count (e # es) d =
     and_then (decode_entry X bytes count e d) (decode_entries X bytes count es)"

text \<open>The footer: trailer, checksum, directory.\<close>

definition decode_footer :: "('x) codec_ext_scheme \<Rightarrow> byte list \<Rightarrow> SectionDir result" where
  "decode_footer X bytes =
     (let len = length bytes in
      if len < 24 then Inl (seg_corrupt ''v2 file too short'')
      else if of_le (drop (len - 4) bytes) \<noteq> MAGIC then Inl (seg_corrupt ''bad trailing magic'')
      else
        (let footer_crc = of_le (take 4 (drop (len - 8) bytes));
             footer_off = of_le (take 8 (drop (len - 16) bytes))
         in if len - 16 < footer_off then Inl (seg_corrupt ''footer offset out of bounds'')
            else
              (let dir_body = take (len - 16 - footer_off) (drop footer_off bytes)
               in if crc32_hash X dir_body \<noteq> footer_crc then Inl (seg_corrupt ''footer crc mismatch'')
                  else
                    (case rmp_dir_from_slice X dir_body of
                       Inl e \<Rightarrow> Inl (Corrupt ''segment'' (lit ''footer: '' @ e))
                     | Inr dir \<Rightarrow> Inr dir))))"

definition finish_columns :: "nat \<Rightarrow> decoded \<Rightarrow> SegmentColumns result" where
  "finish_columns count d =
     and_then
       (case de_texts d of
          Some ti \<Rightarrow> Inr (Some ti)
        | None \<Rightarrow>
            (case de_text_v1_pending d of
               None \<Rightarrow> Inr None
             | Some (body, start) \<Rightarrow>
                 and_then (decode_text_index body count (start + 4)) (\<lambda>ti. Inr (Some ti)))) (\<lambda>texts.
     and_then (ok_or (de_keys d) (seg_corrupt ''missing key section'')) (\<lambda>keys.
     and_then (ok_or (de_timestamps d) (seg_corrupt ''missing timestamp section'')) (\<lambda>timestamps.
     and_then (ok_or (de_payloads d) (seg_corrupt ''missing payload section'')) (\<lambda>payloads.
     and_then (ok_or (de_blocks d) (seg_corrupt ''missing block index'')) (\<lambda>blocks.
       if length (ks_offsets keys) \<noteq> count + 1 \<or> length timestamps \<noteq> count
       then Inl (seg_corrupt ''column count mismatch'')
       else
         Inr \<lparr> sc_count = count, sc_keys = keys, sc_timestamps = timestamps, sc_labels = de_labels d,
               sc_numerics = de_numerics d, sc_blocks = blocks, sc_payloads = PayloadsFile payloads,
               sc_texts = map_option TextsFile texts, sc_tokens = de_tokens d \<rparr>)))))"

definition decode_v2_columns :: "('x) codec_ext_scheme \<Rightarrow> byte list \<Rightarrow> SegmentColumns result" where
  "decode_v2_columns X bytes =
     and_then (decode_footer X bytes) (\<lambda>dir.
     and_then (decode_entries X bytes (sd_count dir) (sd_entries dir) decoded_init) (\<lambda>d.
       finish_columns (sd_count dir) d))"

definition decode_v1_records :: "('x) codec_ext_scheme \<Rightarrow> byte list \<Rightarrow> Record list result" where
  "decode_v1_records X bytes =
     (if length bytes < 12 then Inl (seg_corrupt ''v1 file too short'')
      else
        (let crc = of_le (take 4 (drop 8 bytes)); body = drop 12 bytes
         in if crc32_hash X body \<noteq> crc then Inl (seg_corrupt ''v1 crc mismatch'')
            else
              (case rmp_records_from_slice X body of
                 Inl e \<Rightarrow> Inl (Corrupt ''segment'' (lit ''v1 decode: '' @ e))
               | Inr rs \<Rightarrow> Inr rs)))"

definition seg_header :: "byte list \<Rightarrow> (nat \<times> nat) result" where
  "seg_header bytes =
     (if length bytes < 8 then Inl (seg_corrupt ''file too short'')
      else
        (let magic = of_le (take 4 bytes); version = of_le (take 4 (drop 4 bytes))
         in if magic \<noteq> MAGIC then Inl (seg_corrupt ''bad magic'') else Inr (magic, version)))"

definition unsupported_version :: "nat \<Rightarrow> girder_error" where
  "unsupported_version v = Corrupt ''segment'' (lit ''unsupported version '' @ dec v)"

definition read_columns :: "unicode \<Rightarrow> ('x) codec_ext_scheme \<Rightarrow> byte list \<Rightarrow> SegmentColumns result" where
  "read_columns U X bytes =
     and_then (seg_header bytes) (\<lambda>(_, version).
       if version = VERSION_V1 then and_then (decode_v1_records X bytes) (\<lambda>rs. Inr (from_records U rs))
       else if version = VERSION_V2 then decode_v2_columns X bytes
       else Inl (unsupported_version version))"

text \<open>Full records of a decoded version 2 file, payload and text sliced from its bytes.\<close>

definition whole_row :: "('x) seg_ext_scheme \<Rightarrow> byte list \<Rightarrow> SegmentColumns \<Rightarrow> PayloadIndex \<Rightarrow> nat \<Rightarrow> Record result" where
  "whole_row X bytes c pi i =
     and_then (seg_slice bytes (pi_abs_base pi + pi_rel pi ! i) (pi_rel pi ! (i + 1) - pi_rel pi ! i)) (\<lambda>payload.
     and_then
       (case sc_texts c of
          Some (TextsFile ti) \<Rightarrow>
            if ti_present ti ! i then
              and_then (seg_slice bytes (ti_abs_base ti + ti_rel ti ! i) (ti_rel ti ! (i + 1) - ti_rel ti ! i)) (\<lambda>stored.
              and_then (decode_row_text X ti i stored) (\<lambda>t. Inr (Some t)))
            else Inr None
        | _ \<Rightarrow> Inr None) (\<lambda>text.
       Inr (build_record c i payload text)))"

definition read_all_records :: "('x) codec_ext_scheme \<Rightarrow> byte list \<Rightarrow> Record list result" where
  "read_all_records X bytes =
     and_then (seg_header bytes) (\<lambda>(_, version).
       if version = VERSION_V1 then decode_v1_records X bytes
       else if version = VERSION_V2 then
         and_then (decode_v2_columns X bytes) (\<lambda>c.
           case sc_payloads c of
             PayloadsMem _ \<Rightarrow> Inl (seg_corrupt ''v2 payloads not file-backed'')
           | PayloadsFile pi \<Rightarrow> map_result (whole_row X bytes c pi) [0..<sc_count c])
       else Inl (unsupported_version version))"

section \<open>Targeted reads\<close>

record DirEntry =
  dn_offset :: nat
  dn_len :: nat
  dn_crc :: nat

record SegDir =
  sg_count :: nat
  sg_entries :: "(nat \<times> rstr, DirEntry) fmap"

definition dir_entry :: "SegDir \<Rightarrow> nat \<Rightarrow> rstr \<Rightarrow> DirEntry result" where
  "dir_entry dir kind name =
     ok_or (fmlookup (sg_entries dir) (kind, name))
       (Corrupt ''segment'' (lit ''missing section (kind '' @ dec kind @ lit '')''))"

definition dir_names :: "SegDir \<Rightarrow> nat \<Rightarrow> rstr list" where
  "dir_names dir kind = map snd (filter (\<lambda>(k, n). k = kind) (bt_keys (sg_entries dir)))"

definition dir_label_names :: "SegDir \<Rightarrow> rstr list" where
  "dir_label_names dir = dir_names dir K_LABEL"

definition dir_numeric_names :: "SegDir \<Rightarrow> rstr list" where
  "dir_numeric_names dir = dir_names dir K_NUMERIC"

definition read_header :: "byte list \<Rightarrow> nat result" where
  "read_header f =
     and_then (read_at f 0 8) (\<lambda>h.
       if of_le (take 4 h) \<noteq> MAGIC then Inl (seg_corrupt ''bad magic'') else Inr (of_le (drop 4 h)))"

definition put_dir_entry :: "SectionEntry \<Rightarrow> (nat \<times> rstr, DirEntry) fmap \<Rightarrow> (nat \<times> rstr, DirEntry) fmap" where
  "put_dir_entry e m =
     fmupd (se_kind e, se_name e) \<lparr> dn_offset = se_offset e, dn_len = se_len e, dn_crc = se_crc e \<rparr> m"

definition read_footer :: "('x) codec_ext_scheme \<Rightarrow> byte list \<Rightarrow> SegDir result" where
  "read_footer X f =
     (let len = length f in
      if len < 24 then Inl (seg_corrupt ''v2 file too short'')
      else
        and_then (read_at f (len - 16) 16) (\<lambda>tail.
          let footer_off = of_le (take 8 tail);
              footer_crc = of_le (take 4 (drop 8 tail));
              end_magic = of_le (drop 12 tail)
          in if end_magic \<noteq> MAGIC then Inl (seg_corrupt ''bad trailing magic'')
             else if len - 16 < footer_off then Inl (seg_corrupt ''footer offset out of bounds'')
             else
               and_then (read_at f footer_off (len - 16 - footer_off)) (\<lambda>dir_body.
                 if crc32_hash X dir_body \<noteq> footer_crc then Inl (seg_corrupt ''footer crc mismatch'')
                 else
                   (case rmp_dir_from_slice X dir_body of
                      Inl e \<Rightarrow> Inl (Corrupt ''segment'' (lit ''footer: '' @ e))
                    | Inr dir \<Rightarrow>
                        Inr \<lparr> sg_count = sd_count dir,
                              sg_entries = fold put_dir_entry (sd_entries dir) fmempty \<rparr>))))"

definition read_verified_body ::
  "('x) wal_ext_scheme \<Rightarrow> byte list \<Rightarrow> DirEntry \<Rightarrow> nat \<Rightarrow> byte list result" where
  "read_verified_body X f e kind =
     (if 2 ^ 64 \<le> 4 + dn_len e then Inl (seg_corrupt ''section length overflow'') else
     and_then (read_at f (dn_offset e) (4 + dn_len e)) (\<lambda>buf.
       let body = drop 4 buf in
       if of_le (take 4 buf) \<noteq> dn_crc e \<or> crc32_hash X body \<noteq> dn_crc e then Inl (crc_mismatch kind)
       else Inr body))"

definition load_body :: "('x) wal_ext_scheme \<Rightarrow> byte list \<Rightarrow> SegDir \<Rightarrow> nat \<Rightarrow> rstr \<Rightarrow> byte list result" where
  "load_body X f dir kind name =
     and_then (dir_entry dir kind name) (\<lambda>e. read_verified_body X f e kind)"

definition load_keys :: "('x) wal_ext_scheme \<Rightarrow> byte list \<Rightarrow> SegDir \<Rightarrow> KeysSection result" where
  "load_keys X f dir =
     and_then (load_body X f dir K_KEYS []) (\<lambda>body.
     and_then (decode_strings body) (\<lambda>(blob, offsets).
       if length offsets \<noteq> sg_count dir + 1 then Inl (seg_corrupt ''key column count mismatch'')
       else Inr \<lparr> ks_blob = blob, ks_offsets = offsets \<rparr>))"

definition load_timestamps :: "('x) wal_ext_scheme \<Rightarrow> byte list \<Rightarrow> SegDir \<Rightarrow> int list result" where
  "load_timestamps X f dir =
     and_then (load_body X f dir K_TS []) (\<lambda>body. decode_timestamps body (sg_count dir))"

definition load_blocks :: "('x) codec_ext_scheme \<Rightarrow> byte list \<Rightarrow> SegDir \<Rightarrow> BlockMeta list result" where
  "load_blocks X f dir =
     and_then (load_body X f dir K_BLOCKS []) (\<lambda>body.
       case rmp_blocks_from_slice X body of
         Inl e \<Rightarrow> Inl (Corrupt ''segment'' (lit ''blocks: '' @ e))
       | Inr bs \<Rightarrow> Inr bs)"

definition load_label :: "('x) wal_ext_scheme \<Rightarrow> byte list \<Rightarrow> SegDir \<Rightarrow> rstr \<Rightarrow> LabelColumn result" where
  "load_label X f dir name =
     and_then (load_body X f dir K_LABEL name) (\<lambda>body. decode_label_column body (sg_count dir))"

definition load_numeric :: "('x) wal_ext_scheme \<Rightarrow> byte list \<Rightarrow> SegDir \<Rightarrow> rstr \<Rightarrow> NumericColumn result" where
  "load_numeric X f dir name =
     and_then (load_body X f dir K_NUMERIC name) (\<lambda>body. decode_numeric_column body (sg_count dir))"

definition load_text_index :: "byte list \<Rightarrow> SegDir \<Rightarrow> TextIndex option result" where
  "load_text_index f dir =
     (let count = sg_count dir;
          bitmap_len = (count + 7) div 8;
          table_len = 8 * (count + 1)
      in case fmlookup (sg_entries dir) (K_TEXT, TEXT_V2_NAME) of
           Some e \<Rightarrow>
             and_then (read_at f (dn_offset e + 4) 4) (\<lambda>version_word.
               if of_le version_word \<noteq> TEXT_V2_VERSION
               then Inl (seg_corrupt ''unsupported K_TEXT z2 version'')
               else if 2 ^ 64 \<le> table_len then Inl (seg_corrupt ''text table overflow'')
               else
                 (let header_len = bitmap_len * 2 + table_len in
                  if 2 ^ 64 \<le> header_len then Inl (seg_corrupt ''text v2 header overflow'')
                  else if dn_len e < 4 + header_len then Inl (seg_corrupt ''text v2 section shorter than header'')
                  else
                    and_then (read_at f (dn_offset e + 8) header_len) (\<lambda>header.
                    and_then (decode_text_v2_header header count (dn_offset e + 8 + header_len)
                                (dn_len e - 4 - header_len)) (\<lambda>ti. Inr (Some ti)))))
         | None \<Rightarrow>
             (case fmlookup (sg_entries dir) (K_TEXT, []) of
                None \<Rightarrow> Inr None
              | Some e \<Rightarrow>
                  if 2 ^ 64 \<le> table_len then Inl (seg_corrupt ''text table overflow'')
                  else if dn_len e < bitmap_len + table_len
                  then Inl (seg_corrupt ''text section shorter than header'')
                  else
                    and_then (read_at f (dn_offset e + 4) (bitmap_len + table_len)) (\<lambda>header.
                    and_then (decode_text_header header count (dn_offset e + 4)
                                (dn_len e - (bitmap_len + table_len))) (\<lambda>ti. Inr (Some ti)))))"

definition load_tokens :: "('x) wal_ext_scheme \<Rightarrow> byte list \<Rightarrow> SegDir \<Rightarrow> TokenIndex option result" where
  "load_tokens X f dir =
     (case fmlookup (sg_entries dir) (K_TOKENS, []) of
        None \<Rightarrow> Inr None
      | Some e \<Rightarrow>
          and_then (read_verified_body X f e K_TOKENS) (\<lambda>body.
          and_then (decode_tokens body (sg_count dir)) (\<lambda>idx. Inr (Some idx))))"

definition load_payload_index :: "byte list \<Rightarrow> SegDir \<Rightarrow> PayloadIndex result" where
  "load_payload_index f dir =
     and_then (dir_entry dir K_PAYLOAD []) (\<lambda>e.
       let table_len = 8 * (sg_count dir + 1) in
       if 2 ^ 64 \<le> table_len then Inl (seg_corrupt ''payload table overflow'')
       else if dn_len e < table_len then Inl (seg_corrupt ''payload section shorter than offset table'')
       else
         and_then (read_at f (dn_offset e + 4) table_len) (\<lambda>buf.
         and_then (cur_many cur_u64 (sg_count dir + 1) buf) (\<lambda>(rel, _).
         and_then (check_offsets ''payload'' rel (dn_len e - table_len)) (\<lambda>_.
           Inr \<lparr> pi_abs_base = dn_offset e + 4 + table_len, pi_rel = rel \<rparr>))))"

definition load_v1_whole :: "unicode \<Rightarrow> ('x) codec_ext_scheme \<Rightarrow> byte list \<Rightarrow> SegmentColumns result" where
  "load_v1_whole U X f =
     and_then (read_at f 0 (length f)) (\<lambda>bytes.
     and_then (decode_v1_records X bytes) (\<lambda>rs. Inr (from_records U rs)))"

section \<open>Assembling a segment (\<^verbatim>\<open>src/src/engine.rs\<close>, load_segment)\<close>

text \<open>
  The engine fetches every section through its cache; the cache only keeps what these readers
  return (see the theory \<open>Section_Cache\<close>), so the loader without it is the reader of the file.
\<close>

fun load_named :: "(rstr \<Rightarrow> 'a result) \<Rightarrow> rstr list \<Rightarrow> (rstr, 'a) bmap result" where
  "load_named f [] = Inr fmempty"
| "load_named f (n # ns) =
     and_then (f n) (\<lambda>c. and_then (load_named f ns) (\<lambda>m. Inr (fmupd n c m)))"

definition assemble ::
  "nat \<Rightarrow> KeysSection \<Rightarrow> int list \<Rightarrow> (rstr, LabelColumn) bmap \<Rightarrow> (rstr, NumericColumn) bmap \<Rightarrow>
   BlockMeta list \<Rightarrow> PayloadIndex \<Rightarrow> TextIndex option \<Rightarrow> TokenIndex option \<Rightarrow> SegmentColumns" where
  "assemble count keys timestamps labels numerics blocks payload_index text_index tokens =
     \<lparr> sc_count = count, sc_keys = keys, sc_timestamps = timestamps, sc_labels = labels,
       sc_numerics = numerics, sc_blocks = blocks, sc_payloads = PayloadsFile payload_index,
       sc_texts = map_option TextsFile text_index, sc_tokens = tokens \<rparr>"

definition load_sections ::
  "('x) codec_ext_scheme \<Rightarrow> byte list \<Rightarrow> SegDir \<Rightarrow> bool \<Rightarrow> SegmentColumns result" where
  "load_sections X f dir need_tokens =
     and_then (load_keys X f dir) (\<lambda>keys.
     and_then (load_timestamps X f dir) (\<lambda>timestamps.
     and_then (load_blocks X f dir) (\<lambda>blocks.
     and_then (load_payload_index f dir) (\<lambda>payload_index.
     and_then (load_text_index f dir) (\<lambda>text_index.
     and_then (if need_tokens then load_tokens X f dir else Inr None) (\<lambda>tokens.
     and_then (load_named (load_label X f dir) (dir_label_names dir)) (\<lambda>labels.
     and_then (load_named (load_numeric X f dir) (dir_numeric_names dir)) (\<lambda>numerics.
       Inr (assemble (sg_count dir) keys timestamps labels numerics blocks payload_index text_index
              tokens)))))))))"

text \<open>The columns and, for version 2, the file the rows' payloads are read from.\<close>

definition load_segment ::
  "unicode \<Rightarrow> ('x) codec_ext_scheme \<Rightarrow> byte list \<Rightarrow> bool \<Rightarrow> (SegmentColumns \<times> byte list option) result" where
  "load_segment U X f need_tokens =
     and_then (read_header f) (\<lambda>version.
       if version = 1 then and_then (load_v1_whole U X f) (\<lambda>c. Inr (c, None))
       else if version = 2 then
         and_then (read_footer X f) (\<lambda>dir.
         and_then (load_sections X f dir need_tokens) (\<lambda>c. Inr (c, Some f)))
       else Inl (unsupported_version version))"

end
