(* ===== verification/Retention.thy ===== *)
theory Retention
  imports Records Utf8
begin

text \<open>
  The retention policy (\<^verbatim>\<open>src/src/retention.rs\<close>): the compiled rows, the time to live
  that governs a key, and the zone-level tests of the groomer. The locale \<open>ttl_oracle\<close> is what
  compaction and the groomer rely on; its interpretation is the compiled policy.
\<close>

section \<open>The policy\<close>

record RetentionPolicy =
  rp_rows :: "(rstr \<times> int) list"

definition compile_rows :: "(rstr \<times> int) list \<Rightarrow> int option \<Rightarrow> (rstr, int) bmap" where
  "compile_rows rows global =
     fold (\<lambda>(prefix, ttl) m. fmupd prefix (max ttl 0) m) rows
       (case global of None \<Rightarrow> fmempty | Some ttl \<Rightarrow> fmupd [] (max ttl 0) fmempty)"

definition row_order :: "rstr \<times> int \<Rightarrow> int \<times> rstr" where
  "row_order r = (- int (length (as_bytes (fst r))), fst r)"

definition compile :: "(rstr \<times> int) list \<Rightarrow> int option \<Rightarrow> RetentionPolicy" where
  "compile rows global = \<lparr> rp_rows = sort_key row_order (bt_entries (compile_rows rows global)) \<rparr>"

definition policy_is_empty :: "RetentionPolicy \<Rightarrow> bool" where
  "policy_is_empty p \<longleftrightarrow> rp_rows p = []"

definition ttl_for_key :: "RetentionPolicy \<Rightarrow> rstr \<Rightarrow> int option" where
  "ttl_for_key p key = map_option snd (find (\<lambda>(q, _). prefix q key) (rp_rows p))"

definition cutoff_for_key :: "RetentionPolicy \<Rightarrow> rstr \<Rightarrow> int \<Rightarrow> int option" where
  "cutoff_for_key p key now = map_option (\<lambda>ttl. saturating_sub now ttl) (ttl_for_key p key)"

definition covers_range :: "RetentionPolicy \<Rightarrow> rstr \<Rightarrow> rstr \<Rightarrow> bool" where
  "covers_range p min_key max_key \<longleftrightarrow>
     list_ex (\<lambda>(q, _). prefix q min_key \<and> prefix q max_key) (rp_rows p)"

definition prefix_intersects_range :: "rstr \<Rightarrow> rstr \<Rightarrow> rstr \<Rightarrow> bool" where
  "prefix_intersects_range q min_key max_key \<longleftrightarrow>
     q \<le> max_key \<and> (prefix q min_key \<or> min_key \<le> q)"

definition max_ttl_in_range :: "RetentionPolicy \<Rightarrow> rstr \<Rightarrow> rstr \<Rightarrow> int option" where
  "max_ttl_in_range p min_key max_key =
     (case map snd (filter (\<lambda>(q, _). prefix_intersects_range q min_key max_key) (rp_rows p)) of
        [] \<Rightarrow> None
      | t # ts \<Rightarrow> Some (fold max ts t))"

text \<open>The retain closure that compaction and the groomer's rewrite share.\<close>

definition retained :: "RetentionPolicy \<Rightarrow> int \<Rightarrow> rstr \<Rightarrow> Record \<Rightarrow> bool" where
  "retained p now key r =
     (case cutoff_for_key p key now of Some cutoff \<Rightarrow> cutoff \<le> rec_timestamp r | None \<Rightarrow> True)"

section \<open>Saturating subtraction\<close>

lemma saturating_sub_mono: "b' \<le> b \<Longrightarrow> saturating_sub a b \<le> saturating_sub a b'"
  by (auto simp: saturating_sub_def)

section \<open>What the groomer relies on\<close>

locale ttl_oracle =
  fixes ttl :: "rstr \<Rightarrow> int option"
    and covers :: "rstr \<Rightarrow> rstr \<Rightarrow> bool"
    and max_ttl :: "rstr \<Rightarrow> rstr \<Rightarrow> int option"
  assumes covered: "covers lo hi \<Longrightarrow> lo \<le> k \<Longrightarrow> k \<le> hi \<Longrightarrow> ttl k \<noteq> None"
    and bounded: "max_ttl lo hi = Some T \<Longrightarrow> lo \<le> k \<Longrightarrow> k \<le> hi \<Longrightarrow> ttl k = Some t \<Longrightarrow> t \<le> T"
begin

text \<open>A timestamp below the groomer's cutoff is below the cutoff of every key of the range.\<close>

lemma zone_expired:
  assumes "covers lo hi" and "max_ttl lo hi = Some T" and "lo \<le> k" and "k \<le> hi"
    and "ts < saturating_sub now T"
  shows "\<exists>t. ttl k = Some t \<and> ts < saturating_sub now t"
proof -
  from covered [OF assms(1,3,4)] obtain t where t: "ttl k = Some t" by auto
  from bounded [OF assms(2-4) t] have "saturating_sub now T \<le> saturating_sub now t"
    by (rule saturating_sub_mono)
  with t assms(5) show ?thesis by auto
qed

end

lemma prefix_intersects_range_iff:
  assumes "lo \<le> hi"
  shows "prefix_intersects_range q lo hi \<longleftrightarrow> (\<exists>k. prefix q k \<and> lo \<le> k \<and> k \<le> hi)"
proof
  assume "prefix_intersects_range q lo hi"
  then have "q \<le> hi" and "prefix q lo \<or> lo \<le> q" by (auto simp: prefix_intersects_range_def)
  then show "\<exists>k. prefix q k \<and> lo \<le> k \<and> k \<le> hi" using assms by blast
next
  assume "\<exists>k. prefix q k \<and> lo \<le> k \<and> k \<le> hi"
  then obtain k where k: "prefix q k" "lo \<le> k" "k \<le> hi" by blast
  have "prefix q lo \<or> lo \<le> q"
    using prefix_below [OF k(1), of lo] k(2) by (meson leD not_le_imp_less)
  moreover have "q \<le> hi" using prefix_le [OF k(1)] k(3) by simp
  ultimately show "prefix_intersects_range q lo hi" by (simp add: prefix_intersects_range_def)
qed

lemma fold_max_upper: "t \<in> set (x # xs) \<Longrightarrow> t \<le> fold max xs (x :: int)"
  unfolding Max.set_eq_fold [symmetric] by (rule Max_ge) auto

lemma max_ttl_upper:
  assumes "max_ttl_in_range p lo hi = Some T" and "(q, t) \<in> set (rp_rows p)"
    and "prefix_intersects_range q lo hi"
  shows "t \<le> T"
proof -
  let ?ts = "map snd (filter (\<lambda>(q, _). prefix_intersects_range q lo hi) (rp_rows p))"
  from assms(2,3) have mem: "t \<in> set ?ts" by force
  then obtain x xs where xs: "?ts = x # xs" by (cases ?ts) auto
  with assms(1) have "T = fold max xs x" by (simp add: max_ttl_in_range_def)
  with mem xs show ?thesis using fold_max_upper by metis
qed

interpretation policy: ttl_oracle "ttl_for_key p" "covers_range p" "max_ttl_in_range p"
proof
  fix lo hi k
  assume "covers_range p lo hi" and k: "lo \<le> k" "k \<le> hi"
  then obtain q t where "(q, t) \<in> set (rp_rows p)" "prefix q lo" "prefix q hi"
    by (auto simp: covers_range_def list_ex_iff)
  with prefix_interval [of q lo hi k] k show "ttl_for_key p k \<noteq> None"
    by (auto simp: ttl_for_key_def find_None_iff)
next
  fix lo hi T k t
  assume T: "max_ttl_in_range p lo hi = Some T" and k: "lo \<le> k" "k \<le> hi"
    and t: "ttl_for_key p k = Some t"
  from t obtain q where "find (\<lambda>(q, _). prefix q k) (rp_rows p) = Some (q, t)"
    by (auto simp: ttl_for_key_def)
  then have q: "(q, t) \<in> set (rp_rows p)" "prefix q k"
    by (force simp: find_Some_iff in_set_conv_nth)+
  from k have "lo \<le> hi" by simp
  with q(2) k have "prefix_intersects_range q lo hi" by (auto simp: prefix_intersects_range_iff)
  with T q(1) show "t \<le> T" by (rule max_ttl_upper)
qed

section \<open>The longest prefix governs\<close>

text \<open>The configured time to live of a prefix: its last row, or the global knob for the empty one.\<close>

definition configured :: "(rstr \<times> int) list \<Rightarrow> int option \<Rightarrow> rstr \<Rightarrow> int option" where
  "configured rows global q =
     map_option (max 0)
       (case map_of (rev rows) q of
          Some t \<Rightarrow> Some t
        | None \<Rightarrow> if q = [] then global else None)"

text \<open>The reference: the prefixes of the key from the longest down, the first configured one.\<close>

fun governing :: "(rstr \<Rightarrow> int option) \<Rightarrow> rstr \<Rightarrow> nat \<Rightarrow> int option" where
  "governing f key 0 = f []"
| "governing f key (Suc n) = (case f (take (Suc n) key) of Some t \<Rightarrow> Some t | None \<Rightarrow> governing f key n)"

lemma fold_fmupd_clamp:
  "fmlookup (fold (\<lambda>(q, t) m. fmupd q (max t 0) m) rows m) k =
     (case map_of (rev rows) k of Some t \<Rightarrow> Some (max t (0 :: int)) | None \<Rightarrow> fmlookup m k)"
proof (induction rows arbitrary: m)
  case (Cons r rows)
  then show ?case by (cases r) (auto simp: map_add_def split: option.splits)
qed simp

lemma compile_rows_lookup: "fmlookup (compile_rows rows global) q = configured rows global q"
  by (auto simp: compile_rows_def fold_fmupd_clamp configured_def max.commute split: option.splits)

lemma as_bytes_longer: "prefix p q \<Longrightarrow> p \<noteq> q \<Longrightarrow> length (as_bytes p) < length (as_bytes q)"
proof -
  assume "prefix p q" and "p \<noteq> q"
  then obtain c s where "q = p @ c # s" by (metis append_Nil2 neq_Nil_conv prefixE)
  then show ?thesis by (simp add: as_bytes_def utf8_values_def)
qed

lemma governing_Some:
  "governing f key n = Some t \<Longrightarrow>
     \<exists>m \<le> n. f (take m key) = Some t \<and> (\<forall>j. m < j \<longrightarrow> j \<le> n \<longrightarrow> f (take j key) = None)"
proof (induction n)
  case (Suc n)
  show ?case
  proof (cases "f (take (Suc n) key)")
    case None
    with Suc obtain m where "m \<le> n" "f (take m key) = Some t"
      "\<forall>j. m < j \<longrightarrow> j \<le> n \<longrightarrow> f (take j key) = None" by auto
    with None show ?thesis by (metis le_SucE le_SucI)
  qed (use Suc.prems in auto)
qed simp

lemma governing_None: "governing f key n = None \<longleftrightarrow> (\<forall>m \<le> n. f (take m key) = None)"
  by (induction n) (auto simp: le_Suc_eq split: option.splits)

lemma ttl_for_key_Some:
  assumes "ttl_for_key (compile rows global) key = Some t"
  obtains q where "prefix q key" and "configured rows global q = Some t"
    and "\<And>q' t'. prefix q' key \<Longrightarrow> configured rows global q' = Some t' \<Longrightarrow> prefix q' q"
proof -
  let ?L = "rp_rows (compile rows global)"
  have set_L: "(q, t) \<in> set ?L \<longleftrightarrow> configured rows global q = Some t" for q t
    by (simp add: compile_def compile_rows_lookup)
  have sorted_L: "sorted (map row_order ?L)" by (simp add: compile_def)
  from assms obtain q where "find (\<lambda>(q, _). prefix q key) ?L = Some (q, t)"
    by (auto simp: ttl_for_key_def)
  then obtain i where i: "i < length ?L" "?L ! i = (q, t)" "prefix q key"
    and before: "\<And>j. j < i \<Longrightarrow> \<not> prefix (fst (?L ! j)) key"
    unfolding find_Some_iff case_prod_beta by (metis fst_conv)
  have "prefix q' q" if q': "prefix q' key" "configured rows global q' = Some t'" for q' t'
  proof -
    from q'(2) obtain j where j: "j < length ?L" "?L ! j = (q', t')"
      by (metis set_L in_set_conv_nth)
    with before q'(1) have "i \<le> j" by (metis fst_conv not_le_imp_less)
    with sorted_L i(1,2) j have "row_order (q, t) \<le> row_order (q', t')"
      by (metis length_map nth_map sorted_nth_mono)
    then have "length (as_bytes q') \<le> length (as_bytes q)" by (auto simp: row_order_def)
    moreover have "prefix q' q \<or> prefix q q'" using i(3) q'(1) prefix_same_cases by blast
    ultimately show ?thesis using as_bytes_longer [of q q'] by (metis leD prefix_order.refl)
  qed
  moreover have "configured rows global q = Some t" using i(1,2) set_L nth_mem by metis
  ultimately show thesis using that i(3) by blast
qed

text \<open>
  C38. The time to live of a key is that of its longest configured prefix: trying the prefixes of
  the key from the key itself down to the empty one, the first that has a row (the last row of
  that prefix, negative values read as zero, the global knob standing for the empty prefix).
\<close>

theorem retention_longest_prefix:
  "ttl_for_key (compile rows global) key = governing (configured rows global) key (length key)"
proof (cases "ttl_for_key (compile rows global) key")
  case None
  then have none: "\<not> prefix q key" if "(q, t) \<in> set (rp_rows (compile rows global))" for q t
    using that by (auto simp: ttl_for_key_def find_None_iff)
  have "\<not> prefix q key" if "configured rows global q = Some t" for q t
    by (rule none [of q t]) (use that in \<open>simp add: compile_def compile_rows_lookup\<close>)
  then have "governing (configured rows global) key (length key) = None"
    by (metis governing_None option.exhaust take_is_prefix)
  with None show ?thesis by simp
next
  case (Some t)
  then obtain q where q: "prefix q key" "configured rows global q = Some t"
    and longest: "\<And>q' t'. prefix q' key \<Longrightarrow> configured rows global q' = Some t' \<Longrightarrow> prefix q' q"
    by (rule ttl_for_key_Some) blast
  from q(1) have take_q: "take (length q) key = q" and "length q \<le> length key"
    by (auto simp: prefix_length_le elim: prefixE)
  with q(2) obtain t' where t': "governing (configured rows global) key (length key) = Some t'"
    using governing_None by (metis option.distinct(1) option.exhaust)
  then obtain m where m: "m \<le> length key" "configured rows global (take m key) = Some t'"
    and above: "\<And>j. m < j \<Longrightarrow> j \<le> length key \<Longrightarrow> configured rows global (take j key) = None"
    using governing_Some by metis
  have "length q \<le> m" using above [of "length q"] q take_q \<open>length q \<le> length key\<close> by fastforce
  moreover have "m \<le> length q"
    using longest [OF take_is_prefix m(2)] m(1) by (auto dest: prefix_length_le)
  ultimately show ?thesis using Some t' m(2) q(2) take_q by simp
qed

text \<open>
  C39. The groomer may drop a segment by its zone alone: where one row covers the whole key range
  and the newest timestamp is older than the largest time to live of the rows that meet the range,
  no record of the segment would be kept by the per-record rule of compaction.
\<close>

theorem retention_zone_drop_sound:
  assumes "covers_range p lo hi" and "max_ttl_in_range p lo hi = Some T"
    and "max_ts < saturating_sub now T"
    and "lo \<le> rec_key r" and "rec_key r \<le> hi" and "rec_timestamp r \<le> max_ts"
  shows "\<not> retained p now (rec_key r) r"
proof -
  from policy.zone_expired [OF assms(1,2,4,5), of max_ts now] assms(3)
  obtain t where "ttl_for_key p (rec_key r) = Some t" "max_ts < saturating_sub now t" by auto
  with assms(6) show ?thesis by (simp add: retained_def cutoff_for_key_def)
qed

theorem retention_zone_drop_sound_witness:
  "\<not> retained (compile [(lit ''s/'', 100), (lit ''s/t1/'', 1000)] None) 5000 (lit ''s/b'')
       \<lparr> rec_key = lit ''s/b'', rec_timestamp = 3000, rec_labels = fmempty, rec_numerics = fmempty,
         rec_payload = [], rec_text = None \<rparr>"
  using retention_zone_drop_sound
    [of "compile [(lit ''s/'', 100), (lit ''s/t1/'', 1000)] None" "lit ''s/a''" "lit ''s/z''" 1000 3999 5000
        "\<lparr> rec_key = lit ''s/b'', rec_timestamp = 3000, rec_labels = fmempty, rec_numerics = fmempty,
           rec_payload = [], rec_text = None \<rparr>"]
  by code_simp

end
