(* ===== verification/Manifest_File.thy ===== *)
theory Manifest_File
  imports Segment_File Zone_Map Retention
begin

text \<open>
  The manifest (\<^verbatim>\<open>src/src/manifest.rs\<close>): the list of live segments, its file format with
  version gate, the write-temp, fsync, rename protocol that replaces it, segment paths, and the
  identity a segment has in the section cache.
\<close>

section \<open>Segments and the manifest\<close>

datatype Tier = Hot | Cold | Remote

record SegmentMeta =
  sm_id :: nat
  sm_file :: rstr
  sm_tier :: Tier
  sm_zone :: ZoneMap
  sm_bytes :: nat
  sm_created :: int

record Manifest =
  mf_next_segment_id :: nat
  mf_segments :: "SegmentMeta list"
  mf_blobs :: "rstr fset"

definition manifest_default :: Manifest where
  "manifest_default = \<lparr> mf_next_segment_id = 0, mf_segments = [], mf_blobs = {||} \<rparr>"

text \<open>A segment's file name, \<^verbatim>\<open>seg-{seq:016}.gird\<close>.\<close>

definition seg_file :: "nat \<Rightarrow> rstr" where
  "seg_file seq = lit ''seg-'' @ dec_pad 16 seq @ lit ''.gird''"

definition strip_prefix :: "rstr \<Rightarrow> rstr \<Rightarrow> rstr option" where
  "strip_prefix p s = (if prefix p s then Some (drop (length p) s) else None)"

definition strip_suffix :: "rstr \<Rightarrow> rstr \<Rightarrow> rstr option" where
  "strip_suffix p s = (if suffix p s then Some (take (length s - length p) s) else None)"

definition cache_key :: "SegmentMeta \<Rightarrow> nat" where
  "cache_key m =
     (case Option.bind (Option.bind (strip_prefix (lit ''seg-'') (sm_file m)) (strip_suffix (lit ''.gird'')))
             parse_u64 of
        Some seq \<Rightarrow> seq
      | None \<Rightarrow> sm_id m)"

type_synonym path = "rstr list"

definition PULL_SUBDIR :: rstr where "PULL_SUBDIR = lit ''pull''"

definition SEGMENT_KEY_PREFIX :: rstr where "SEGMENT_KEY_PREFIX = lit ''seg-''"

definition segment_path :: "path \<Rightarrow> path \<Rightarrow> SegmentMeta \<Rightarrow> path" where
  "segment_path hot_dir cold_dir m =
     (case sm_tier m of
        Hot \<Rightarrow> hot_dir @ [sm_file m]
      | Cold \<Rightarrow> cold_dir @ [sm_file m]
      | Remote \<Rightarrow> hot_dir @ [PULL_SUBDIR, sm_file m])"

section \<open>The manifest file\<close>

record man_ext = codec_ext +
  rmp_manifest_to_vec :: "Manifest \<Rightarrow> rstr + byte list"
  rmp_manifest_from_slice :: "byte list \<Rightarrow> rstr + Manifest"

definition MANIFEST_MAGIC :: nat where "MANIFEST_MAGIC = 0x4e414d47"

definition MANIFEST_VERSION :: nat where "MANIFEST_VERSION = 3"

definition manifest_parse :: "('x) man_ext_scheme \<Rightarrow> byte list \<Rightarrow> Manifest result" where
  "manifest_parse X body =
     (case rmp_manifest_from_slice X body of
        Inl e \<Rightarrow> Inl (Corrupt ''manifest'' e)
      | Inr m \<Rightarrow> Inr m)"

text \<open>The argument is what reading the path gives: an I/O error, or the bytes.\<close>

definition manifest_load :: "('x) man_ext_scheme \<Rightarrow> io_kind + byte list \<Rightarrow> Manifest result" where
  "manifest_load X r =
     (case r of
        Inl NotFound \<Rightarrow> Inr manifest_default
      | Inl e \<Rightarrow> Inl (Io e)
      | Inr bytes \<Rightarrow>
          if 8 \<le> length bytes \<and> of_le (take 4 bytes) = MANIFEST_MAGIC then
            (let version = of_le (take 4 (drop 4 bytes)) in
             if MANIFEST_VERSION < version
             then Inl (Corrupt ''manifest'' (lit ''unsupported manifest version '' @ dec version))
             else manifest_parse X (drop 8 bytes))
          else manifest_parse X bytes)"

definition manifest_bytes :: "('x) man_ext_scheme \<Rightarrow> Manifest \<Rightarrow> byte list result" where
  "manifest_bytes X m =
     (case rmp_manifest_to_vec X m of
        Inl e \<Rightarrow> Inl (Encode e)
      | Inr body \<Rightarrow> Inr (u32_le MANIFEST_MAGIC @ u32_le MANIFEST_VERSION @ body))"

section \<open>File operations\<close>

text \<open>
  The directory as the code leaves it: files by path. Writing a file is not atomic, so a crash
  while it runs leaves any prefix of the bytes; \<^verbatim>\<open>sync_all\<close> makes what was written
  permanent; renaming replaces the target at once.
\<close>

type_synonym fsys = "(path, byte list) fmap"

datatype fs_op =
    FsWrite path "byte list"
  | FsSync path
  | FsRename path path
  | FsRemove path

fun fs_step :: "fs_op \<Rightarrow> fsys \<Rightarrow> fsys" where
  "fs_step (FsWrite p bs) d = fmupd p bs d"
| "fs_step (FsSync p) d = d"
| "fs_step (FsRename p q) d = (case fmlookup d p of None \<Rightarrow> d | Some bs \<Rightarrow> fmupd q bs (fmdrop p d))"
| "fs_step (FsRemove p) d = fmdrop p d"

definition fs_run :: "fs_op list \<Rightarrow> fsys \<Rightarrow> fsys" where
  "fs_run ops d = fold fs_step ops d"

definition fs_read :: "fsys \<Rightarrow> path \<Rightarrow> io_kind + byte list" where
  "fs_read d p = (case fmlookup d p of None \<Rightarrow> Inl NotFound | Some bs \<Rightarrow> Inr bs)"

text \<open>
  The directories a crash can leave: the operations before the crash are done; the one it hit is
  not done, or -- a write -- done up to any prefix of its bytes; and a finished write that no sync
  of its file has followed may still be torn the same way.
\<close>

inductive fs_crash :: "fs_op list \<Rightarrow> fsys \<Rightarrow> fsys \<Rightarrow> bool" where
  crash_now: "fs_crash ops d d"
| crash_torn: "fs_crash (FsWrite p bs # ops) d (fmupd p (take n bs) d)"
| crash_unsynced: "FsSync p \<notin> set ops \<Longrightarrow> fs_crash ops (fmupd p (take n bs) d) d' \<Longrightarrow>
    fs_crash (FsWrite p bs # ops) d d'"
| crash_later: "fs_crash ops (fs_step op d) d' \<Longrightarrow> fs_crash (op # ops) d d'"

inductive_cases fs_crash_NilE: "fs_crash [] d d'"
inductive_cases fs_crash_ConsE: "fs_crash (op # ops) d d'"

definition manifest_path :: "path \<Rightarrow> path" where
  "manifest_path hot_dir = hot_dir @ [lit ''MANIFEST'']"

definition manifest_tmp :: "path \<Rightarrow> path" where
  "manifest_tmp hot_dir = hot_dir @ [lit ''MANIFEST.tmp'']"

definition manifest_store :: "('x) man_ext_scheme \<Rightarrow> path \<Rightarrow> Manifest \<Rightarrow> fs_op list result" where
  "manifest_store X hot_dir m =
     and_then (manifest_bytes X m) (\<lambda>bytes.
       Inr [FsWrite (manifest_tmp hot_dir) bytes, FsSync (manifest_tmp hot_dir),
            FsRename (manifest_tmp hot_dir) (manifest_path hot_dir)])"

section \<open>Lemmas\<close>

text \<open>
  What the manifest relies on of the serialiser: it reads back what it wrote, and a body never
  starts like the versioned header (a MessagePack struct starts with an array marker).
\<close>

definition man_rmp_ok :: "('x) man_ext_scheme \<Rightarrow> bool" where
  "man_rmp_ok X \<longleftrightarrow>
     (\<forall>m body. rmp_manifest_to_vec X m = Inr body \<longrightarrow>
        rmp_manifest_from_slice X body = Inr m \<and> of_le (take 4 body) \<noteq> MANIFEST_MAGIC)"

lemma manifest_tmp_neq [simp]: "manifest_tmp h \<noteq> manifest_path h" "manifest_path h \<noteq> manifest_tmp h"
  by (simp_all add: manifest_tmp_def manifest_path_def lit_def)

lemma load_manifest_bytes:
  assumes "man_rmp_ok X" and "manifest_bytes X m = Inr bytes"
  shows "manifest_load X (Inr bytes) = Inr m"
  using assms
  by (auto simp: manifest_bytes_def manifest_load_def man_rmp_ok_def manifest_parse_def of_le_u32
        MANIFEST_MAGIC_def MANIFEST_VERSION_def split: sum.splits)

lemma manifest_store_crash:
  assumes "manifest_store X hot m = Inr ops" and "manifest_bytes X m = Inr bytes"
    and "fs_crash ops d d'"
  shows "fmlookup d' (manifest_path hot) = fmlookup d (manifest_path hot) \<or>
         fmlookup d' (manifest_path hot) = Some bytes"
  using assms
  by (auto simp: manifest_store_def elim!: fs_crash_ConsE fs_crash_NilE)

lemma manifest_store_run:
  assumes "manifest_store X hot m = Inr ops" and "manifest_bytes X m = Inr bytes"
  shows "fmlookup (fs_run ops d) (manifest_path hot) = Some bytes"
  using assms by (auto simp: manifest_store_def fs_run_def)

text \<open>
  C34. Replacing the manifest is atomic: after a crash at any point of the write-temp, fsync,
  rename sequence -- a torn or unsynced temporary file included -- opening finds the manifest that
  was there before or the new one, never a mixture and never an error the old file did not give;
  and when the sequence completes, opening finds the new one.
\<close>

theorem manifest_store_atomic:
  assumes "man_rmp_ok X" and "manifest_store X hot m = Inr ops"
  shows "(\<forall>d'. fs_crash ops d d' \<longrightarrow>
            manifest_load X (fs_read d' (manifest_path hot)) = manifest_load X (fs_read d (manifest_path hot)) \<or>
            manifest_load X (fs_read d' (manifest_path hot)) = Inr m) \<and>
         manifest_load X (fs_read (fs_run ops d) (manifest_path hot)) = Inr m"
proof -
  from assms(2) obtain bytes where b: "manifest_bytes X m = Inr bytes"
    by (auto simp: manifest_store_def)
  note load = load_manifest_bytes [OF assms(1) b]
  show ?thesis
    using manifest_store_crash [OF assms(2) b] manifest_store_run [OF assms(2) b, of d] load
    by (fastforce simp: fs_read_def)
qed

text \<open>An instance of the serialisers, for the witnesses.\<close>

definition sample_manifest :: Manifest where
  "sample_manifest = \<lparr> mf_next_segment_id = 7, mf_segments = [], mf_blobs = {||} \<rparr>"

definition sample_man_ext :: man_ext where
  "sample_man_ext =
     \<lparr> rmp_to_vec = (\<lambda>r. Inl []), rmp_from_slice = (\<lambda>b. None), crc32_hash = (\<lambda>b. 0),
       flate_deflate = (\<lambda>b. b), flate_inflate = Some,
       rmp_blocks_to_vec = (\<lambda>b. Inl []), rmp_blocks_from_slice = (\<lambda>b. Inl []),
       rmp_dir_to_vec = (\<lambda>b. Inl []), rmp_dir_from_slice = (\<lambda>b. Inl []),
       rmp_records_from_slice = (\<lambda>b. Inl []),
       rmp_manifest_to_vec = (\<lambda>m. if m = sample_manifest then Inr [147, 7, 144, 144] else Inl []),
       rmp_manifest_from_slice = (\<lambda>b. if b = [147, 7, 144, 144] then Inr sample_manifest else Inl []) \<rparr>"

lemma sample_man_ext_ok: "man_rmp_ok sample_man_ext"
  by (simp add: man_rmp_ok_def sample_man_ext_def MANIFEST_MAGIC_def)

theorem manifest_store_atomic_witness:
  "\<exists>ops. manifest_store sample_man_ext [lit ''h''] sample_manifest = Inr ops \<and>
     manifest_load sample_man_ext (fs_read (fs_run ops fmempty) (manifest_path [lit ''h''])) = Inr sample_manifest"
proof -
  obtain ops where ops: "manifest_store sample_man_ext [lit ''h''] sample_manifest = Inr ops"
    by (auto simp: manifest_store_def manifest_bytes_def sample_man_ext_def)
  from manifest_store_atomic [OF sample_man_ext_ok ops, of fmempty] ops show ?thesis by blast
qed

text \<open>
  Manifest versions: a file the current code wrote loads to the manifest it was written from; a
  bare body without header (the first format) still loads; a header with a later version is an
  error whatever follows it; and a missing file is the empty manifest, any other read error an
  error.
\<close>

lemma manifest_versions:
  assumes "man_rmp_ok X" and "rmp_manifest_to_vec X m = Inr body" and "3 < v" and "v < 2 ^ 32"
  shows "manifest_load X (Inr (u32_le MANIFEST_MAGIC @ u32_le 3 @ body)) = Inr m \<and>
         manifest_load X (Inr body) = Inr m \<and>
         manifest_load X (Inr (u32_le MANIFEST_MAGIC @ u32_le v @ rest)) =
           Inl (Corrupt ''manifest'' (lit ''unsupported manifest version '' @ dec v)) \<and>
         manifest_load X (Inl NotFound) = Inr manifest_default \<and>
         manifest_load X (Inl OtherIo) = Inl (Io OtherIo)"
  using assms
  by (auto simp: manifest_load_def man_rmp_ok_def manifest_parse_def of_le_u32
        MANIFEST_MAGIC_def MANIFEST_VERSION_def)

lemma manifest_versions_witness:
  "manifest_load sample_man_ext (Inr [147, 7, 144, 144]) = Inr sample_manifest"
proof -
  have "rmp_manifest_to_vec sample_man_ext sample_manifest = Inr [147, 7, 144, 144]"
    by (simp add: sample_man_ext_def)
  from manifest_versions [OF sample_man_ext_ok this, of 4 "[]"] show ?thesis by simp
qed

lemma cache_key_of_seg_file:
  assumes "seq < 2 ^ 64" and "sm_file m = seg_file seq"
  shows "cache_key m = seq"
proof -
  have "strip_prefix (lit ''seg-'') (seg_file seq) = Some (dec_pad 16 seq @ lit ''.gird'')"
    by (simp add: strip_prefix_def seg_file_def)
  moreover have "strip_suffix (lit ''.gird'') (dec_pad 16 seq @ lit ''.gird'') = Some (dec_pad 16 seq)"
    by (simp add: strip_suffix_def suffix_def)
  ultimately show ?thesis using assms parse_u64_dec_pad [of seq 16] by (simp add: cache_key_def)
qed

text \<open>
  Two segments whose files were named from different sequence numbers never share a cache
  identity, whatever recency ids they carry: the identity is the sequence number.
\<close>

lemma cache_key_never_shared:
  assumes "sm_file a = seg_file s" and "sm_file b = seg_file t" and "s < 2 ^ 64" and "t < 2 ^ 64"
  shows "cache_key a = cache_key b \<longleftrightarrow> s = t"
  using assms cache_key_of_seg_file by metis

definition sample_meta :: "nat \<Rightarrow> nat \<Rightarrow> SegmentMeta" where
  "sample_meta ident seq =
     \<lparr> sm_id = ident, sm_file = seg_file seq, sm_tier = Hot, sm_zone = zone_build [], sm_bytes = 0,
       sm_created = 0 \<rparr>"

lemma cache_key_never_shared_witness: "cache_key (sample_meta 5 8) \<noteq> cache_key (sample_meta 5 9)"
  using cache_key_never_shared [of "sample_meta 5 8" 8 "sample_meta 5 9" 9] by (simp add: sample_meta_def)

end
