(* ===== verification/Section_Cache.thy ===== *)
theory Section_Cache
  imports Manifest_File "HOL-Library.AList"
begin

text \<open>
  The section cache (\<^verbatim>\<open>src/src/cache.rs\<close>) and the sections it keeps
  (\<^verbatim>\<open>src/src/segment.rs\<close>, \<^verbatim>\<open>Section\<close>, \<^verbatim>\<open>SectionId\<close> and their sizes). The
  \<^verbatim>\<open>HashMap\<close> is an association list: its order is arbitrary, and no result depends on it
  because recency stamps are unique.
\<close>

section \<open>Sections and their sizes\<close>

datatype SectionId =
    IdDir | IdKeys | IdTimestamps | IdBlocks | IdPayloadIndex | IdLabel rstr | IdNumeric rstr
  | IdTextIndex | IdTokens | IdV1Whole

datatype Section =
    SecDir SegDir
  | SecKeys KeysSection
  | SecTimestamps "int list"
  | SecBlocks "BlockMeta list"
  | SecPayloadIndex PayloadIndex
  | SecLabel LabelColumn
  | SecNumeric NumericColumn
  | SecTextIndex TextIndex
  | SecTokens TokenIndex
  | SecV1Whole SegmentColumns

definition str_len :: "rstr \<Rightarrow> nat" where
  "str_len s = length (as_bytes s)"

definition keys_bytes :: "KeysSection \<Rightarrow> nat" where
  "keys_bytes k = length (ks_blob k) + length (ks_offsets k) * 8 + 32"

definition payload_index_bytes :: "PayloadIndex \<Rightarrow> nat" where
  "payload_index_bytes p = length (pi_rel p) * 8 + 32"

definition text_index_bytes :: "TextIndex \<Rightarrow> nat" where
  "text_index_bytes t =
     length (ti_present t) + length (ti_rel t) * 8 + 32 +
     (case ti_compressed t of None \<Rightarrow> 0 | Some c \<Rightarrow> length c + 24)"

definition token_index_bytes :: "TokenIndex \<Rightarrow> nat" where
  "token_index_bytes t =
     64 + sum_list (map (\<lambda>s. str_len s + 24) (tki_tokens t)) +
     (case tki_postings t of
        Eager ls \<Rightarrow> sum_list (map (\<lambda>p. length p * 4 + 24) ls)
      | Lazy blob spans \<Rightarrow> length blob + length spans * 12 + 48)"

definition label_bytes :: "LabelColumn \<Rightarrow> nat" where
  "label_bytes col =
     (case col of
        LabelDict dict code_of codes \<Rightarrow> length codes * 2 + sum_list (map (\<lambda>s. str_len s + 24) dict)
      | LabelPlain vals \<Rightarrow> sum_list (map (\<lambda>v. case v of Some s \<Rightarrow> str_len s + 24 | None \<Rightarrow> 8) vals))"

definition numeric_bytes :: "NumericColumn \<Rightarrow> nat" where
  "numeric_bytes col = length (nc_present col) + length (nc_values col) * 8 + 32"

definition block_bytes :: "BlockMeta list \<Rightarrow> nat" where
  "block_bytes bs =
     64 + sum_list (map (\<lambda>b. 96 + str_len (bm_first_key b) + str_len (bm_last_key b) +
                            fcard (fmdom (bm_numerics b)) * 40 + fcard (fmdom (bm_label_bitsets b)) * 40) bs)"

definition dir_bytes :: "SegDir \<Rightarrow> nat" where
  "dir_bytes d = 64 + sum_list (map (\<lambda>(_, name). str_len name + 48) (bt_keys (sg_entries d)))"

definition heap_bytes :: "SegmentColumns \<Rightarrow> nat" where
  "heap_bytes c =
     keys_bytes (sc_keys c) + length (sc_timestamps c) * 8 +
     sum_list (map label_bytes (bt_values (sc_labels c))) +
     sum_list (map numeric_bytes (bt_values (sc_numerics c))) +
     (case sc_payloads c of
        PayloadsFile pi \<Rightarrow> payload_index_bytes pi
      | PayloadsMem v \<Rightarrow> sum_list (map (\<lambda>p. length p + 24) v)) + 256"

definition section_bytes :: "Section \<Rightarrow> nat" where
  "section_bytes s =
     (case s of
        SecDir d \<Rightarrow> dir_bytes d
      | SecKeys k \<Rightarrow> keys_bytes k
      | SecTimestamps t \<Rightarrow> length t * 8 + 32
      | SecBlocks b \<Rightarrow> block_bytes b
      | SecPayloadIndex p \<Rightarrow> payload_index_bytes p
      | SecLabel l \<Rightarrow> label_bytes l
      | SecNumeric n \<Rightarrow> numeric_bytes n
      | SecTextIndex t \<Rightarrow> text_index_bytes t
      | SecTokens t \<Rightarrow> token_index_bytes t
      | SecV1Whole c \<Rightarrow> heap_bytes c)"

section \<open>The cache\<close>

record CacheEntry =
  ce_section :: Section
  ce_bytes :: nat
  ce_used :: nat

record SegmentCache =
  ca_capacity_bytes :: nat
  ca_inner :: "((nat \<times> SectionId) \<times> CacheEntry) list"
  ca_clock :: nat

definition cache_new :: "nat \<Rightarrow> SegmentCache" where
  "cache_new capacity = \<lparr> ca_capacity_bytes = capacity, ca_inner = [], ca_clock = 0 \<rparr>"

definition cache_get :: "nat \<Rightarrow> SectionId \<Rightarrow> SegmentCache \<Rightarrow> Section option \<times> SegmentCache" where
  "cache_get ident sid c =
     (case map_of (ca_inner c) (ident, sid) of
        Some e \<Rightarrow>
          (Some (ce_section e),
           c\<lparr> ca_inner := AList.update (ident, sid) (e\<lparr> ce_used := ca_clock c \<rparr>) (ca_inner c),
              ca_clock := ca_clock c + 1 \<rparr>)
      | None \<Rightarrow> (None, c))"

definition total_bytes :: "((nat \<times> SectionId) \<times> CacheEntry) list \<Rightarrow> nat" where
  "total_bytes es = sum_list (map (\<lambda>(_, e). ce_bytes e) es)"

text \<open>\<^verbatim>\<open>min_by_key\<close> on the stamps: the first entry with the least one.\<close>

fun lru_victim :: "((nat \<times> SectionId) \<times> CacheEntry) list \<Rightarrow> (nat \<times> SectionId) option" where
  "lru_victim [] = None"
| "lru_victim ((k, e) # es) =
     (case lru_victim es of
        None \<Rightarrow> Some k
      | Some k' \<Rightarrow>
          (case map_of es k' of
             Some e' \<Rightarrow> if ce_used e \<le> ce_used e' then Some k else Some k'
           | None \<Rightarrow> Some k))"

function evict :: "nat \<Rightarrow> nat \<Rightarrow> ((nat \<times> SectionId) \<times> CacheEntry) list \<Rightarrow> ((nat \<times> SectionId) \<times> CacheEntry) list" where
  "evict cap tot es =
     (if cap < tot \<and> 1 < length es then
        (case lru_victim es of
           None \<Rightarrow> es
         | Some k \<Rightarrow>
             (case map_of es k of
                None \<Rightarrow> es
              | Some e \<Rightarrow> evict cap (tot - ce_bytes e) (AList.delete k es)))
      else es)"
  by pat_completeness auto
termination
proof (relation "measure (\<lambda>(cap, tot, es). length es)", simp, goal_cases)
  case (1 cap tot es k e)
  then have "k \<in> fst ` set es" by (metis domI dom_map_of_conv_image_fst)
  then show ?case by (auto simp: AList.delete_eq intro!: length_filter_less)
qed

declare evict.simps [simp del]

definition cache_put :: "nat \<Rightarrow> SectionId \<Rightarrow> Section \<Rightarrow> nat \<Rightarrow> SegmentCache \<Rightarrow> SegmentCache" where
  "cache_put ident sid s bytes c =
     (let es = AList.update (ident, sid) \<lparr> ce_section = s, ce_bytes = bytes, ce_used = ca_clock c \<rparr> (ca_inner c)
      in c\<lparr> ca_inner := evict (ca_capacity_bytes c) (total_bytes es) es, ca_clock := ca_clock c + 1 \<rparr>)"

definition invalidate :: "nat \<Rightarrow> SegmentCache \<Rightarrow> SegmentCache" where
  "invalidate ident c = c\<lparr> ca_inner := filter (\<lambda>((seg, _), _). seg \<noteq> ident) (ca_inner c) \<rparr>"


section \<open>The cache invariant\<close>

text \<open>
  Keys and recency stamps are unique, stamps are older than the clock, and the bytes held are
  within the budget unless a single entry is left.
\<close>

definition keyed_once :: "((nat \<times> SectionId) \<times> CacheEntry) list \<Rightarrow> bool" where
  "keyed_once es \<longleftrightarrow> distinct (map fst es) \<and> distinct (map (\<lambda>(_, e). ce_used e) es)"

definition cache_ok :: "SegmentCache \<Rightarrow> bool" where
  "cache_ok c \<longleftrightarrow>
     keyed_once (ca_inner c) \<and> (\<forall>(k, e) \<in> set (ca_inner c). ce_used e < ca_clock c) \<and>
     (total_bytes (ca_inner c) \<le> ca_capacity_bytes c \<or> length (ca_inner c) \<le> 1)"

lemma lru_victim_None [simp]: "lru_victim es = None \<longleftrightarrow> es = []"
  by (cases es rule: lru_victim.cases) (auto split: option.splits)

lemma lru_victim_min:
  "distinct (map fst es) \<Longrightarrow> lru_victim es = Some k \<Longrightarrow>
     \<exists>e. map_of es k = Some e \<and> (\<forall>(k', e') \<in> set es. ce_used e \<le> ce_used e')"
proof (induction es arbitrary: k rule: lru_victim.induct)
  case (2 k0 e0 es)
  show ?case
  proof (cases "lru_victim es")
    case (Some k')
    with 2 obtain e' where e': "map_of es k' = Some e'" "\<forall>(k'', e'') \<in> set es. ce_used e' \<le> ce_used e''"
      by auto
    with 2(2) have "k' \<noteq> k0" by (force dest: map_of_SomeD)
    with 2(3) Some e' show ?thesis by (fastforce split: if_splits)
  qed (use 2 in auto)
qed simp

lemma keyed_once_delete [simp]: "keyed_once es \<Longrightarrow> keyed_once (AList.delete k es)"
  by (auto simp: keyed_once_def AList.delete_eq distinct_map intro: inj_on_subset)

lemma total_bytes_delete:
  "distinct (map fst es) \<Longrightarrow> map_of es k = Some e \<Longrightarrow>
     total_bytes (AList.delete k es) = total_bytes es - ce_bytes e \<and> ce_bytes e \<le> total_bytes es"
proof (induction es)
  case (Cons x es)
  obtain k0 e0 where x: "x = (k0, e0)" by fastforce
  show ?case
  proof (cases "k0 = k")
    case True
    with Cons.prems x have "AList.delete k es = es" by (metis AList.delete_id distinct.simps(2) fst_conv list.simps(9) list.set_map)
    with True Cons.prems x show ?thesis by (simp add: total_bytes_def)
  next
    case False
    with Cons x show ?thesis by (auto simp: total_bytes_def)
  qed
qed simp

text \<open>Eviction removes the least recently used entries, and stops within the budget.\<close>

lemma evict_props:
  assumes "keyed_once es"
  shows "keyed_once (evict cap (total_bytes es) es) \<and>
         set (evict cap (total_bytes es) es) \<subseteq> set es \<and>
         (total_bytes (evict cap (total_bytes es) es) \<le> cap \<or> length (evict cap (total_bytes es) es) \<le> 1) \<and>
         (\<forall>x \<in> set (evict cap (total_bytes es) es). \<forall>y \<in> set es - set (evict cap (total_bytes es) es).
            ce_used (snd y) < ce_used (snd x)) \<and>
         (es \<noteq> [] \<longrightarrow> evict cap (total_bytes es) es \<noteq> [])"
  using assms
proof (induction "length es" arbitrary: es rule: less_induct)
  case less
  show ?case
  proof (cases "cap < total_bytes es \<and> 1 < length es")
    case False
    then have "evict cap (total_bytes es) es = es" by (subst evict.simps) auto
    with False less.prems show ?thesis by auto
  next
    case True
    then obtain k where k: "lru_victim es = Some k" by (cases "lru_victim es") auto
    with less.prems obtain e where e: "map_of es k = Some e"
      and least: "\<forall>(k', e') \<in> set es. ce_used e \<le> ce_used e'"
      using lru_victim_min [of es k] unfolding keyed_once_def by blast
    let ?es = "AList.delete k es"
    from e have mem: "(k, e) \<in> set es" by (rule map_of_SomeD)
    have uniq: "e' = e" if "(k, e') \<in> set es" for e'
      using eq_key_imp_eq_value [of es k e' e] that mem less.prems unfolding keyed_once_def by blast
    have "set ?es = {x \<in> set es. fst x \<noteq> k}" by (auto simp: AList.delete_eq)
    with uniq mem have set_es: "set es = insert (k, e) (set ?es)" by fastforce
    have strict: "ce_used e < ce_used (snd y)" if "y \<in> set ?es" for y
    proof -
      from that have y: "y \<in> set es" "fst y \<noteq> k" by (auto simp: AList.delete_eq)
      have "inj_on (\<lambda>(_, e). ce_used e) (set es)"
        using less.prems unfolding keyed_once_def distinct_map by blast
      from inj_onD [OF this _ y(1) mem] y(2) have "ce_used (snd y) \<noteq> ce_used e"
        by (auto simp: case_prod_beta)
      moreover have "ce_used e \<le> ce_used (snd y)" using bspec [OF least y(1)] by (simp add: case_prod_beta)
      ultimately show ?thesis by simp
    qed
    have len: "length ?es = length es - 1"
    proof -
      have "distinct es" "distinct ?es"
        using less.prems keyed_once_delete [OF less.prems, of k] unfolding keyed_once_def distinct_map by blast+
      then have "length es = card (set es)" "length ?es = card (set ?es)" by (simp_all only: distinct_card)
      moreover have "(k, e) \<notin> set ?es" by (simp add: AList.delete_eq)
      ultimately have "length es = Suc (length ?es)" using set_es by (metis card_insert_disjoint List.finite_set)
      then show ?thesis by simp
    qed
    have step: "evict cap (total_bytes es) es = evict cap (total_bytes ?es) ?es"
      using True k e total_bytes_delete [of es k e] less.prems
      by (subst evict.simps) (simp add: keyed_once_def)
    have IH: "keyed_once (evict cap (total_bytes ?es) ?es) \<and>
         set (evict cap (total_bytes ?es) ?es) \<subseteq> set ?es \<and>
         (total_bytes (evict cap (total_bytes ?es) ?es) \<le> cap \<or> length (evict cap (total_bytes ?es) ?es) \<le> 1) \<and>
         (\<forall>x \<in> set (evict cap (total_bytes ?es) ?es). \<forall>y \<in> set ?es - set (evict cap (total_bytes ?es) ?es).
            ce_used (snd y) < ce_used (snd x)) \<and>
         (?es \<noteq> [] \<longrightarrow> evict cap (total_bytes ?es) ?es \<noteq> [])"
    proof (rule less.hyps)
      show "length ?es < length es" using len True by linarith
      show "keyed_once ?es" using less.prems by simp
    qed
    let ?ev = "evict cap (total_bytes ?es) ?es"
    from len True have nonempty: "?es \<noteq> []" by auto
    have "ce_used (snd y) < ce_used (snd x)" if "x \<in> set ?ev" "y \<in> set es - set ?ev" for x y
    proof (cases "y = (k, e)")
      case True
      moreover from that(1) IH have "x \<in> set ?es" by blast
      ultimately show ?thesis using strict [of x] by simp
    next
      case False
      with that set_es IH show ?thesis by blast
    qed
    moreover have "set ?ev \<subseteq> set es" using IH set_es by blast
    ultimately show ?thesis unfolding step using IH nonempty by blast
  qed
qed


section \<open>Runs of cache operations\<close>

datatype cache_op =
    CGet nat SectionId
  | CPut nat SectionId Section nat
  | CInvalidate nat

fun cache_apply :: "cache_op \<Rightarrow> SegmentCache \<Rightarrow> SegmentCache" where
  "cache_apply (CGet i sid) c = snd (cache_get i sid c)"
| "cache_apply (CPut i sid s b) c = cache_put i sid s b c"
| "cache_apply (CInvalidate i) c = invalidate i c"

text \<open>The abstract cache: a map that keeps the last section put and forgets nothing but by invalidation.\<close>

fun map_apply :: "cache_op \<Rightarrow> (nat \<times> SectionId \<rightharpoonup> Section) \<Rightarrow> (nat \<times> SectionId \<rightharpoonup> Section)" where
  "map_apply (CGet i sid) m = m"
| "map_apply (CPut i sid s b) m = m((i, sid) \<mapsto> s)"
| "map_apply (CInvalidate i) m = (\<lambda>(j, sid). if j = i then None else m (j, sid))"

definition cache_view :: "SegmentCache \<Rightarrow> nat \<times> SectionId \<rightharpoonup> Section" where
  "cache_view c k = map_option ce_section (map_of (ca_inner c) k)"

lemma keyed_once_update:
  assumes "keyed_once es" and "\<forall>(k, e) \<in> set es. ce_used e < n" and "ce_used e = n"
  shows "keyed_once (AList.update k e es)"
  using assms
proof (induction es)
  case (Cons x es)
  have "ce_used e \<notin> (\<lambda>(_, e). ce_used e) ` set es" using Cons.prems by fastforce
  moreover have "fst x \<noteq> k \<Longrightarrow> ce_used (snd x) \<notin> (\<lambda>(_, e). ce_used e) ` set (AList.update k e es)"
  proof
    assume neq: "fst x \<noteq> k" and "ce_used (snd x) \<in> (\<lambda>(_, e). ce_used e) ` set (AList.update k e es)"
    then obtain k' e' where mem: "(k', e') \<in> set (AList.update k e es)" and u: "ce_used e' = ce_used (snd x)"
      by auto
    have "(k', e') = (k, e) \<or> (k', e') \<in> set es"
      using mem by (induction es) (auto split: if_splits)
    then show False using Cons.prems u unfolding keyed_once_def by force
  qed
  ultimately show ?case
    using Cons by (cases x) (auto simp: keyed_once_def AList.update_keys image_iff)
qed (simp add: keyed_once_def)

lemma set_update: "keyed_once es \<Longrightarrow> set (AList.update k e es) = insert (k, e) {x \<in> set es. fst x \<noteq> k}"
proof (induction es)
  case (Cons x es)
  then have es: "keyed_once es" and "fst x \<notin> fst ` set es" by (auto simp: keyed_once_def)
  then have new: "fst y \<noteq> fst x" if "y \<in> set es" for y using that by (metis image_eqI)
  show ?case
  proof (cases "fst x = k")
    case True
    with new have "{y \<in> set (x # es). fst y \<noteq> k} = set es" by auto
    with True show ?thesis by (cases x) simp
  next
    case False
    with Cons.IH [OF es] show ?thesis by (cases x) auto
  qed
qed simp

text \<open>What \<open>cache_put\<close> leaves.\<close>

lemma cache_put_props:
  assumes "cache_ok c"
  shows "cache_ok (cache_put i sid s b c)"
    and "cache_view (cache_put i sid s b c) \<subseteq>\<^sub>m (cache_view c)((i, sid) \<mapsto> s)"
    and "cache_view (cache_put i sid s b c) (i, sid) = Some s"
proof -
  let ?e = "\<lparr> ce_section = s, ce_bytes = b, ce_used = ca_clock c \<rparr>"
  let ?es = "AList.update (i, sid) ?e (ca_inner c)"
  let ?ev = "evict (ca_capacity_bytes c) (total_bytes ?es) ?es"
  have keyed: "keyed_once (ca_inner c)" and old: "\<forall>(k, e) \<in> set (ca_inner c). ce_used e < ca_clock c"
    using assms by (auto simp: cache_ok_def)
  have es: "keyed_once ?es" by (rule keyed_once_update [OF keyed old]) simp
  note ev = evict_props [OF es, of "ca_capacity_bytes c"]
  have bound: "ce_used e < ca_clock c + 1" if "(k, e) \<in> set ?es" for k e
  proof -
    from that have "(k, e) = ((i, sid), ?e) \<or> (k, e) \<in> set (ca_inner c)" unfolding set_update [OF keyed] by blast
    then show ?thesis
    proof
      assume "(k, e) \<in> set (ca_inner c)"
      from bspec [OF old this] show ?thesis by simp
    qed simp
  qed
  have "\<forall>(k, e) \<in> set ?ev. ce_used e < ca_clock c + 1" using ev bound by blast
  with ev show "cache_ok (cache_put i sid s b c)"
    unfolding cache_ok_def cache_put_def Let_def by simp
  have view: "cache_view (cache_put i sid s b c) k = map_option ce_section (map_of ?ev k)" for k
    by (simp add: cache_view_def cache_put_def Let_def)
  have sub: "map_of ?es k = Some e" if "map_of ?ev k = Some e" for k e
  proof -
    from map_of_SomeD [OF that] ev have "(k, e) \<in> set ?es" by blast
    with es show ?thesis unfolding keyed_once_def by (blast intro: map_of_is_SomeI)
  qed
  show "cache_view (cache_put i sid s b c) \<subseteq>\<^sub>m (cache_view c)((i, sid) \<mapsto> s)"
  proof (unfold map_le_def, intro ballI)
    fix k assume "k \<in> dom (cache_view (cache_put i sid s b c))"
    then obtain e where e: "map_of ?ev k = Some e" by (auto simp: view)
    from sub [OF e] have "((cache_view c)((i, sid) \<mapsto> s)) k = Some (ce_section e)"
      by (auto simp: cache_view_def AList.update_conv' split: if_splits)
    with e show "cache_view (cache_put i sid s b c) k = ((cache_view c)((i, sid) \<mapsto> s)) k"
      by (simp add: view)
  qed
  have "((i, sid), ?e) \<in> set ?ev"
  proof (rule ccontr)
    assume no: "((i, sid), ?e) \<notin> set ?ev"
    have new: "((i, sid), ?e) \<in> set ?es" by (simp add: set_update [OF keyed])
    then have "?es \<noteq> []" by auto
    with ev have "?ev \<noteq> []" by blast
    then obtain x where x: "x \<in> set ?ev" using last_in_set by blast
    from ev have "\<forall>x \<in> set ?ev. \<forall>y \<in> set ?es - set ?ev. ce_used (snd y) < ce_used (snd x)" by blast
    with no x new have "ce_used (snd ((i, sid), ?e)) < ce_used (snd x)" by blast
    then have "ca_clock c < ce_used (snd x)" by simp
    moreover have "x \<in> set ?es" using x ev by blast
    ultimately show False using bound [of "fst x" "snd x"] by simp
  qed
  moreover have "distinct (map fst ?ev)" using ev unfolding keyed_once_def by blast
  ultimately have "map_of ?ev (i, sid) = Some ?e" by (simp only: map_of_eq_Some_iff)
  then show "cache_view (cache_put i sid s b c) (i, sid) = Some s" by (simp add: view)
qed


lemma total_bytes_update:
  "map_of es k = Some e \<Longrightarrow> ce_bytes e' = ce_bytes e \<Longrightarrow>
     length (AList.update k e' es) = length es \<and> total_bytes (AList.update k e' es) = total_bytes es"
  by (induction es) (auto simp: total_bytes_def)

lemma cache_get_props:
  assumes "cache_ok c"
  shows "cache_ok (snd (cache_get i sid c))"
    and "cache_view (snd (cache_get i sid c)) = cache_view c"
    and "fst (cache_get i sid c) = cache_view c (i, sid)"
proof -
  have keyed: "keyed_once (ca_inner c)" and old: "\<forall>(k, e) \<in> set (ca_inner c). ce_used e < ca_clock c"
    and room: "total_bytes (ca_inner c) \<le> ca_capacity_bytes c \<or> length (ca_inner c) \<le> 1"
    using assms by (auto simp: cache_ok_def)
  show "fst (cache_get i sid c) = cache_view c (i, sid)"
    by (simp add: cache_get_def cache_view_def split: option.splits)
  show "cache_view (snd (cache_get i sid c)) = cache_view c"
    by (rule ext) (auto simp: cache_get_def cache_view_def AList.update_conv' split: option.splits)
  show "cache_ok (snd (cache_get i sid c))"
  proof (cases "map_of (ca_inner c) (i, sid)")
    case (Some e)
    let ?e = "e\<lparr> ce_used := ca_clock c \<rparr>"
    let ?es = "AList.update (i, sid) ?e (ca_inner c)"
    have "keyed_once ?es" by (rule keyed_once_update [OF keyed old]) simp
    moreover have "ce_used e' < ca_clock c + 1" if "(k, e') \<in> set ?es" for k e'
      using that old unfolding set_update [OF keyed] by fastforce
    moreover have "length ?es = length (ca_inner c) \<and> total_bytes ?es = total_bytes (ca_inner c)"
      using total_bytes_update [OF Some, of ?e] by simp
    ultimately show ?thesis using Some room by (auto simp: cache_ok_def cache_get_def)
  qed (use assms in \<open>simp add: cache_get_def\<close>)
qed


lemma invalidate_props:
  assumes "cache_ok c"
  shows "cache_ok (invalidate i c)"
    and "cache_view (invalidate i c) = (\<lambda>(j, sid). if j = i then None else cache_view c (j, sid))"
proof -
  let ?es = "filter (\<lambda>((seg, _), _). seg \<noteq> i) (ca_inner c)"
  have "total_bytes (filter P es) \<le> total_bytes es" for P es
    unfolding total_bytes_def by (induction es) auto
  from this [of "\<lambda>((seg, _), _). seg \<noteq> i" "ca_inner c"] length_filter_le [of "\<lambda>((seg, _), _). seg \<noteq> i" "ca_inner c"]
  have "total_bytes ?es \<le> ca_capacity_bytes c \<or> length ?es \<le> 1"
    using assms unfolding cache_ok_def by linarith
  moreover have "keyed_once ?es"
    using assms by (auto simp: cache_ok_def keyed_once_def distinct_map intro: inj_on_subset)
  moreover have "\<forall>(k, e) \<in> set ?es. ce_used e < ca_clock c" using assms by (auto simp: cache_ok_def)
  ultimately show "cache_ok (invalidate i c)" by (simp add: cache_ok_def invalidate_def)
  have "map_of (filter (\<lambda>((seg, _), _). seg \<noteq> i) es) (j, sid) = (if j = i then None else map_of es (j, sid))"
    for es :: "((nat \<times> SectionId) \<times> CacheEntry) list" and j sid
    by (induction es) auto
  then show "cache_view (invalidate i c) = (\<lambda>(j, sid). if j = i then None else cache_view c (j, sid))"
    by (auto simp: cache_view_def invalidate_def)
qed

section \<open>What a client of the cache relies on\<close>

locale lookaside =
  fixes get :: "'k \<Rightarrow> 'c \<Rightarrow> 'v option \<times> 'c"
    and put :: "'k \<Rightarrow> 'v \<Rightarrow> 'c \<Rightarrow> 'c"
    and view :: "'c \<Rightarrow> 'k \<rightharpoonup> 'v"
    and ok :: "'c \<Rightarrow> bool"
  assumes get_ok: "ok c \<Longrightarrow> ok (snd (get k c))"
    and get_view: "ok c \<Longrightarrow> view (snd (get k c)) = view c"
    and get_result: "ok c \<Longrightarrow> fst (get k c) = view c k"
    and put_ok: "ok c \<Longrightarrow> ok (put k v c)"
    and put_view: "ok c \<Longrightarrow> view (put k v c) \<subseteq>\<^sub>m (view c)(k \<mapsto> v)"
begin

text \<open>Every entry is what the source of truth would load.\<close>

definition coherent :: "('k \<rightharpoonup> 'v) \<Rightarrow> 'c \<Rightarrow> bool" where
  "coherent truth c \<longleftrightarrow> ok c \<and> view c \<subseteq>\<^sub>m truth"

lemma coherent_get: "coherent truth c \<Longrightarrow> coherent truth (snd (get k c))"
  by (simp add: coherent_def get_ok get_view)

lemma coherent_hit: "coherent truth c \<Longrightarrow> fst (get k c) = Some v \<Longrightarrow> truth k = Some v"
  by (metis coherent_def domI get_result map_le_def)

lemma coherent_put:
  assumes "coherent truth c" and "truth k = Some v"
  shows "coherent truth (put k v c)"
proof -
  have "(view c)(k \<mapsto> v) \<subseteq>\<^sub>m truth"
    using assms by (auto simp: coherent_def map_le_def)
  moreover have "view (put k v c) \<subseteq>\<^sub>m (view c)(k \<mapsto> v)"
    using assms(1) by (simp add: coherent_def put_view)
  ultimately show ?thesis using assms(1) by (auto simp: coherent_def put_ok intro: map_le_trans)
qed

end

interpretation sections: lookaside
  "\<lambda>(i, sid). cache_get i sid" "\<lambda>(i, sid) s. cache_put i sid s (section_bytes s)" cache_view cache_ok
  by unfold_locales (auto simp: cache_get_props cache_put_props)

section \<open>Properties\<close>

lemma cache_new_ok: "cache_ok (cache_new cap)"
  by (simp add: cache_ok_def cache_new_def keyed_once_def total_bytes_def)

lemma cache_apply_props:
  assumes "cache_ok c" and "cache_view c \<subseteq>\<^sub>m m"
  shows "cache_ok (cache_apply op c)" and "cache_view (cache_apply op c) \<subseteq>\<^sub>m map_apply op m"
proof -
  show "cache_ok (cache_apply op c)"
    by (cases op) (simp_all add: assms cache_get_props cache_put_props invalidate_props)
  show "cache_view (cache_apply op c) \<subseteq>\<^sub>m map_apply op m"
  proof (cases op)
    case (CPut i sid s b)
    have "(cache_view c)((i, sid) \<mapsto> s) \<subseteq>\<^sub>m m((i, sid) \<mapsto> s)" using assms(2) by (rule map_le_upd)
    from map_le_trans [OF cache_put_props(2) [OF assms(1)] this] CPut show ?thesis by simp
  next
    case (CInvalidate i)
    have "cache_view c k = m k" if "k \<in> dom (cache_view c)" for k
      using assms(2) that unfolding map_le_def by blast
    with CInvalidate show ?thesis
      by (force simp: invalidate_props [OF assms(1)] map_le_def split: if_splits)
  qed (simp add: assms cache_get_props)
qed

text \<open>
  C36. The cache refines a map: after any run of gets, puts and invalidations, whatever the
  evictions, a hit is the section last put under that key and not invalidated since; the section
  just put is always a hit; and the bytes held stay within the budget, unless one entry that is
  larger than the budget is the only one held.
\<close>

theorem cache_refines_map:
  "(case fold cache_apply ops (cache_new cap) of c \<Rightarrow>
      (\<lambda>(i, sid). fst (cache_get i sid c)) \<subseteq>\<^sub>m fold map_apply ops Map.empty \<and>
      (\<forall>i sid s b. fst (cache_get i sid (cache_put i sid s b c)) = Some s) \<and>
      (total_bytes (ca_inner c) \<le> cap \<or> length (ca_inner c) \<le> 1))"
proof -
  have run: "cache_ok (fold cache_apply ops c) \<and> cache_view (fold cache_apply ops c) \<subseteq>\<^sub>m fold map_apply ops m \<and>
      ca_capacity_bytes (fold cache_apply ops c) = ca_capacity_bytes c"
    if "cache_ok c" "cache_view c \<subseteq>\<^sub>m m" for c m
    using that
  proof (induction ops arbitrary: c m)
    case (Cons op ops)
    have "ca_capacity_bytes (cache_apply op c) = ca_capacity_bytes c"
      by (cases op) (auto simp: cache_get_def cache_put_def invalidate_def Let_def split: option.splits)
    with Cons.IH [OF cache_apply_props [OF Cons.prems, of op]] show ?case by simp
  qed simp
  let ?c = "fold cache_apply ops (cache_new cap)"
  have start: "cache_ok (cache_new cap)" "cache_view (cache_new cap) \<subseteq>\<^sub>m Map.empty"
    by (simp_all add: cache_new_ok) (simp add: cache_new_def cache_view_def map_le_def)
  from run [OF start] have c: "cache_ok ?c" "cache_view ?c \<subseteq>\<^sub>m fold map_apply ops Map.empty"
    "ca_capacity_bytes ?c = cap"
    by (simp_all add: cache_new_def)
  have "fst (cache_get i sid (cache_put i sid s b ?c)) = Some s" for i sid s b
    using cache_get_props(3) cache_put_props(1,3) c(1) by metis
  moreover have "(\<lambda>(i, sid). fst (cache_get i sid ?c)) = cache_view ?c"
    by (rule ext) (simp add: cache_get_props(3) [OF c(1)] split: prod.splits)
  moreover have "total_bytes (ca_inner ?c) \<le> cap \<or> length (ca_inner ?c) \<le> 1"
    using c(1,3) by (auto simp: cache_ok_def)
  ultimately show ?thesis using c(2) by simp
qed

text \<open>
  Eviction is least-recently-used: putting a section drops only entries whose last use is
  older than that of every entry kept.
\<close>

lemma cache_put_evicts_lru:
  assumes "cache_ok c"
    and "((j, sid'), kept) \<in> set (ca_inner (cache_put i sid s b c))"
    and "((j', sid''), dropped) \<in> set (ca_inner c)" and "(j', sid'') \<noteq> (i, sid)"
    and "((j', sid''), dropped) \<notin> set (ca_inner (cache_put i sid s b c))"
  shows "ce_used dropped < ce_used kept"
proof -
  let ?es = "AList.update (i, sid) \<lparr> ce_section = s, ce_bytes = b, ce_used = ca_clock c \<rparr> (ca_inner c)"
  have keyed: "keyed_once (ca_inner c)" and old: "\<forall>(k, e) \<in> set (ca_inner c). ce_used e < ca_clock c"
    using assms(1) by (auto simp: cache_ok_def)
  have es: "keyed_once ?es" by (rule keyed_once_update [OF keyed old]) simp
  have inner: "ca_inner (cache_put i sid s b c) = evict (ca_capacity_bytes c) (total_bytes ?es) ?es"
    by (simp add: cache_put_def Let_def)
  have "((j', sid''), dropped) \<in> set ?es - set (ca_inner (cache_put i sid s b c))"
    using assms(3-5) by (simp add: set_update [OF keyed])
  moreover from evict_props [OF es, of "ca_capacity_bytes c"]
  have "\<forall>x \<in> set (ca_inner (cache_put i sid s b c)).
      \<forall>y \<in> set ?es - set (ca_inner (cache_put i sid s b c)). ce_used (snd y) < ce_used (snd x)"
    unfolding inner by blast
  ultimately show ?thesis using assms(2) by (metis snd_conv)
qed

lemma cache_put_evicts_lru_witness:
  "(case fold cache_apply [CPut 1 IdKeys (SecTimestamps []) 60, CPut 2 IdKeys (SecTimestamps []) 30] (cache_new 100) of c \<Rightarrow>
      ((1, IdKeys), \<lparr> ce_section = SecTimestamps [], ce_bytes = 60, ce_used = 0 \<rparr>) \<notin>
        set (ca_inner (cache_put 3 IdKeys (SecTimestamps []) 60 c)) \<and>
      ce_used \<lparr> ce_section = SecTimestamps [], ce_bytes = 60, ce_used = 0 \<rparr> <
        ce_used \<lparr> ce_section = SecTimestamps [], ce_bytes = 30, ce_used = 1 \<rparr>)"
proof -
  let ?c = "fold cache_apply [CPut 1 IdKeys (SecTimestamps []) 60, CPut 2 IdKeys (SecTimestamps []) 30] (cache_new 100)"
  have ok: "cache_ok ?c" by (simp add: cache_put_props cache_new_ok)
  have a: "((2, IdKeys), \<lparr> ce_section = SecTimestamps [], ce_bytes = 30, ce_used = 1 \<rparr>)
      \<in> set (ca_inner (cache_put 3 IdKeys (SecTimestamps []) 60 ?c))" by code_simp
  have b: "((1, IdKeys), \<lparr> ce_section = SecTimestamps [], ce_bytes = 60, ce_used = 0 \<rparr>) \<in> set (ca_inner ?c)"
    by code_simp
  have c: "((1, IdKeys), \<lparr> ce_section = SecTimestamps [], ce_bytes = 60, ce_used = 0 \<rparr>)
      \<notin> set (ca_inner (cache_put 3 IdKeys (SecTimestamps []) 60 ?c))" by code_simp
  from cache_put_evicts_lru [OF ok a b _ c] c show ?thesis by simp
qed

end
