(* ===== verification/Blob_Store.thy ===== *)
theory Blob_Store
  imports Manifest_File
begin

text \<open>
  Content-addressed blobs (\<^verbatim>\<open>src/src/blob.rs\<close>; \<^verbatim>\<open>put_blob\<close>, \<^verbatim>\<open>get_blob\<close>
  and \<^verbatim>\<open>delete_blob\<close> of \<^verbatim>\<open>src/src/engine.rs\<close>; the orphan sweep of
  \<^verbatim>\<open>src/src/actors.rs\<close>). The digest is a parameter; a step that touches the disk takes the
  outcome of its I/O as an argument.
\<close>

section \<open>Blob files\<close>

text \<open>\<^verbatim>\<open>Sha256\<close> on bytes, as bytes, and its hex form.\<close>

type_synonym digest = "byte list \<Rightarrow> byte list"

definition hex_digit :: "nat \<Rightarrow> rchar" where
  "hex_digit n = (if n < 10 then 48 + n else 87 + n)"

definition hex_byte :: "byte \<Rightarrow> rstr" where
  "hex_byte b = [hex_digit (unat b div 16), hex_digit (unat b mod 16)]"

definition sha256_hex :: "digest \<Rightarrow> byte list \<Rightarrow> rstr" where
  "sha256_hex sha bytes = concat (map hex_byte (sha bytes))"

definition is_lower_hex :: "nat \<Rightarrow> bool" where
  "is_lower_hex b \<longleftrightarrow> 48 \<le> b \<and> b \<le> 57 \<or> 97 \<le> b \<and> b \<le> 102"

definition valid_hash :: "rstr \<Rightarrow> bool" where
  "valid_hash h \<longleftrightarrow> length (as_bytes h) = 64 \<and> list_all is_lower_hex (utf8_values h)"

definition blobs_root :: "path \<Rightarrow> path" where
  "blobs_root hot_dir = hot_dir @ [lit ''blobs'']"

definition blob_path :: "path \<Rightarrow> rstr \<Rightarrow> path" where
  "blob_path hot_dir h = blobs_root hot_dir @ [take 2 h, h]"

definition blob_tmp :: "path \<Rightarrow> rstr \<Rightarrow> path" where
  "blob_tmp hot_dir h = blobs_root hot_dir @ [take 2 h, lit ''.'' @ h @ lit ''.tmp'']"

definition write_blob_file :: "path \<Rightarrow> rstr \<Rightarrow> byte list \<Rightarrow> fsys \<Rightarrow> fs_op list" where
  "write_blob_file hot_dir h bytes d =
     (if fmlookup d (blob_path hot_dir h) \<noteq> None then []
      else
        [FsWrite (blob_tmp hot_dir h) bytes, FsSync (blob_tmp hot_dir h),
         FsRename (blob_tmp hot_dir h) (blob_path hot_dir h)])"

definition read_blob_file :: "digest \<Rightarrow> path \<Rightarrow> rstr \<Rightarrow> fsys \<Rightarrow> byte list result" where
  "read_blob_file sha hot_dir h d =
     (case fs_read d (blob_path hot_dir h) of
        Inl k \<Rightarrow> Inl (Io k)
      | Inr bytes \<Rightarrow>
          if sha256_hex sha bytes \<noteq> h
          then Inl (Corrupt ''blob'' (lit ''content does not match its hash '' @ h))
          else Inr bytes)"

text \<open>The valid hash names of the files two levels below the blob root.\<close>

definition on_disk_hashes :: "path \<Rightarrow> fsys \<Rightarrow> rstr list" where
  "on_disk_hashes hot_dir d =
     filter valid_hash
       (map last (filter (\<lambda>p. length p = length hot_dir + 3 \<and> prefix (blobs_root hot_dir) p) (bt_keys d)))"

section \<open>Engine operations on blobs\<close>

text \<open>
  An operation gives its result, the manifest in memory after it, and the file operations it
  performed, in order: what is on disk after it, or after a crash in the middle of it, is what
  those leave.
\<close>

definition put_blob ::
  "('x) man_ext_scheme \<Rightarrow> digest \<Rightarrow> path \<Rightarrow> byte list \<Rightarrow> Manifest \<Rightarrow> fsys \<Rightarrow>
   rstr result \<times> Manifest \<times> fs_op list" where
  "put_blob X sha hot_dir bytes m d =
     (let h = sha256_hex sha bytes;
          write = write_blob_file hot_dir h bytes d
      in if h |\<in>| mf_blobs m then (Inr h, m, write)
         else
           (let m' = m\<lparr> mf_blobs := finsert h (mf_blobs m) \<rparr> in
            case manifest_store X hot_dir m' of
              Inl e \<Rightarrow> (Inl e, m', write)
            | Inr store \<Rightarrow> (Inr h, m', write @ store)))"

definition get_blob :: "digest \<Rightarrow> path \<Rightarrow> rstr \<Rightarrow> Manifest \<Rightarrow> fsys \<Rightarrow> byte list option result" where
  "get_blob sha hot_dir h m d =
     (if \<not> valid_hash h then Inr None
      else if h |\<notin>| mf_blobs m then Inr None
      else
        (case read_blob_file sha hot_dir h d of
           Inr bytes \<Rightarrow> Inr (Some bytes)
         | Inl (Io NotFound) \<Rightarrow>
             Inl (Corrupt ''blob'' (lit ''manifest lists '' @ h @ lit '' but the file is missing''))
         | Inl e \<Rightarrow> Inl e))"

definition delete_blob ::
  "('x) man_ext_scheme \<Rightarrow> path \<Rightarrow> rstr \<Rightarrow> Manifest \<Rightarrow> bool result \<times> Manifest \<times> fs_op list" where
  "delete_blob X hot_dir h m =
     (if h |\<in>| mf_blobs m then
        (let m' = m\<lparr> mf_blobs := mf_blobs m |-| {|h|} \<rparr> in
         case manifest_store X hot_dir m' of
           Inl e \<Rightarrow> (Inl e, m', [])
         | Inr store \<Rightarrow> (Inr True, m', store @ [FsRemove (blob_path hot_dir h)]))
      else (Inr False, m, []))"

definition sweep_blob_orphans :: "path \<Rightarrow> Manifest \<Rightarrow> fsys \<Rightarrow> fs_op list" where
  "sweep_blob_orphans hot_dir m d =
     map (\<lambda>h. FsRemove (blob_path hot_dir h)) (filter (\<lambda>h. h |\<notin>| mf_blobs m) (on_disk_hashes hot_dir d))"

section \<open>Paths\<close>

lemma hex_byte_values: "list_all is_lower_hex (utf8_values (hex_byte b)) \<and> length (utf8_values (hex_byte b)) = 2"
proof -
  have "unat b < 256" using unsigned_less [of b] by simp
  then have "unat b div 16 < 16" "unat b mod 16 < 16" by auto
  moreover have "utf8_values [hex_digit n] = [hex_digit n] \<and> is_lower_hex (hex_digit n)" if "n < 16" for n
    using that by (auto simp: utf8_values_def utf8_char_def hex_digit_def is_lower_hex_def)
  ultimately show ?thesis by (auto simp: hex_byte_def utf8_values_def)
qed

text \<open>A 32-byte digest gives a well-formed blob id.\<close>

lemma sha256_hex_valid:
  assumes "length (sha bytes) = 32"
  shows "valid_hash (sha256_hex sha bytes)"
proof -
  have "list_all is_lower_hex (utf8_values (concat (map hex_byte bs))) \<and>
      length (utf8_values (concat (map hex_byte bs))) = 2 * length bs" for bs
  proof (induction bs)
    case (Cons b bs)
    with hex_byte_values [of b] show ?case by (simp add: utf8_values_def)
  qed (simp add: utf8_values_def)
  then show ?thesis using assms by (simp add: valid_hash_def sha256_hex_def as_bytes_def)
qed

lemma blob_path_neq [simp]:
  "blob_path hot h \<noteq> manifest_path hot" "blob_path hot h \<noteq> manifest_tmp hot"
  "manifest_path hot \<noteq> blob_path hot h" "manifest_tmp hot \<noteq> blob_path hot h"
  by (simp_all add: blob_path_def blobs_root_def manifest_path_def manifest_tmp_def)

lemma blob_path_inj [simp]: "blob_path hot h = blob_path hot h' \<longleftrightarrow> h = h'"
  by (auto simp: blob_path_def)

lemma blob_tmp_neq [simp]: "blob_tmp hot h = blob_path hot h' \<longleftrightarrow> h' = lit ''.'' @ h @ lit ''.tmp'' \<and> take 2 h = take 2 h'"
  by (auto simp: blob_tmp_def blob_path_def)

lemma blob_tmp_neq' [simp]: "blob_path hot h' = blob_tmp hot h \<longleftrightarrow> h' = lit ''.'' @ h @ lit ''.tmp'' \<and> take 2 h = take 2 h'"
  by (auto simp: blob_tmp_def blob_path_def)

lemma blob_tmp_neq_manifest [simp]:
  "blob_tmp hot h \<noteq> manifest_path hot" "blob_tmp hot h \<noteq> manifest_tmp hot"
  "manifest_path hot \<noteq> blob_tmp hot h" "manifest_tmp hot \<noteq> blob_tmp hot h"
  by (simp_all add: blob_tmp_def blobs_root_def manifest_path_def manifest_tmp_def)

lemma valid_hash_no_dot: "valid_hash h \<Longrightarrow> h \<noteq> lit ''.'' @ s"
  by (auto simp: valid_hash_def lit_def utf8_values_def utf8_char_def is_lower_hex_def)

lemma store_keeps_blobs:
  "manifest_store X hot m = Inr ops \<Longrightarrow> fmlookup (fs_run ops d) (blob_path hot h) = fmlookup d (blob_path hot h)"
  by (auto simp: manifest_store_def fs_run_def)

lemma write_blob_result:
  assumes "valid_hash h'"
  shows "fmlookup (fs_run (write_blob_file hot h bytes d) d) (blob_path hot h') =
           (if h' = h \<and> fmlookup d (blob_path hot h) = None then Some bytes else fmlookup d (blob_path hot h'))"
  using valid_hash_no_dot [OF assms]
  by (auto simp: write_blob_file_def fs_run_def)


section \<open>Backed blobs\<close>

text \<open>Every listed blob has its file, and every file under a blob id holds that blob.\<close>

definition files_true :: "digest \<Rightarrow> path \<Rightarrow> fsys \<Rightarrow> bool" where
  "files_true sha hot d \<longleftrightarrow>
     (\<forall>h bytes. valid_hash h \<longrightarrow> fmlookup d (blob_path hot h) = Some bytes \<longrightarrow> sha256_hex sha bytes = h)"

definition backed :: "digest \<Rightarrow> path \<Rightarrow> Manifest \<Rightarrow> fsys \<Rightarrow> bool" where
  "backed sha hot m d \<longleftrightarrow>
     files_true sha hot d \<and>
     (\<forall>h. h |\<in>| mf_blobs m \<longrightarrow> valid_hash h \<and> fmlookup d (blob_path hot h) \<noteq> None)"

lemma backed_get:
  assumes "backed sha hot m d" and "h |\<in>| mf_blobs m"
  obtains bytes where "get_blob sha hot h m d = Inr (Some bytes)" and "sha256_hex sha bytes = h"
proof -
  from assms obtain bytes where "valid_hash h" "fmlookup d (blob_path hot h) = Some bytes" "sha256_hex sha bytes = h"
    by (auto simp: backed_def files_true_def)
  with assms(2) that show thesis by (simp add: get_blob_def read_blob_file_def fs_read_def)
qed

lemma fs_run_append: "fs_run (a @ b) d = fs_run b (fs_run a d)"
  by (simp add: fs_run_def)

lemma fs_run_removes: "fmlookup (fs_run (map FsRemove ps) d) p = (if p \<in> set ps then None else fmlookup d p)"
  unfolding fs_run_def by (induction ps arbitrary: d) auto

lemma put_blob_run:
  assumes "backed sha hot m d" and "length (sha bytes) = 32"
    and "put_blob X sha hot bytes m d = (Inr h, m', ops)"
  shows "backed sha hot m' (fs_run ops d) \<and> h = sha256_hex sha bytes \<and> h |\<in>| mf_blobs m'"
proof -
  let ?h = "sha256_hex sha bytes"
  have valid: "valid_hash ?h" using assms(2) by (rule sha256_hex_valid)
  let ?d = "fs_run (write_blob_file hot ?h bytes d) d"
  have look: "fmlookup ?d (blob_path hot g) =
      (if g = ?h \<and> fmlookup d (blob_path hot ?h) = None then Some bytes else fmlookup d (blob_path hot g))"
    if "valid_hash g" for g
    using that by (rule write_blob_result)
  have "files_true sha hot ?d"
    using assms(1) look unfolding files_true_def backed_def by (simp split: if_splits)
  moreover have "valid_hash g \<and> fmlookup ?d (blob_path hot g) \<noteq> None" if "g |\<in>| mf_blobs m" for g
    using assms(1) that look [of g] unfolding backed_def by auto
  ultimately have wr: "backed sha hot m ?d" "fmlookup ?d (blob_path hot ?h) \<noteq> None"
    using look [OF valid] unfolding backed_def by auto
  show ?thesis
  proof (cases "?h |\<in>| mf_blobs m")
    case True
    with assms(3) wr show ?thesis by (auto simp: put_blob_def Let_def)
  next
    case False
    let ?m = "m\<lparr> mf_blobs := finsert ?h (mf_blobs m) \<rparr>"
    from False assms(3) obtain store where store: "manifest_store X hot ?m = Inr store"
      and eqs: "h = ?h" "m' = ?m" "ops = write_blob_file hot ?h bytes d @ store"
      by (cases "manifest_store X hot ?m") (auto simp: put_blob_def Let_def)
    have same: "fmlookup (fs_run ops d) (blob_path hot g) =
        fmlookup (fs_run (write_blob_file hot ?h bytes d) d) (blob_path hot g)" for g
      unfolding eqs fs_run_append by (rule store_keeps_blobs [OF store])
    have "files_true sha hot (fs_run ops d)"
      using wr(1) unfolding backed_def files_true_def same by blast
    moreover have "valid_hash g \<and> fmlookup (fs_run ops d) (blob_path hot g) \<noteq> None"
      if "g |\<in>| mf_blobs m'" for g
    proof (cases "g = ?h")
      case True
      then show ?thesis using wr(2) valid by (simp add: same)
    next
      case False
      with that eqs(2) have "g |\<in>| mf_blobs m" by simp
      then show ?thesis using wr(1) unfolding backed_def same by blast
    qed
    ultimately show ?thesis unfolding backed_def using eqs by simp
  qed
qed

lemma delete_blob_run:
  assumes "backed sha hot m d"
  shows "backed sha hot (fst (snd (delete_blob X hot g m))) (fs_run (snd (snd (delete_blob X hot g m))) d)"
proof (cases "g |\<in>| mf_blobs m")
  case True
  let ?m = "m\<lparr> mf_blobs := mf_blobs m |-| {|g|} \<rparr>"
  show ?thesis
  proof (cases "manifest_store X hot ?m")
    case (Inr store)
    have "fmlookup (fs_run (store @ [FsRemove (blob_path hot g)]) d) (blob_path hot h) =
        (if h = g then None else fmlookup d (blob_path hot h))" for h
      using store_keeps_blobs [OF Inr, of d h] by (auto simp: fs_run_def)
    with True Inr assms show ?thesis by (simp add: delete_blob_def backed_def files_true_def)
  qed (use True assms in \<open>simp add: delete_blob_def backed_def files_true_def fs_run_def\<close>)
qed (use assms in \<open>simp add: delete_blob_def fs_run_def\<close>)

text \<open>
  C40. A blob that was put is returned by its id, up to a collision of the digest; and putting,
  deleting and sweeping keep every listed blob on disk with the content its id names: after any of
  them, getting a listed blob gives content that hashes to the id.
\<close>

theorem blob_put_get:
  assumes "backed sha hot m d" and "length (sha bytes) = 32"
    and "put_blob X sha hot bytes m d = (Inr h, m', ops)"
    and "\<And>other. sha256_hex sha other = sha256_hex sha bytes \<Longrightarrow> other = bytes"
  shows "get_blob sha hot h m' (fs_run ops d) = Inr (Some bytes) \<and> backed sha hot m' (fs_run ops d) \<and>
         backed sha hot (fst (snd (delete_blob X hot g m))) (fs_run (snd (snd (delete_blob X hot g m))) d) \<and>
         backed sha hot m (fs_run (sweep_blob_orphans hot m d) d)"
proof -
  note put = put_blob_run [OF assms(1-3)]
  then have listed: "backed sha hot m' (fs_run ops d)" "h |\<in>| mf_blobs m'" by blast+
  obtain other where "get_blob sha hot h m' (fs_run ops d) = Inr (Some other)" "sha256_hex sha other = h"
    using backed_get [OF listed] by blast
  with assms(4) [of other] put have "get_blob sha hot h m' (fs_run ops d) = Inr (Some bytes)" by simp
  moreover have "backed sha hot m (fs_run (sweep_blob_orphans hot m d) d)"
  proof -
    let ?gone = "filter (\<lambda>h. h |\<notin>| mf_blobs m) (on_disk_hashes hot d)"
    have "sweep_blob_orphans hot m d = map FsRemove (map (blob_path hot) ?gone)"
      by (simp add: sweep_blob_orphans_def)
    then have "fmlookup (fs_run (sweep_blob_orphans hot m d) d) (blob_path hot h) =
        (if h \<in> set ?gone then None else fmlookup d (blob_path hot h))" for h
      by (simp only: fs_run_removes) auto
    with assms(1) show ?thesis by (auto simp: backed_def files_true_def split: if_splits)
  qed
  ultimately show ?thesis using put delete_blob_run [OF assms(1), of X g] by blast
qed


definition sample_sha :: digest where
  "sample_sha b = replicate 32 (if b = [1, 2] then 7 else 0)"

definition sample_put :: "rstr result \<times> Manifest \<times> fs_op list" where
  "sample_put =
     put_blob (sample_man_ext\<lparr> rmp_manifest_to_vec := \<lambda>m. Inr [] \<rparr>) sample_sha [lit ''h''] [1, 2]
       sample_manifest fmempty"

lemma sample_sha_inj:
  assumes "sha256_hex sample_sha other = sha256_hex sample_sha [1, 2]"
  shows "other = [1, 2]"
proof (rule ccontr)
  assume "other \<noteq> [1, 2]"
  then have "sample_sha other = replicate 32 0" "sample_sha [1, 2] = replicate 32 7"
    by (simp_all add: sample_sha_def)
  with assms have "concat (map hex_byte (replicate (Suc 31) 0)) = concat (map hex_byte (replicate (Suc 31) 7))"
    unfolding sha256_hex_def by (simp only: Suc_numeral semiring_norm)
  then have "hex_byte 0 @ concat (map hex_byte (replicate 31 0)) = hex_byte 7 @ concat (map hex_byte (replicate 31 7))"
    by (simp only: replicate_Suc list.map concat.simps)
  then have "take 2 (hex_byte 0) = take 2 (hex_byte 7)"
    by (metis append_eq_append_conv hex_byte_def length_Cons)
  then show False by code_simp
qed

theorem blob_put_get_witness:
  "get_blob sample_sha [lit ''h''] (sha256_hex sample_sha [1, 2]) (fst (snd sample_put))
     (fs_run (snd (snd sample_put)) fmempty) = Inr (Some [1, 2])"
proof -
  obtain m' ops where put: "sample_put = (Inr (sha256_hex sample_sha [1, 2]), m', ops)"
    by (simp add: sample_put_def put_blob_def Let_def manifest_store_def manifest_bytes_def sample_manifest_def)
  have "backed sample_sha [lit ''h''] sample_manifest fmempty"
    by (simp add: backed_def files_true_def sample_manifest_def)
  moreover have "length (sample_sha [1, 2]) = 32" by (simp add: sample_sha_def)
  moreover note put [unfolded sample_put_def] sample_sha_inj
  ultimately have "get_blob sample_sha [lit ''h''] (sha256_hex sample_sha [1, 2]) m' (fs_run ops fmempty) = Inr (Some [1, 2])"
    using blob_put_get [of sample_sha "[lit ''h'']" sample_manifest fmempty "[1, 2]"] by blast
  then show ?thesis by (simp add: put)
qed

text \<open>
  A read never returns content that does not hash to the id asked for, and never reads a
  listed blob as absent: a malformed or unlisted id is absent, and of a listed one a missing file
  and a content mismatch are each a corruption error.
\<close>

lemma blob_get_verified:
  "(case get_blob sha hot h m d of
      Inr (Some bytes) \<Rightarrow> sha256_hex sha bytes = h \<and> h |\<in>| mf_blobs m
    | Inr None \<Rightarrow> (valid_hash h \<and> h |\<in>| mf_blobs m) = False
    | Inl e \<Rightarrow> (\<exists>detail. e = Corrupt ''blob'' detail) \<and> h |\<in>| mf_blobs m \<and>
        (fmlookup d (blob_path hot h) = None \<or> (\<exists>bytes. fmlookup d (blob_path hot h) = Some bytes \<and> sha256_hex sha bytes \<noteq> h)))"
  by (auto simp: get_blob_def read_blob_file_def fs_read_def split: option.splits)

lemma put_blob_crash_disk:
  assumes "manifest_store X hot m' = Inr store" and "manifest_bytes X m' = Inr mb" and "valid_hash h"
    and "fs_crash (write_blob_file hot h bytes d @ store) d d'"
  shows "(fmlookup d' (manifest_path hot) = fmlookup d (manifest_path hot) \<or>
          fmlookup d' (manifest_path hot) = Some mb \<and> fmlookup d' (blob_path hot h) \<noteq> None) \<and>
         (\<forall>g. valid_hash g \<longrightarrow> fmlookup d' (blob_path hot g) = fmlookup d (blob_path hot g) \<or>
            g = h \<and> fmlookup d' (blob_path hot g) = Some bytes)"
proof -
  have store: "store = [FsWrite (manifest_tmp hot) mb, FsSync (manifest_tmp hot),
      FsRename (manifest_tmp hot) (manifest_path hot)]"
    using assms(1,2) by (simp add: manifest_store_def)
  have dot: "g \<noteq> lit ''.'' @ s" if "valid_hash g" for g s using that by (rule valid_hash_no_dot)
  show ?thesis
    using assms(4) dot assms(3) unfolding store write_blob_file_def
    by (auto elim!: fs_crash_ConsE fs_crash_NilE split: if_splits)
qed


definition sample_blob_ext :: man_ext where
  "sample_blob_ext = sample_man_ext\<lparr>
     rmp_manifest_to_vec := (\<lambda>m. if m = sample_manifest then Inr [147] else if m = fst (snd sample_put) then Inr [148] else Inl []),
     rmp_manifest_from_slice := (\<lambda>b. if b = [147] then Inr sample_manifest else if b = [148] then Inr (fst (snd sample_put)) else Inl []) \<rparr>"


end
