(* ===== verification/Engine_Read.thy ===== *)
theory Engine_Read
  imports Manifest_File Memtable "HOL-Library.Multiset"
begin

text \<open>
  The read path of the engine (\<^verbatim>\<open>src/src/engine.rs\<close>): point lookup, full scan, top-k scan,
  fold-mode scan and count, over the memtable, the frozen memtables and the segments of the
  manifest, with the newest-wins walk plan and its shadow probes.

  A read takes the locks one after the other; the model reads one state. \<open>open\<close> is what
  \<^verbatim>\<open>open_segment_file\<close> gives for a segment, its bytes or an error; a section is read from
  those bytes (sections are cached under an identity no other file has, see the theory
  \<open>Section_Cache\<close>).
\<close>

section \<open>State\<close>

record GirderConfig =
  gc_hot_dir :: path
  gc_cold_dir :: path
  gc_fsync :: FsyncPolicy
  gc_memtable_max_records :: nat
  gc_cache_bytes :: nat
  gc_compact_min_segments :: nat
  gc_max_segment_records :: nat
  gc_max_segment_bytes :: nat
  gc_hot_ttl_nanos :: int
  gc_remote_ttl_nanos :: int
  gc_pull_cache_bytes :: nat
  gc_retention_nanos :: "int option"
  gc_retention :: "(rstr \<times> int) list"
  gc_blob_sweep_every_n_ticks :: nat

definition config_at :: "path \<Rightarrow> GirderConfig" where
  "config_at dir =
     \<lparr> gc_hot_dir = dir, gc_cold_dir = dir @ [lit ''cold''], gc_fsync = EveryN 64,
       gc_memtable_max_records = 10000, gc_cache_bytes = 256 * 1024 * 1024,
       gc_compact_min_segments = 8, gc_max_segment_records = 128 * 1024,
       gc_max_segment_bytes = 256 * 1024 * 1024, gc_hot_ttl_nanos = 24 * 3600 * 1000000000,
       gc_remote_ttl_nanos = i64_MAX div 2, gc_pull_cache_bytes = 256 * 1024 * 1024,
       gc_retention_nanos = None, gc_retention = [], gc_blob_sweep_every_n_ticks = 12 \<rparr>"

type_synonym FrozenMemtable = "nat \<times> MemTable"

record EngineInner =
  ei_config :: GirderConfig
  ei_memtable :: MemTable
  ei_frozen :: "FrozenMemtable list"
  ei_manifest :: Manifest

type_synonym opener = "SegmentMeta \<Rightarrow> byte list result"

section \<open>Small helpers\<close>

definition finish_fold :: "Record \<Rightarrow> Record" where
  "finish_fold r = r\<lparr> rec_labels := fmdrop DELTA_LABEL (rec_labels r) \<rparr>"

definition surface :: "Record \<Rightarrow> Record option" where
  "surface r = (let r = finish_fold r in if is_tombstone r then None else Some r)"

definition text_query_tokens :: "unicode \<Rightarrow> QuerySpec \<Rightarrow> rstr list option" where
  "text_query_tokens U spec = map_option (fts_tokens U) (qs_text_match spec)"

definition need_tokens :: "unicode \<Rightarrow> QuerySpec \<Rightarrow> bool" where
  "need_tokens U spec \<longleftrightarrow>
     qs_text_match spec \<noteq> None \<or>
     (case qs_text_like spec of None \<Rightarrow> False | Some p \<Rightarrow> like_constraints U p \<noteq> [])"

definition strip_text_if_omitted :: "QuerySpec \<Rightarrow> Record list \<Rightarrow> Record list" where
  "strip_text_if_omitted spec out =
     (if qs_omit_text spec then map (\<lambda>r. r\<lparr> rec_text := None \<rparr>) out else out)"

definition mem_matches :: "unicode \<Rightarrow> QuerySpec \<Rightarrow> Record \<Rightarrow> rstr fset option \<Rightarrow> bool" where
  "mem_matches U spec r cand =
     (case cand of
        None \<Rightarrow> matches U spec r
      | Some c \<Rightarrow> rec_key r |\<in>| c \<and> matches_fields spec r \<and> text_like_ok spec r)"

definition after_ok_cols :: "QuerySpec \<Rightarrow> int \<Rightarrow> rstr \<Rightarrow> bool" where
  "after_ok_cols spec ts key =
     (case qs_after spec of
        None \<Rightarrow> True
      | Some (bound_ts, bound_key) \<Rightarrow>
          if qs_order_by spec = Some TimestampAsc
          then bound_ts < ts \<or> ts = bound_ts \<and> bound_key < key
          else ts < bound_ts \<or> ts = bound_ts \<and> bound_key < key)"

section \<open>Ordering\<close>

record Prim =
  pr_class :: nat
  pr_ord :: int

definition make_prim :: "OrderBy \<Rightarrow> int \<Rightarrow> f64 option \<Rightarrow> Prim" where
  "make_prim order ts num =
     (case order of
        TimestampAsc \<Rightarrow> \<lparr> pr_class = 0, pr_ord = ts \<rparr>
      | TimestampDesc \<Rightarrow> \<lparr> pr_class = 0, pr_ord = - ts \<rparr>
      | NumericAsc _ \<Rightarrow>
          (case num of
             Some v \<Rightarrow>
               if \<not> is_nan v then \<lparr> pr_class = 0, pr_ord = int (unat (f64_ordered v)) \<rparr>
               else \<lparr> pr_class = 1, pr_ord = 0 \<rparr>
           | None \<Rightarrow> \<lparr> pr_class = 1, pr_ord = 0 \<rparr>)
      | NumericDesc _ \<Rightarrow>
          (case num of
             Some v \<Rightarrow>
               if \<not> is_nan v then \<lparr> pr_class = 0, pr_ord = - int (unat (f64_ordered v)) \<rparr>
               else \<lparr> pr_class = 1, pr_ord = 0 \<rparr>
           | None \<Rightarrow> \<lparr> pr_class = 1, pr_ord = 0 \<rparr>))"

definition order_numeric :: "OrderBy \<Rightarrow> rstr option" where
  "order_numeric order =
     (case order of NumericAsc n \<Rightarrow> Some n | NumericDesc n \<Rightarrow> Some n | _ \<Rightarrow> None)"

definition record_prim :: "OrderBy \<Rightarrow> Record \<Rightarrow> Prim" where
  "record_prim order r =
     make_prim order (rec_timestamp r)
       (case order_numeric order of None \<Rightarrow> None | Some n \<Rightarrow> fmlookup (rec_numerics r) n)"

text \<open>The derived lexicographic order, then the key.\<close>

definition prim_key :: "Prim \<Rightarrow> rstr \<Rightarrow> nat \<times> int \<times> rstr" where
  "prim_key p key = (pr_class p, pr_ord p, key)"

definition record_rank :: "OrderBy option \<Rightarrow> Record \<Rightarrow> nat \<times> int \<times> rstr" where
  "record_rank order r =
     prim_key (record_prim (case order of None \<Rightarrow> TimestampDesc | Some x \<Rightarrow> x) r) (rec_key r)"

definition record_cmp_less :: "OrderBy option \<Rightarrow> Record \<Rightarrow> Record \<Rightarrow> bool" where
  "record_cmp_less order a b \<longleftrightarrow> record_rank order a < record_rank order b"

definition sort_truncate :: "QuerySpec \<Rightarrow> Record list \<Rightarrow> Record list" where
  "sort_truncate spec out =
     (let out = sort_key (record_rank (qs_order_by spec)) out
      in if 0 < qs_limit spec then take (qs_limit spec) out else out)"

section \<open>Segments of a read\<close>

definition read_segment ::
  "unicode \<Rightarrow> ('x) codec_ext_scheme \<Rightarrow> opener \<Rightarrow> SegmentMeta \<Rightarrow> bool \<Rightarrow> (SegmentColumns \<times> byte list option) result" where
  "read_segment U X open_seg meta need = and_then (open_seg meta) (\<lambda>f. load_segment U X f need)"

datatype SegKeys = Slim KeysSection | Whole SegmentColumns

definition segkeys_contains :: "SegKeys \<Rightarrow> rstr \<Rightarrow> bool" where
  "segkeys_contains k key =
     (case k of Slim ks \<Rightarrow> ks_find ks key \<noteq> None | Whole c \<Rightarrow> find_key c key \<noteq> None)"

definition load_segment_keys ::
  "unicode \<Rightarrow> ('x) codec_ext_scheme \<Rightarrow> opener \<Rightarrow> SegmentMeta \<Rightarrow> SegKeys result" where
  "load_segment_keys U X open_seg meta =
     and_then (open_seg meta) (\<lambda>f.
     and_then (read_header f) (\<lambda>version.
       if version = 1 then and_then (load_v1_whole U X f) (\<lambda>c. Inr (Whole c))
       else if version = 2 then
         and_then (read_footer X f) (\<lambda>dir. and_then (load_keys X f dir) (\<lambda>k. Inr (Slim k)))
       else Inl (unsupported_version version)))"

definition pruned_segments :: "EngineInner \<Rightarrow> QuerySpec \<Rightarrow> SegmentMeta list" where
  "pruned_segments e spec =
     sort_key (\<lambda>m. - int (sm_id m))
       (filter (\<lambda>m. may_match (sm_zone m) spec) (mf_segments (ei_manifest e)))"

section \<open>Point lookup\<close>

text \<open>
  One older version is fed to the fold of the newer ones: \<open>Inr\<close> is the finished record,
  \<open>Inl\<close> the pending deltas.
\<close>

definition feed_version :: "Record option \<Rightarrow> Record \<Rightarrow> Record + Record" where
  "feed_version pending version =
     (case pending of
        None \<Rightarrow> if \<not> is_delta version then Inr version else Inl version
      | Some p \<Rightarrow>
          (let merged = merge_delta (Some version) p
           in if is_delta merged then Inl merged else Inr merged))"

fun get_mem :: "rstr \<Rightarrow> MemTable list \<Rightarrow> Record option \<Rightarrow> Record option + Record" where
  "get_mem key [] pending = Inl pending"
| "get_mem key (t # ts) pending =
     (case mt_get t key of
        None \<Rightarrow> get_mem key ts pending
      | Some r \<Rightarrow>
          (case feed_version pending r of
             Inr finished \<Rightarrow> Inr finished
           | Inl p \<Rightarrow> get_mem key ts (Some p)))"

fun get_segs ::
  "unicode \<Rightarrow> ('x) codec_ext_scheme \<Rightarrow> opener \<Rightarrow> rstr \<Rightarrow> SegmentMeta list \<Rightarrow> Record option \<Rightarrow> Record option result" where
  "get_segs U X open_seg key [] pending = Inr (Option.bind pending surface)"
| "get_segs U X open_seg key (m # ms) pending =
     and_then (read_segment U X open_seg m False) (\<lambda>(c, f).
       case find_key c key of
         None \<Rightarrow> get_segs U X open_seg key ms pending
       | Some i \<Rightarrow>
           and_then (materialize X f c i True) (\<lambda>r.
             case feed_version pending r of
               Inr finished \<Rightarrow> Inr (surface finished)
             | Inl p \<Rightarrow> get_segs U X open_seg key ms (Some p)))"

text \<open>The memtables newest first: the live one, then the frozen ones in reverse.\<close>

definition mem_tables :: "EngineInner \<Rightarrow> MemTable list" where
  "mem_tables e = ei_memtable e # map snd (rev (ei_frozen e))"

definition get_once ::
  "unicode \<Rightarrow> ('x) codec_ext_scheme \<Rightarrow> opener \<Rightarrow> EngineInner \<Rightarrow> rstr \<Rightarrow> Record option result" where
  "get_once U X open_seg e key =
     (case get_mem key (mem_tables e) None of
        Inr finished \<Rightarrow> Inr (surface finished)
      | Inl pending \<Rightarrow>
          get_segs U X open_seg key
            (pruned_segments e (QuerySpec_default\<lparr> qs_key_prefix := Some key \<rparr>)) pending)"

section \<open>The walk plan\<close>

record WalkStep =
  ws_meta :: SegmentMeta
  ws_visit :: bool

record WalkPlan =
  wp_steps :: "WalkStep list"
  wp_track_shadows :: bool

fun adjacent_disjoint :: "(rstr \<times> rstr) list \<Rightarrow> bool" where
  "adjacent_disjoint (a # b # rs) \<longleftrightarrow> snd a < fst b \<and> adjacent_disjoint (b # rs)"
| "adjacent_disjoint _ \<longleftrightarrow> True"

definition key_ranges_disjoint :: "SegmentMeta list \<Rightarrow> bool" where
  "key_ranges_disjoint metas =
     adjacent_disjoint
       (sort_key fst (map (\<lambda>m. (zm_min_key (sm_zone m), zm_max_key (sm_zone m))) metas))"

definition keep_step :: "WalkStep list \<Rightarrow> WalkStep \<Rightarrow> bool" where
  "keep_step steps s \<longleftrightarrow>
     ws_visit s \<or>
     list_ex (\<lambda>v. ws_visit v \<and> sm_id (ws_meta v) < sm_id (ws_meta s) \<and>
                  key_range_overlaps (sm_zone (ws_meta v)) (sm_zone (ws_meta s))) steps"

definition walk_plan :: "EngineInner \<Rightarrow> QuerySpec \<Rightarrow> WalkPlan" where
  "walk_plan e spec =
     (let steps =
            sort_key (\<lambda>s. - int (sm_id (ws_meta s)))
              (map (\<lambda>m. \<lparr> ws_meta = m, ws_visit = may_match (sm_zone m) spec \<rparr>)
                (filter (\<lambda>m. may_overlap_prefix (sm_zone m) spec) (mf_segments (ei_manifest e))));
          kept = filter (keep_step steps) steps;
          disjoint = key_ranges_disjoint (map ws_meta kept)
      in \<lparr> wp_steps = (if disjoint then filter ws_visit kept else kept), wp_track_shadows = \<not> disjoint \<rparr>)"

text \<open>Does a step newer than the candidate's hold its key? The steps before it, in order.\<close>

fun shadowed ::
  "unicode \<Rightarrow> ('x) codec_ext_scheme \<Rightarrow> opener \<Rightarrow> WalkStep list \<Rightarrow> rstr \<Rightarrow> bool result" where
  "shadowed U X open_seg [] key = Inr False"
| "shadowed U X open_seg (s # ss) key =
     (let zone = sm_zone (ws_meta s) in
      if zm_min_key zone \<le> key \<and> key \<le> zm_max_key zone then
        and_then (load_segment_keys U X open_seg (ws_meta s)) (\<lambda>k.
          if segkeys_contains k key then Inr True else shadowed U X open_seg ss key)
      else shadowed U X open_seg ss key)"

section \<open>Full scan and count\<close>

text \<open>
  The pass over the memtables: keys seen so far, and the records kept by the test \<open>keep\<close>.
\<close>

fun mem_records ::
  "(Record \<Rightarrow> rstr fset option \<Rightarrow> bool) \<Rightarrow> rstr fset option \<Rightarrow> Record list \<Rightarrow> rstr fset \<times> Record list \<Rightarrow>
   rstr fset \<times> Record list" where
  "mem_records keep cand [] st = st"
| "mem_records keep cand (r # rs) (seen, out) =
     mem_records keep cand rs
       (finsert (rec_key r) seen,
        if rec_key r |\<notin>| seen \<and> \<not> is_tombstone r \<and> keep r cand then out @ [r] else out)"

fun mem_pass ::
  "(Record \<Rightarrow> rstr fset option \<Rightarrow> bool) \<Rightarrow> rstr list option \<Rightarrow> MemTable list \<Rightarrow> rstr fset \<times> Record list \<Rightarrow>
   rstr fset \<times> Record list" where
  "mem_pass keep want [] st = st"
| "mem_pass keep want (t # ts) st =
     mem_pass keep want ts
       (mem_records keep (map_option (text_candidates t) want) (mt_values t) st)"

text \<open>The candidates of one visited step, in row order; an error of a probe or a read ends it.\<close>

fun step_rows ::
  "(rstr \<Rightarrow> bool result) \<Rightarrow> (int \<Rightarrow> rstr \<Rightarrow> bool) \<Rightarrow> rstr fset \<Rightarrow> SegmentColumns \<Rightarrow> (nat \<Rightarrow> 'a result) \<Rightarrow> nat list \<Rightarrow> 'a list result" where
  "step_rows probe bound seen c emit [] = Inr []"
| "step_rows probe bound seen c emit (r # rows) =
     (let key = key_at c r in
      if key |\<in>| seen \<or> is_tombstone_at c r then step_rows probe bound seen c emit rows
      else
        and_then (probe key) (\<lambda>shadow.
          if shadow then step_rows probe bound seen c emit rows
          else if \<not> bound (timestamp_at c r) key then step_rows probe bound seen c emit rows
          else
            and_then (emit r) (\<lambda>x.
            and_then (step_rows probe bound seen c emit rows) (\<lambda>xs. Inr (x # xs)))))"

definition probe_newer ::
  "unicode \<Rightarrow> ('x) codec_ext_scheme \<Rightarrow> opener \<Rightarrow> WalkPlan \<Rightarrow> nat \<Rightarrow> rstr \<Rightarrow> bool result" where
  "probe_newer U X open_seg plan idx key =
     (if wp_track_shadows plan then shadowed U X open_seg (take idx (wp_steps plan)) key else Inr False)"

definition visit_step ::
  "unicode \<Rightarrow> ('x) codec_ext_scheme \<Rightarrow> opener \<Rightarrow> QuerySpec \<Rightarrow> (int \<Rightarrow> rstr \<Rightarrow> bool) \<Rightarrow> WalkPlan \<Rightarrow> rstr fset \<Rightarrow>
   (SegmentColumns \<Rightarrow> byte list option \<Rightarrow> nat \<Rightarrow> nat \<Rightarrow> 'a result) \<Rightarrow> nat \<Rightarrow> 'a list result" where
  "visit_step U X open_seg spec bound plan seen emit idx =
     (let s = wp_steps plan ! idx in
      if \<not> ws_visit s then Inr []
      else
        and_then (read_segment U X open_seg (ws_meta s) (need_tokens U spec)) (\<lambda>(c, f).
        and_then (matching_rows U X f c spec) (\<lambda>rows.
          step_rows (probe_newer U X open_seg plan idx) bound seen c (emit c f idx) rows)))"

definition walk_all ::
  "unicode \<Rightarrow> ('x) codec_ext_scheme \<Rightarrow> opener \<Rightarrow> QuerySpec \<Rightarrow> (int \<Rightarrow> rstr \<Rightarrow> bool) \<Rightarrow> WalkPlan \<Rightarrow> rstr fset \<Rightarrow>
   (SegmentColumns \<Rightarrow> byte list option \<Rightarrow> nat \<Rightarrow> nat \<Rightarrow> 'a result) \<Rightarrow> 'a list result" where
  "walk_all U X open_seg spec bound plan seen emit =
     and_then (map_result (visit_step U X open_seg spec bound plan seen emit) [0..<length (wp_steps plan)])
       (\<lambda>xss. Inr (concat xss))"

definition mem_keep :: "unicode \<Rightarrow> QuerySpec \<Rightarrow> Record \<Rightarrow> rstr fset option \<Rightarrow> bool" where
  "mem_keep U spec r cand \<longleftrightarrow> mem_matches U spec r cand \<and> after_bound_ok spec r"

definition scan_full ::
  "unicode \<Rightarrow> ('x) codec_ext_scheme \<Rightarrow> opener \<Rightarrow> EngineInner \<Rightarrow> QuerySpec \<Rightarrow> Record list result" where
  "scan_full U X open_seg e spec =
     (case mem_pass (mem_keep U spec) (text_query_tokens U spec) (mem_tables e) ({||}, []) of
        (seen, out) \<Rightarrow>
          and_then
            (walk_all U X open_seg spec (after_ok_cols spec) (walk_plan e spec) seen
               (\<lambda>c f idx r. materialize X f c r (\<not> qs_omit_text spec))) (\<lambda>rest.
            Inr (strip_text_if_omitted spec (sort_truncate spec (out @ rest)))))"

definition count_full ::
  "unicode \<Rightarrow> ('x) codec_ext_scheme \<Rightarrow> opener \<Rightarrow> EngineInner \<Rightarrow> QuerySpec \<Rightarrow> nat result" where
  "count_full U X open_seg e spec =
     (case mem_pass (mem_matches U spec) (text_query_tokens U spec) (mem_tables e) ({||}, []) of
        (seen, out) \<Rightarrow>
          and_then
            (walk_all U X open_seg spec (\<lambda>ts key. True) (walk_plan e spec) seen (\<lambda>c f idx r. Inr ())) (\<lambda>rest.
            Inr (length out + length rest)))"

section \<open>Top-k scan\<close>

datatype CandSrc =
    CandMem Record
  | CandSeg SegmentColumns nat nat

record HeapItem =
  hi_prim :: Prim
  hi_key :: rstr
  hi_src :: CandSrc

definition hi_rank :: "HeapItem \<Rightarrow> nat \<times> int \<times> rstr" where
  "hi_rank h = prim_key (hi_prim h) (hi_key h)"

definition hi_timestamp :: "HeapItem \<Rightarrow> int" where
  "hi_timestamp h =
     (case hi_src h of CandMem r \<Rightarrow> rec_timestamp r | CandSeg c _ row \<Rightarrow> timestamp_at c row)"

text \<open>
  \<^verbatim>\<open>BinaryHeap\<close>, the standard library's max-heap, is its content in ascending order: the
  weakest kept row is the last one.
\<close>

definition offer :: "nat \<Rightarrow> HeapItem \<Rightarrow> HeapItem list \<Rightarrow> HeapItem list" where
  "offer limit h heap =
     (if length heap < limit then insort_key hi_rank h heap
      else if hi_rank h < hi_rank (last heap) then insort_key hi_rank h (butlast heap)
      else heap)"

definition mem_item :: "OrderBy \<Rightarrow> Record \<Rightarrow> HeapItem" where
  "mem_item order r =
     \<lparr> hi_prim = make_prim order (rec_timestamp r)
         (case order_numeric order of None \<Rightarrow> None | Some n \<Rightarrow> fmlookup (rec_numerics r) n),
       hi_key = rec_key r, hi_src = CandMem r \<rparr>"

definition seg_item :: "OrderBy \<Rightarrow> SegmentColumns \<Rightarrow> nat \<Rightarrow> nat \<Rightarrow> HeapItem" where
  "seg_item order c idx row =
     \<lparr> hi_prim = make_prim order (timestamp_at c row)
         (case order_numeric order of None \<Rightarrow> None | Some n \<Rightarrow> numeric_at c n row),
       hi_key = key_at c row, hi_src = CandSeg c idx row \<rparr>"

fun suffix_max_ts :: "WalkStep list \<Rightarrow> int list" where
  "suffix_max_ts [] = []"
| "suffix_max_ts (s # ss) =
     (let rest = suffix_max_ts ss;
          acc = (case rest of [] \<Rightarrow> i64_MIN | a # _ \<Rightarrow> a)
      in (if ws_visit s then max acc (zm_max_ts (sm_zone (ws_meta s))) else acc) # rest)"

fun topk_walk ::
  "unicode \<Rightarrow> ('x) codec_ext_scheme \<Rightarrow> opener \<Rightarrow> QuerySpec \<Rightarrow> OrderBy \<Rightarrow> WalkPlan \<Rightarrow> rstr fset \<Rightarrow>
   nat list \<Rightarrow> HeapItem list \<Rightarrow> HeapItem list result" where
  "topk_walk U X open_seg spec order plan seen [] heap = Inr heap"
| "topk_walk U X open_seg spec order plan seen (i # is) heap =
     (if order = TimestampDesc \<and> qs_limit spec \<le> length heap \<and>
         suffix_max_ts (wp_steps plan) ! i < hi_timestamp (last heap)
      then Inr heap
      else
        and_then
          (visit_step U X open_seg spec (after_ok_cols spec) plan seen
             (\<lambda>c f idx r. Inr (seg_item order c idx r)) i) (\<lambda>items.
          topk_walk U X open_seg spec order plan seen is (fold (offer (qs_limit spec)) items heap)))"

definition open_payload_file :: "opener \<Rightarrow> SegmentMeta \<Rightarrow> SegmentColumns \<Rightarrow> byte list option result" where
  "open_payload_file open_seg meta c =
     (if \<not> payload_needs_file c then Inr None else and_then (open_seg meta) (\<lambda>f. Inr (Some f)))"

definition drain_item ::
  "('x) codec_ext_scheme \<Rightarrow> opener \<Rightarrow> QuerySpec \<Rightarrow> WalkPlan \<Rightarrow> HeapItem \<Rightarrow> Record result" where
  "drain_item X open_seg spec plan h =
     (case hi_src h of
        CandMem r \<Rightarrow> Inr r
      | CandSeg c idx row \<Rightarrow>
          and_then (open_payload_file open_seg (ws_meta (wp_steps plan ! idx)) c) (\<lambda>f.
            materialize X f c row (\<not> qs_omit_text spec)))"

definition scan_topk ::
  "unicode \<Rightarrow> ('x) codec_ext_scheme \<Rightarrow> opener \<Rightarrow> EngineInner \<Rightarrow> QuerySpec \<Rightarrow> OrderBy \<Rightarrow> Record list result" where
  "scan_topk U X open_seg e spec order =
     (case mem_pass (mem_keep U spec) (text_query_tokens U spec) (mem_tables e) ({||}, []) of
        (seen, mem) \<Rightarrow>
          (let plan = walk_plan e spec;
               heap = fold (offer (qs_limit spec)) (map (mem_item order) mem) []
           in and_then (topk_walk U X open_seg spec order plan seen [0..<length (wp_steps plan)] heap) (\<lambda>items.
              and_then (map_result (drain_item X open_seg spec plan) items) (\<lambda>out.
                Inr (strip_text_if_omitted spec out)))))"

section \<open>Fold-mode scan\<close>

datatype Fold = FoldDone Record | FoldPending Record

fun fold_record :: "Fold \<Rightarrow> Record" where
  "fold_record (FoldDone r) = r"
| "fold_record (FoldPending r) = r"

definition fold_of :: "Record \<Rightarrow> Fold" where
  "fold_of r = (if is_delta r then FoldPending r else FoldDone r)"

definition feed :: "Record \<Rightarrow> (rstr, Fold) fmap \<Rightarrow> (rstr, Fold) fmap" where
  "feed r states =
     (case fmlookup states (rec_key r) of
        None \<Rightarrow> fmupd (rec_key r) (fold_of r) states
      | Some (FoldPending p) \<Rightarrow> fmupd (rec_key r) (fold_of (merge_delta (Some r) p)) states
      | Some (FoldDone _) \<Rightarrow> states)"

definition has_prefix :: "rstr option \<Rightarrow> Record \<Rightarrow> bool" where
  "has_prefix p r = (case p of None \<Rightarrow> True | Some p \<Rightarrow> prefix p (rec_key r))"

fun feed_segments ::
  "unicode \<Rightarrow> ('x) codec_ext_scheme \<Rightarrow> opener \<Rightarrow> QuerySpec \<Rightarrow> bool \<Rightarrow> SegmentMeta list \<Rightarrow>
   (rstr, Fold) fmap \<Rightarrow> (rstr, Fold) fmap result" where
  "feed_segments U X open_seg stripped wants_text [] states = Inr states"
| "feed_segments U X open_seg stripped wants_text (m # ms) states =
     and_then (read_segment U X open_seg m False) (\<lambda>(c, f).
     and_then (matching_rows U X f c stripped) (\<lambda>rows.
     and_then (map_result (\<lambda>r. materialize X f c r wants_text) rows) (\<lambda>rs.
       feed_segments U X open_seg stripped wants_text ms (fold feed rs states))))"

definition scan_fold ::
  "unicode \<Rightarrow> ('x) codec_ext_scheme \<Rightarrow> opener \<Rightarrow> EngineInner \<Rightarrow> QuerySpec \<Rightarrow> Record list result" where
  "scan_fold U X open_seg e spec =
     (let stripped = QuerySpec_default\<lparr> qs_key_prefix := qs_key_prefix spec \<rparr>;
          fold_wants_text = (\<not> qs_omit_text spec \<or> qs_text_match spec \<noteq> None \<or> qs_text_like spec \<noteq> None);
          mem = fold feed (filter (has_prefix (qs_key_prefix spec)) (concat (map mt_values (mem_tables e)))) fmempty
      in and_then (feed_segments U X open_seg stripped fold_wants_text (pruned_segments e stripped) mem) (\<lambda>states.
           let out = filter (\<lambda>r. \<not> is_tombstone r \<and> matches U spec r \<and> after_bound_ok spec r)
                       (map (\<lambda>f. finish_fold (fold_record f)) (bt_values states))
           in Inr (strip_text_if_omitted spec (sort_truncate spec out))))"

section \<open>Dispatch\<close>

definition zone_may_have :: "SegmentMeta \<Rightarrow> rstr \<Rightarrow> bool" where
  "zone_may_have m label =
     (case fmlookup (zm_labels (sm_zone m)) label of
        Some (Some vs) \<Rightarrow> lit ''1'' |\<in>| vs
      | Some None \<Rightarrow> True
      | None \<Rightarrow> False)"

definition deltas_possible :: "EngineInner \<Rightarrow> QuerySpec \<Rightarrow> bool" where
  "deltas_possible e spec \<longleftrightarrow>
     mt_has_deltas (ei_memtable e) \<or> list_ex (\<lambda>(_, t). mt_has_deltas t) (ei_frozen e) \<or>
     list_ex (\<lambda>m. may_match (sm_zone m) (QuerySpec_default\<lparr> qs_key_prefix := qs_key_prefix spec \<rparr>) \<and>
                  zone_may_have m DELTA_LABEL) (mf_segments (ei_manifest e))"

definition scan_once ::
  "unicode \<Rightarrow> ('x) codec_ext_scheme \<Rightarrow> opener \<Rightarrow> EngineInner \<Rightarrow> QuerySpec \<Rightarrow> Record list result" where
  "scan_once U X open_seg e spec =
     (if deltas_possible e spec then scan_fold U X open_seg e spec
      else
        (case (if 0 < qs_limit spec then qs_order_by spec else None) of
           Some order \<Rightarrow> scan_topk U X open_seg e spec order
         | None \<Rightarrow> scan_full U X open_seg e spec))"

definition count_once ::
  "unicode \<Rightarrow> ('x) codec_ext_scheme \<Rightarrow> opener \<Rightarrow> EngineInner \<Rightarrow> QuerySpec \<Rightarrow> nat result" where
  "count_once U X open_seg e spec =
     (let unbounded = spec\<lparr> qs_limit := 0, qs_order_by := None \<rparr>
      in if deltas_possible e unbounded
         then and_then (scan_fold U X open_seg e unbounded) (\<lambda>out. Inr (length out))
         else count_full U X open_seg e unbounded)"

text \<open>
  A read that finds a file gone is tried again, at most four times; every attempt sees the state
  of its moment, so the attempts are a function of their number.
\<close>

definition VANISHED_SEGMENT_RETRIES :: nat where
  "VANISHED_SEGMENT_RETRIES = 4"

function retry_from :: "(nat \<Rightarrow> 'a result) \<Rightarrow> nat \<Rightarrow> 'a result" where
  "retry_from attempt n =
     (if attempt n = Inl (Io NotFound) \<and> n < VANISHED_SEGMENT_RETRIES then retry_from attempt (n + 1)
      else attempt n)"
  by pat_completeness auto
termination
  by (relation "measure (\<lambda>(_, n). VANISHED_SEGMENT_RETRIES - n)") auto

declare retry_from.simps [simp del]

definition retry_vanished :: "(nat \<Rightarrow> 'a result) \<Rightarrow> 'a result" where
  "retry_vanished attempt = retry_from attempt 0"

definition numeric_order :: "OrderBy option \<Rightarrow> bool" where
  "numeric_order order = (case order of Some (NumericAsc _) \<Rightarrow> True | Some (NumericDesc _) \<Rightarrow> True | _ \<Rightarrow> False)"

definition engine_get ::
  "unicode \<Rightarrow> ('x) codec_ext_scheme \<Rightarrow> (nat \<Rightarrow> opener \<times> EngineInner) \<Rightarrow> rstr \<Rightarrow> Record option result" where
  "engine_get U X at key =
     retry_vanished (\<lambda>n. case at n of (open_seg, e) \<Rightarrow> get_once U X open_seg e key)"

definition scan ::
  "unicode \<Rightarrow> ('x) codec_ext_scheme \<Rightarrow> (nat \<Rightarrow> opener \<times> EngineInner) \<Rightarrow> QuerySpec \<Rightarrow> Record list result" where
  "scan U X at spec =
     (if qs_after spec \<noteq> None \<and> numeric_order (qs_order_by spec)
      then Inl (Config (lit ''QuerySpec.after requires a timestamp order''))
      else retry_vanished (\<lambda>n. case at n of (open_seg, e) \<Rightarrow> scan_once U X open_seg e spec))"

definition engine_count ::
  "unicode \<Rightarrow> ('x) codec_ext_scheme \<Rightarrow> (nat \<Rightarrow> opener \<times> EngineInner) \<Rightarrow> QuerySpec \<Rightarrow> nat result" where
  "engine_count U X at spec =
     (if qs_after spec \<noteq> None
      then Inl (Config (lit ''count is over the whole match set; `after` is not meaningful''))
      else retry_vanished (\<lambda>n. case at n of (open_seg, e) \<Rightarrow> count_once U X open_seg e spec))"

end
