(* ===== verification/Engine_Spec.thy ===== *)
theory Engine_Spec
  imports Engine_Read Row_Match
begin

text \<open>
  What a read of the engine means: the sources of a state newest first, the newest version of
  every key, and the reference scan over those versions. The lemmas give the exact result of every
  phase of the read path on a state whose segments hold known records.
\<close>

section \<open>Sources and the newest version\<close>

type_synonym source = "(rstr, Record) fmap"

definition keyed :: "source \<Rightarrow> bool" where
  "keyed s \<longleftrightarrow> (\<forall>k r. fmlookup s k = Some r \<longrightarrow> rec_key r = k)"

definition seg_map :: "Record list \<Rightarrow> source" where
  "seg_map rs = fmap_of_list (map (\<lambda>r. (rec_key r, r)) rs)"

fun latest :: "source list \<Rightarrow> source" where
  "latest [] = fmempty"
| "latest (s # ss) = latest ss ++\<^sub>f s"

definition newest_first :: "SegmentMeta list \<Rightarrow> SegmentMeta list" where
  "newest_first ms = sort_key (\<lambda>m. - int (sm_id m)) ms"

definition sources :: "EngineInner \<Rightarrow> (SegmentMeta \<Rightarrow> Record list) \<Rightarrow> source list" where
  "sources e segs =
     map mt_records (mem_tables e) @ map (\<lambda>m. seg_map (segs m)) (newest_first (mf_segments (ei_manifest e)))"

text \<open>The reference: filter the newest versions by the oracle, sort, truncate, project.\<close>

definition wanted :: "unicode \<Rightarrow> QuerySpec \<Rightarrow> Record \<Rightarrow> bool" where
  "wanted U spec r \<longleftrightarrow> \<not> is_tombstone r \<and> matches U spec r \<and> after_bound_ok spec r"

definition reference_scan :: "unicode \<Rightarrow> QuerySpec \<Rightarrow> source \<Rightarrow> Record list" where
  "reference_scan U spec s =
     strip_text_if_omitted spec (sort_truncate spec (filter (wanted U spec) (bt_values s)))"

section \<open>States whose segments hold known records\<close>

definition segment_holds ::
  "unicode \<Rightarrow> ('x) codec_ext_scheme \<Rightarrow> opener \<Rightarrow> SegmentMeta \<Rightarrow> Record list \<Rightarrow> bool" where
  "segment_holds U X open_seg m rs \<longleftrightarrow>
     rs \<noteq> [] \<and> sorted_wrt (<) (map rec_key rs) \<and> (\<forall>r \<in> set rs. covers (sm_zone m) r) \<and>
     (\<forall>need. \<exists>c f. read_segment U X open_seg m need = Inr (c, f) \<and> cols_ok U X f need c rs \<and>
        open_payload_file open_seg m c = Inr f) \<and>
     (\<exists>ks. load_segment_keys U X open_seg m = Inr ks \<and>
        (\<forall>k. segkeys_contains ks k \<longleftrightarrow> k \<in> rec_key ` set rs))"

definition engine_ok ::
  "unicode \<Rightarrow> ('x) codec_ext_scheme \<Rightarrow> opener \<Rightarrow> EngineInner \<Rightarrow> (SegmentMeta \<Rightarrow> Record list) \<Rightarrow> bool" where
  "engine_ok U X open_seg e segs \<longleftrightarrow>
     unicode_ok U \<and> (\<forall>t \<in> set (mem_tables e). mt_inv U t) \<and>
     distinct (map sm_id (mf_segments (ei_manifest e))) \<and>
     (\<forall>m \<in> set (mf_segments (ei_manifest e)). segment_holds U X open_seg m (segs m))"

section \<open>Lookups in sources\<close>

lemma latest_lookup:
  "fmlookup (latest ss) k = (case List.find (\<lambda>s. fmlookup s k \<noteq> None) ss of None \<Rightarrow> None | Some s \<Rightarrow> fmlookup s k)"
  by (induction ss) (auto simp: fmlookup_dom_iff)

lemma latest_append: "latest (a @ b) = latest b ++\<^sub>f latest a"
  by (induction a) simp_all

lemma keyed_add: "keyed a \<Longrightarrow> keyed b \<Longrightarrow> keyed (a ++\<^sub>f b)"
  unfolding keyed_def by simp

lemma keyed_latest: "list_all keyed ss \<Longrightarrow> keyed (latest ss)"
  by (induction ss) (simp_all add: keyed_add, simp add: keyed_def)

lemma keyed_mt_records: "mt_inv U t \<Longrightarrow> keyed (mt_records t)"
  by (auto simp: mt_inv_def mt_keyed_def keyed_def)

lemma seg_map_lookup:
  assumes "sorted_wrt (<) (map rec_key rs)"
  shows "fmlookup (seg_map rs) k = Some r \<longleftrightarrow> r \<in> set rs \<and> rec_key r = k"
proof -
  have "distinct (map fst (map (\<lambda>r. (rec_key r, r)) rs))"
    using assms by (simp add: comp_def strict_sorted_iff)
  from map_of_eq_Some_iff [OF this, of k r] show ?thesis
    unfolding seg_map_def fmlookup_of_list by auto
qed

lemma seg_map_None:
  assumes "sorted_wrt (<) (map rec_key rs)"
  shows "fmlookup (seg_map rs) k = None \<longleftrightarrow> k \<notin> rec_key ` set rs"
proof (cases "fmlookup (seg_map rs) k")
  case (Some r)
  with seg_map_lookup [OF assms, of k r] show ?thesis by auto
next
  case None
  with seg_map_lookup [OF assms, of k] show ?thesis by force
qed

lemma keyed_seg_map: "sorted_wrt (<) (map rec_key rs) \<Longrightarrow> keyed (seg_map rs)"
  by (simp add: keyed_def seg_map_lookup)

lemma distinct_bt_values_keyed: "keyed s \<Longrightarrow> distinct (map rec_key (bt_values s))"
proof -
  assume "keyed s"
  then have "map rec_key (bt_values s) = bt_keys s"
    unfolding bt_values_def bt_keys_def map_map comp_def
    by (intro map_cong) (auto simp: keyed_def)
  then show ?thesis by simp
qed

lemma set_newest_first [simp]: "set (newest_first ms) = set ms"
  by (simp add: newest_first_def)

lemma newest_first_sorted:
  assumes "distinct (map sm_id ms)"
  shows "sorted_wrt (\<lambda>a b. sm_id b < sm_id a) (newest_first ms)"
proof -
  let ?L = "newest_first ms"
  have "sorted (map (\<lambda>m. - int (sm_id m)) ?L)" by (simp add: newest_first_def)
  moreover have "distinct (map (\<lambda>m. - int (sm_id m)) ?L)"
  proof -
    have "distinct ?L" "inj_on sm_id (set ?L)" using assms by (simp_all add: newest_first_def distinct_map)
    then show ?thesis by (auto simp: distinct_map inj_on_def)
  qed
  ultimately have "sorted_wrt (<) (map (\<lambda>m. - int (sm_id m)) ?L)" by (simp add: strict_sorted_iff)
  then show ?thesis by (simp add: sorted_wrt_map)
qed

section \<open>Sorting\<close>

text \<open>The rank is total on records with distinct keys, so the order of collection is lost.\<close>

lemma sort_rank_cong:
  assumes "distinct (map rec_key xs)" and "distinct (map rec_key ys)" and "set xs = set ys"
  shows "sort_key (record_rank ordr) xs = sort_key (record_rank ordr) ys"
proof (rule sort_key_inj_key_eq)
  have "distinct xs" "distinct ys" using assms(1,2) by (auto simp: distinct_map)
  with assms(3) have "mset xs = mset ys" by (simp add: set_eq_iff_mset_eq_distinct)
  then show "mset xs = mset (sort_key (record_rank ordr) ys)" by simp
  show "inj_on (record_rank ordr) (set xs)"
    using assms(1) by (auto simp: distinct_map inj_on_def record_rank_def prim_key_def)
qed simp

lemma sort_truncate_cong:
  assumes "distinct (map rec_key xs)" and "distinct (map rec_key ys)" and "set xs = set ys"
  shows "sort_truncate spec xs = sort_truncate spec ys"
  using sort_rank_cong [OF assms] by (simp add: sort_truncate_def)

lemma sort_key_map: "(\<And>x. f (g x) = f x) \<Longrightarrow> sort_key f (map g xs) = map g (sort_key f xs)"
proof (induction xs)
  case (Cons x xs)
  have "insort_key f (g x) (map g ys) = map g (insort_key f x ys)" for ys
    by (induction ys) (auto simp: Cons.prems)
  with Cons show ?case by simp
qed simp

definition drop_text :: "QuerySpec \<Rightarrow> Record \<Rightarrow> Record" where
  "drop_text spec r = (if qs_omit_text spec then r\<lparr> rec_text := None \<rparr> else r)"

lemma drop_text_sel [simp]:
  "rec_key (drop_text spec r) = rec_key r" "rec_timestamp (drop_text spec r) = rec_timestamp r"
  "rec_numerics (drop_text spec r) = rec_numerics r" "rec_labels (drop_text spec r) = rec_labels r"
  by (simp_all add: drop_text_def)

lemma drop_text_rank [simp]: "record_rank ordr (drop_text spec r) = record_rank ordr r"
  by (simp add: record_rank_def record_prim_def drop_text_def split: option.splits)

lemma strip_text_map: "strip_text_if_omitted spec out = map (drop_text spec) out"
  by (simp add: strip_text_if_omitted_def drop_text_def [abs_def])

lemma sort_truncate_map: "sort_truncate spec (map (drop_text spec) xs) = map (drop_text spec) (sort_truncate spec xs)"
  by (simp add: sort_truncate_def sort_key_map take_map Let_def)

lemma drop_text_idem [simp]: "drop_text spec (drop_text spec r) = drop_text spec r"
  by (simp add: drop_text_def)

text \<open>Rows that were read without text, and rows that were not, give the same page.\<close>

lemma strip_sort_truncate:
  "strip_text_if_omitted spec (sort_truncate spec (out @ map (drop_text spec) rest)) =
     strip_text_if_omitted spec (sort_truncate spec (out @ rest))"
proof -
  have "map (drop_text spec) (sort_truncate spec xs) = sort_truncate spec (map (drop_text spec) xs)" for xs
    by (simp add: sort_truncate_map)
  then show ?thesis by (simp add: strip_text_map comp_def)
qed


section \<open>The pass over the memtables\<close>

text \<open>
  Sources newest first, each giving the records it is the first to have a key of and that pass a
  test: what every read path collects.
\<close>

fun fresh :: "(Record \<Rightarrow> bool) \<Rightarrow> source list \<Rightarrow> rstr set \<Rightarrow> Record list" where
  "fresh P [] seen = []"
| "fresh P (s # ss) seen =
     filter (\<lambda>r. rec_key r \<notin> seen \<and> P r) (bt_values s) @ fresh P ss (seen \<union> fset (fmdom s))"

lemma mem_records_eq:
  "distinct (map rec_key rs) \<Longrightarrow>
     mem_records keep cand rs (seen, out) =
       (seen |\<union>| fset_of_list (map rec_key rs),
        out @ filter (\<lambda>r. rec_key r |\<notin>| seen \<and> \<not> is_tombstone r \<and> keep r cand) rs)"
proof (induction rs arbitrary: seen out)
  case (Cons r rs)
  have "filter (\<lambda>x. rec_key x |\<notin>| finsert (rec_key r) seen \<and> \<not> is_tombstone x \<and> keep x cand) rs =
      filter (\<lambda>x. rec_key x |\<notin>| seen \<and> \<not> is_tombstone x \<and> keep x cand) rs"
  proof (rule filter_cong [OF refl])
    fix x assume "x \<in> set rs"
    with Cons.prems have "rec_key x \<noteq> rec_key r" by (metis distinct.simps(2) image_eqI list.set_map list.simps(9))
    then show "(rec_key x |\<notin>| finsert (rec_key r) seen \<and> \<not> is_tombstone x \<and> keep x cand) =
        (rec_key x |\<notin>| seen \<and> \<not> is_tombstone x \<and> keep x cand)" by simp
  qed
  with Cons show ?case by auto
qed simp

lemma mt_values_keys: "mt_inv U t \<Longrightarrow> map rec_key (mt_values t) = bt_keys (mt_records t)"
  unfolding mt_values_def bt_values_def bt_keys_def map_map comp_def
  by (intro map_cong) (auto simp: mt_inv_def mt_keyed_def)

lemma mem_matches_eq:
  assumes "mt_inv U t" and "r \<in> set (mt_values t)"
  shows "mem_matches U spec r (map_option (text_candidates t) (text_query_tokens U spec)) = matches U spec r"
proof (cases "qs_text_match spec")
  case (Some q)
  from assms have "mt_doc t (rec_key r) = rec_text r"
    by (auto simp: mt_values_def bt_values_iff mt_doc_def mt_inv_def mt_keyed_def mt_get_def)
  with Some text_candidates_oracle [OF assms(1), of "rec_key r" "fts_tokens U q"] show ?thesis
    by (auto simp: mem_matches_def text_query_tokens_def matches_def text_match_ok_def)
qed (simp add: mem_matches_def text_query_tokens_def)

lemma mem_pass_eq:
  assumes "\<And>t. t \<in> set ts \<Longrightarrow> mt_inv U t"
    and "\<And>t r. t \<in> set ts \<Longrightarrow> r \<in> set (mt_values t) \<Longrightarrow>
           (\<not> is_tombstone r \<and> keep r (map_option (text_candidates t) want)) = P r"
  shows "\<exists>seen'. mem_pass keep want ts (seen, out) = (seen', out @ fresh P (map mt_records ts) (fset seen)) \<and>
           fset seen' = fset seen \<union> fset (fmdom (latest (map mt_records ts)))"
  using assms
proof (induction ts arbitrary: seen out)
  case (Cons t ts)
  have inv: "mt_inv U t" using Cons.prems(1) by simp
  have d: "distinct (map rec_key (mt_values t))" unfolding mt_values_keys [OF inv] by simp
  let ?seen = "seen |\<union>| fset_of_list (map rec_key (mt_values t))"
  let ?new = "filter (\<lambda>r. rec_key r |\<notin>| seen \<and> P r) (mt_values t)"
  have seen: "fset ?seen = fset seen \<union> fset (fmdom (mt_records t))"
    using arg_cong [OF mt_values_keys [OF inv], of set] by (simp add: fset_of_list.rep_eq)
  have "filter (\<lambda>r. rec_key r |\<notin>| seen \<and> \<not> is_tombstone r \<and> keep r (map_option (text_candidates t) want)) (mt_values t) = ?new"
    using Cons.prems(2) [of t] by (intro filter_cong) auto
  then have step: "mem_records keep (map_option (text_candidates t) want) (mt_values t) (seen, out) = (?seen, out @ ?new)"
    unfolding mem_records_eq [OF d] by simp
  obtain seen' where "mem_pass keep want ts (?seen, out @ ?new) =
      (seen', (out @ ?new) @ fresh P (map mt_records ts) (fset ?seen))"
    "fset seen' = fset ?seen \<union> fset (fmdom (latest (map mt_records ts)))"
    using Cons.IH [of ?seen "out @ ?new"] Cons.prems by auto
  with step seen show ?case by (auto simp: mt_values_def)
qed simp

text \<open>What \<open>fresh\<close> collects: the newest versions outside \<open>seen\<close> that pass.\<close>

lemma fresh_set:
  assumes "list_all keyed ss"
  shows "r \<in> set (fresh P ss seen) \<longleftrightarrow>
           fmlookup (latest ss) (rec_key r) = Some r \<and> rec_key r \<notin> seen \<and> P r"
  using assms
proof (induction ss arbitrary: seen)
  case (Cons s ss)
  have ks: "keyed s" using Cons.prems by simp
  have mem: "r \<in> set (bt_values s) \<longleftrightarrow> fmlookup s (rec_key r) = Some r"
    using ks by (auto simp: bt_values_iff keyed_def)
  have IH: "r \<in> set (fresh P ss (seen \<union> fset (fmdom s))) \<longleftrightarrow>
      fmlookup (latest ss) (rec_key r) = Some r \<and> rec_key r \<notin> seen \<union> fset (fmdom s) \<and> P r"
    by (rule Cons.IH) (use Cons.prems in simp)
  have "r \<in> set (fresh P (s # ss) seen) \<longleftrightarrow>
      fmlookup s (rec_key r) = Some r \<and> rec_key r \<notin> seen \<and> P r \<or>
      fmlookup (latest ss) (rec_key r) = Some r \<and> rec_key r \<notin> seen \<and> rec_key r |\<notin>| fmdom s \<and> P r"
    using mem IH by auto
  then show ?case by (cases "fmlookup s (rec_key r)") (simp_all add: fmlookup_dom_iff)
qed simp

lemma fresh_distinct:
  assumes "list_all keyed ss"
  shows "distinct (map rec_key (fresh P ss seen))"
  using assms
proof (induction ss arbitrary: seen)
  case (Cons s ss)
  have ks: "keyed s" and kss: "list_all keyed ss" using Cons.prems by simp_all
  have own: "rec_key r |\<in>| fmdom s" if "r \<in> set (bt_values s)" for r
    using that ks by (auto simp: bt_values_iff keyed_def intro: fmdomI)
  have other: "rec_key r |\<notin>| fmdom s" if "r \<in> set (fresh P ss (seen \<union> fset (fmdom s)))" for r
    using that unfolding fresh_set [OF kss] by simp
  have "distinct (map rec_key (filter (\<lambda>r. rec_key r \<notin> seen \<and> P r) (bt_values s)))"
    by (rule distinct_map_filter [OF distinct_bt_values_keyed [OF ks]])
  moreover have "rec_key ` set (filter (\<lambda>r. rec_key r \<notin> seen \<and> P r) (bt_values s)) \<inter>
      rec_key ` set (fresh P ss (seen \<union> fset (fmdom s))) = {}"
  proof -
    have "rec_key a \<noteq> rec_key b" if "a \<in> set (bt_values s)" "b \<in> set (fresh P ss (seen \<union> fset (fmdom s)))" for a b
      using own [OF that(1)] other [OF that(2)] by metis
    then show ?thesis by fastforce
  qed
  ultimately show ?case using Cons.IH [OF kss] by simp
qed simp

end
