(* ===== verification/Engine_Scan.thy ===== *)
theory Engine_Scan
  imports Engine_Spec
begin

text \<open>
  The scans of the engine return the reference scan: the walk over the segments emits exactly the
  newest versions, whatever the zone maps pruned, whether the plan tracks shadows or takes the
  disjoint-ranges shortcut, and whether the rows were collected in full or through the bounded
  heap with early termination.
\<close>

section \<open>One visited step\<close>

lemma is_tombstone_at_ok:
  assumes "cols_ok U X f need c rs" and "i < length rs"
  shows "is_tombstone_at c i = is_tombstone (rs ! i)"
proof -
  have labels: "labels_ok (sc_labels c) rs" using assms(1) by (simp add: cols_ok_def)
  have "label_value_at c TOMBSTONE_LABEL i = fmlookup (rec_labels (rs ! i)) TOMBSTONE_LABEL"
  proof (cases "fmlookup (sc_labels c) TOMBSTONE_LABEL")
    case None
    with labels_ok_None [OF labels None assms(2)] show ?thesis by (simp add: label_value_at_def)
  next
    case (Some col)
    with labels_ok_Some [OF labels Some] col_value_ok assms(2) show ?thesis
      by (simp add: label_value_at_def)
  qed
  then show ?thesis by (simp add: is_tombstone_at_def is_tombstone_def)
qed

text \<open>The test a row of a visited step passes; \<open>Q\<close> says which keys a newer step shadows.\<close>

definition row_wanted :: "(rstr \<Rightarrow> bool) \<Rightarrow> (int \<Rightarrow> rstr \<Rightarrow> bool) \<Rightarrow> rstr fset \<Rightarrow> Record \<Rightarrow> bool" where
  "row_wanted Q bound seen r \<longleftrightarrow>
     rec_key r |\<notin>| seen \<and> \<not> is_tombstone r \<and> \<not> Q (rec_key r) \<and> bound (rec_timestamp r) (rec_key r)"

lemma step_rows_eq:
  assumes c: "cols_ok U X f need c rs"
    and "\<forall>i \<in> set rows. i < length rs"
    and emit: "\<And>i. i < length rs \<Longrightarrow> emit i = Inr (g i)"
    and probe: "\<And>k. probe k = Inr (Q k)"
  shows "step_rows probe bound seen c emit rows = Inr (map g (filter (\<lambda>i. row_wanted Q bound seen (rs ! i)) rows))"
  using assms(2)
proof (induction rows)
  case (Cons i rows)
  then have i: "i < length rs" by simp
  have "key_at c i = rec_key (rs ! i)" "timestamp_at c i = rec_timestamp (rs ! i)"
    using c i by (simp_all add: cols_ok_def timestamp_at_def)
  with Cons is_tombstone_at_ok [OF c i] emit [OF i] probe show ?case
    by (auto simp: row_wanted_def Let_def)
qed simp

section \<open>The walk plan\<close>

text \<open>Keys of the steps before \<open>idx\<close>.\<close>

definition steps_hold :: "(SegmentMeta \<Rightarrow> Record list) \<Rightarrow> WalkStep list \<Rightarrow> rstr \<Rightarrow> bool" where
  "steps_hold segs ss k \<longleftrightarrow> (\<exists>s \<in> set ss. k \<in> rec_key ` set (segs (ws_meta s)))"

lemma shadowed_eq:
  assumes "\<And>s. s \<in> set ss \<Longrightarrow> segment_holds U X open_seg (ws_meta s) (segs (ws_meta s))"
  shows "shadowed U X open_seg ss k = Inr (steps_hold segs ss k)"
  using assms
proof (induction ss)
  case (Cons s ss)
  let ?z = "sm_zone (ws_meta s)" and ?rs = "segs (ws_meta s)"
  have h: "segment_holds U X open_seg (ws_meta s) ?rs" using Cons.prems by simp
  from h obtain ks where ks: "load_segment_keys U X open_seg (ws_meta s) = Inr ks"
    "\<And>k. segkeys_contains ks k \<longleftrightarrow> k \<in> rec_key ` set ?rs"
    by (auto simp: segment_holds_def)
  have IH: "shadowed U X open_seg ss k = Inr (steps_hold segs ss k)" by (rule Cons.IH) (simp add: Cons.prems)
  have out: "k \<notin> rec_key ` set ?rs" if "\<not> (zm_min_key ?z \<le> k \<and> k \<le> zm_max_key ?z)"
    using that h by (auto simp: segment_holds_def covers_def)
  have "steps_hold segs (s # ss) k \<longleftrightarrow> k \<in> rec_key ` set ?rs \<or> steps_hold segs ss k"
    by (simp add: steps_hold_def)
  with ks IH out show ?case by (simp add: Let_def del: image_iff)
qed (simp add: steps_hold_def)

lemma sort_key_map_comp: "sort_key f (map g xs) = map g (sort_key (\<lambda>x. f (g x)) xs)"
proof (induction xs)
  case (Cons x xs)
  have "insort_key f (g x) (map g ys) = map g (insort_key (\<lambda>x. f (g x)) x ys)" for ys
    by (induction ys) auto
  with Cons show ?case by simp
qed simp

lemma sorted_wrt_pair:
  assumes "sorted_wrt R xs" and "x \<in> set xs" and "y \<in> set xs" and "x \<noteq> y"
  shows "R x y \<or> R y x"
proof -
  from assms(2,3) obtain i j where "i < length xs" "xs ! i = x" "j < length xs" "xs ! j = y"
    by (auto simp: in_set_conv_nth)
  with assms(1,4) show ?thesis by (metis linorder_neqE_nat sorted_wrt_nth_less)
qed

text \<open>Adjacent ranges of a list sorted by their lower end are disjoint only if all are.\<close>

lemma adjacent_disjoint_sorted:
  "adjacent_disjoint rs \<Longrightarrow> \<forall>r \<in> set rs. fst r \<le> snd r \<Longrightarrow> sorted_wrt (\<lambda>a b. snd a < fst b) rs"
proof (induction rs rule: adjacent_disjoint.induct)
  case (1 a b rs)
  then have ab: "snd a < fst b" "fst b \<le> snd b" and s: "sorted_wrt (\<lambda>a b. snd a < fst b) (b # rs)" by auto
  have "snd a < fst x" if "x \<in> set rs" for x
  proof -
    from s that have "snd b < fst x" by simp
    with ab show ?thesis by (meson le_less_trans less_trans)
  qed
  with ab s show ?case by simp
qed simp_all

definition key_range :: "SegmentMeta \<Rightarrow> rstr \<times> rstr" where
  "key_range m = (zm_min_key (sm_zone m), zm_max_key (sm_zone m))"

lemma disjoint_no_shared_key:
  assumes "key_ranges_disjoint ms" and "\<forall>m \<in> set ms. fst (key_range m) \<le> snd (key_range m)"
    and "a \<in> set ms" and "b \<in> set ms" and "a \<noteq> b"
    and "fst (key_range a) \<le> k" "k \<le> snd (key_range a)" "fst (key_range b) \<le> k" "k \<le> snd (key_range b)"
  shows False
proof -
  let ?L = "sort_key (\<lambda>m. fst (key_range m)) ms"
  have "adjacent_disjoint (map key_range ?L)"
    using assms(1) unfolding key_ranges_disjoint_def key_range_def [symmetric] sort_key_map_comp .
  then have "sorted_wrt (\<lambda>a b. snd a < fst b) (map key_range ?L)"
    by (rule adjacent_disjoint_sorted) (use assms(2) in simp)
  then have "sorted_wrt (\<lambda>a b. snd (key_range a) < fst (key_range b)) ?L" by (simp add: sorted_wrt_map)
  from sorted_wrt_pair [OF this, of a b] assms(3-9) show False by (auto dest: le_less_trans less_le_trans)
qed

text \<open>The first step list of the plan, in terms of the segments newest first.\<close>

definition mk_step :: "QuerySpec \<Rightarrow> SegmentMeta \<Rightarrow> WalkStep" where
  "mk_step spec m = \<lparr> ws_meta = m, ws_visit = may_match (sm_zone m) spec \<rparr>"

definition steps0 :: "EngineInner \<Rightarrow> QuerySpec \<Rightarrow> WalkStep list" where
  "steps0 e spec =
     map (mk_step spec) (newest_first (filter (\<lambda>m. may_overlap_prefix (sm_zone m) spec) (mf_segments (ei_manifest e))))"

definition kept_steps :: "EngineInner \<Rightarrow> QuerySpec \<Rightarrow> WalkStep list" where
  "kept_steps e spec = filter (keep_step (steps0 e spec)) (steps0 e spec)"

lemma mk_step_sel [simp]: "ws_meta (mk_step spec m) = m" "ws_visit (mk_step spec m) = may_match (sm_zone m) spec"
  by (simp_all add: mk_step_def)

lemma walk_plan_eq:
  "walk_plan e spec =
     (let disjoint = key_ranges_disjoint (map ws_meta (kept_steps e spec))
      in \<lparr> wp_steps = (if disjoint then filter ws_visit (kept_steps e spec) else kept_steps e spec),
           wp_track_shadows = \<not> disjoint \<rparr>)"
  unfolding walk_plan_def kept_steps_def steps0_def Let_def mk_step_def [abs_def] newest_first_def sort_key_map_comp
  by simp

lemma steps0_sorted:
  assumes "distinct (map sm_id (mf_segments (ei_manifest e)))"
  shows "sorted_wrt (\<lambda>a b. sm_id (ws_meta b) < sm_id (ws_meta a)) (steps0 e spec)"
proof -
  have "distinct (map sm_id (filter P (mf_segments (ei_manifest e))))" for P
    using assms by (rule distinct_map_filter)
  then show ?thesis by (simp add: steps0_def sorted_wrt_map newest_first_sorted)
qed

lemma plan_steps_sorted:
  assumes "distinct (map sm_id (mf_segments (ei_manifest e)))"
  shows "sorted_wrt (\<lambda>a b. sm_id (ws_meta b) < sm_id (ws_meta a)) (wp_steps (walk_plan e spec))"
  using steps0_sorted [OF assms, of spec]
  by (simp add: walk_plan_eq Let_def kept_steps_def sorted_wrt_filter)

lemma plan_steps_set:
  "s \<in> set (wp_steps (walk_plan e spec)) \<Longrightarrow>
     ws_meta s \<in> set (mf_segments (ei_manifest e)) \<and> ws_visit s = may_match (sm_zone (ws_meta s)) spec"
  by (auto simp: walk_plan_eq Let_def kept_steps_def steps0_def split: if_splits)

lemma plan_visits:
  assumes "m \<in> set (mf_segments (ei_manifest e))" and "may_match (sm_zone m) spec"
  shows "mk_step spec m \<in> set (wp_steps (walk_plan e spec))"
proof -
  have "may_overlap_prefix (sm_zone m) spec" using assms(2) by (simp add: may_match_def may_overlap_prefix_def)
  with assms(1) have "mk_step spec m \<in> set (steps0 e spec)" by (simp add: steps0_def)
  with assms(2) show ?thesis by (simp add: walk_plan_eq Let_def kept_steps_def keep_step_def)
qed

section \<open>Shadow probes are exact\<close>

definition spec_prefix :: "QuerySpec \<Rightarrow> rstr \<Rightarrow> bool" where
  "spec_prefix spec k \<longleftrightarrow> (case qs_key_prefix spec of None \<Rightarrow> True | Some p \<Rightarrow> prefix p k)"

text \<open>A newer segment holds the key.\<close>

definition newer_holds :: "EngineInner \<Rightarrow> (SegmentMeta \<Rightarrow> Record list) \<Rightarrow> SegmentMeta \<Rightarrow> rstr \<Rightarrow> bool" where
  "newer_holds e segs m k \<longleftrightarrow>
     (\<exists>m' \<in> set (mf_segments (ei_manifest e)). sm_id m < sm_id m' \<and> k \<in> rec_key ` set (segs m'))"

definition plan_shadows :: "EngineInner \<Rightarrow> (SegmentMeta \<Rightarrow> Record list) \<Rightarrow> QuerySpec \<Rightarrow> nat \<Rightarrow> rstr \<Rightarrow> bool" where
  "plan_shadows e segs spec idx k \<longleftrightarrow>
     wp_track_shadows (walk_plan e spec) \<and> steps_hold segs (take idx (wp_steps (walk_plan e spec))) k"

lemma holds_covers: "segment_holds U X open_seg m rs \<Longrightarrow> r \<in> set rs \<Longrightarrow> covers (sm_zone m) r"
  by (simp add: segment_holds_def)

lemma covers_range_key: "covers (sm_zone m) r \<Longrightarrow> fst (key_range m) \<le> rec_key r \<and> rec_key r \<le> snd (key_range m)"
  by (simp add: covers_def key_range_def)

lemma kept_newer:
  assumes ok: "engine_ok U X open_seg e segs"
    and m: "m \<in> set (mf_segments (ei_manifest e))" "may_match (sm_zone m) spec" "k \<in> rec_key ` set (segs m)"
    and m': "m' \<in> set (mf_segments (ei_manifest e))" "sm_id m < sm_id m'" "k \<in> rec_key ` set (segs m')"
    and k: "spec_prefix spec k"
  shows "mk_step spec m' \<in> set (kept_steps e spec)" and "mk_step spec m \<in> set (kept_steps e spec)"
proof -
  have holds: "segment_holds U X open_seg x (segs x)" if "x \<in> set (mf_segments (ei_manifest e))" for x
    using ok that by (simp add: engine_ok_def)
  obtain r where r: "r \<in> set (segs m)" "rec_key r = k" using m(3) by auto
  obtain r' where r': "r' \<in> set (segs m')" "rec_key r' = k" using m'(3) by auto
  have c: "covers (sm_zone m) r" by (rule holds_covers [OF holds [OF m(1)] r(1)])
  have c': "covers (sm_zone m') r'" by (rule holds_covers [OF holds [OF m'(1)] r'(1)])
  have over: "may_overlap_prefix (sm_zone m) spec"
    by (rule covers_may_overlap_prefix [OF c]) (use k r(2) in \<open>simp add: spec_prefix_def\<close>)
  have over': "may_overlap_prefix (sm_zone m') spec"
    by (rule covers_may_overlap_prefix [OF c']) (use k r'(2) in \<open>simp add: spec_prefix_def\<close>)
  have s: "mk_step spec m \<in> set (steps0 e spec)" "mk_step spec m' \<in> set (steps0 e spec)"
    using m(1) m'(1) over over' by (simp_all add: steps0_def)
  then show "mk_step spec m \<in> set (kept_steps e spec)"
    using m(2) by (simp add: kept_steps_def keep_step_def)
  have "key_range_overlaps (sm_zone m) (sm_zone m')"
    by (rule covers_key_range_overlaps [OF c c']) (simp add: r r')
  with s m(2) m'(2) show "mk_step spec m' \<in> set (kept_steps e spec)"
    by (auto simp: kept_steps_def keep_step_def list_ex_iff intro!: bexI [of _ "mk_step spec m"])
qed

lemma kept_range_ok:
  assumes ok: "engine_ok U X open_seg e segs" and "m \<in> set (mf_segments (ei_manifest e))"
  shows "fst (key_range m) \<le> snd (key_range m)"
proof -
  from assms have "segment_holds U X open_seg m (segs m)" by (simp add: engine_ok_def)
  then have "covers (sm_zone m) (hd (segs m))" by (simp add: segment_holds_def)
  from covers_range_key [OF this] show ?thesis by auto
qed

text \<open>
  Every segment has a record (none is written empty), so every range is a range; then a probe
  answers whether a newer segment holds the key, also when probing is switched off.
\<close>

lemma plan_shadows_iff:
  assumes ok: "engine_ok U X open_seg e segs"
    and idx: "idx < length (wp_steps (walk_plan e spec))"
    and m: "ws_meta (wp_steps (walk_plan e spec) ! idx) = m" "may_match (sm_zone m) spec" "k \<in> rec_key ` set (segs m)"
    and k: "spec_prefix spec k"
  shows "plan_shadows e segs spec idx k \<longleftrightarrow> newer_holds e segs m k"
proof
  let ?W = "wp_steps (walk_plan e spec)"
  have d: "distinct (map sm_id (mf_segments (ei_manifest e)))" using ok by (simp add: engine_ok_def)
  note sorted = plan_steps_sorted [OF d, of spec]
  {
    assume "plan_shadows e segs spec idx k"
    then obtain s where "s \<in> set (take idx ?W)" and k: "k \<in> rec_key ` set (segs (ws_meta s))"
      by (auto simp: plan_shadows_def steps_hold_def)
    then obtain j where j: "j < idx" "?W ! j = s" by (auto simp: in_set_conv_nth)
    with idx have "s \<in> set ?W" by (metis less_trans nth_mem)
    with plan_steps_set have "ws_meta s \<in> set (mf_segments (ei_manifest e))" by blast
    moreover have "sm_id m < sm_id (ws_meta s)"
      using sorted_wrt_nth_less [OF sorted j(1) idx] j(2) m(1) by simp
    ultimately show "newer_holds e segs m k" using k unfolding newer_holds_def by blast
  next
    assume "newer_holds e segs m k"
    then obtain m' where m': "m' \<in> set (mf_segments (ei_manifest e))" "sm_id m < sm_id m'" "k \<in> rec_key ` set (segs m')"
      unfolding newer_holds_def by blast
    have seg: "m \<in> set (mf_segments (ei_manifest e))" using plan_steps_set [OF nth_mem [OF idx]] m(1) by simp
    note kept = kept_newer [OF ok seg m(2,3) m' k]
    have track: "\<not> key_ranges_disjoint (map ws_meta (kept_steps e spec))"
    proof
      assume dis: "key_ranges_disjoint (map ws_meta (kept_steps e spec))"
      have range: "\<forall>x \<in> set (map ws_meta (kept_steps e spec)). fst (key_range x) \<le> snd (key_range x)"
        using kept_range_ok [OF ok] by (auto simp: kept_steps_def steps0_def)
      have in_kept: "m \<in> set (map ws_meta (kept_steps e spec))" "m' \<in> set (map ws_meta (kept_steps e spec))"
        using kept by (metis image_eqI list.set_map mk_step_sel(1))+
      have "fst (key_range x) \<le> k \<and> k \<le> snd (key_range x)"
        if x: "x \<in> set (mf_segments (ei_manifest e))" "k \<in> rec_key ` set (segs x)" for x
      proof -
        from ok x(1) have "segment_holds U X open_seg x (segs x)" by (simp add: engine_ok_def)
        with x(2) show ?thesis using holds_covers covers_range_key by blast
      qed
      with disjoint_no_shared_key [OF dis range in_kept, of k] seg m(3) m' show False by auto
    qed
    then have W: "?W = kept_steps e spec" "wp_track_shadows (walk_plan e spec)"
      by (simp_all add: walk_plan_eq)
    with kept(1) obtain j where j: "j < length ?W" "?W ! j = mk_step spec m'" by (metis in_set_conv_nth)
    have "j < idx"
    proof (rule ccontr)
      assume "\<not> j < idx"
      then consider "j = idx" | "idx < j" by linarith
      then show False
      proof cases
        case 1
        with j m(1) m'(2) show False by simp
      next
        case 2
        from sorted_wrt_nth_less [OF sorted this j(1)] j(2) m(1) m'(2) show False by simp
      qed
    qed
    with j have "mk_step spec m' \<in> set (take idx ?W)" by (auto simp: in_set_conv_nth)
    with W(2) m'(3) show "plan_shadows e segs spec idx k"
      unfolding plan_shadows_def steps_hold_def by (metis mk_step_sel(1))
  }
qed


section \<open>The newest versions among the segments\<close>

lemma latest_segments:
  assumes "sorted_wrt (\<lambda>a b. sm_id b < sm_id a) L" and "\<forall>m \<in> set L. sorted_wrt (<) (map rec_key (segs m))"
  shows "fmlookup (latest (map (\<lambda>m. seg_map (segs m)) L)) k = Some r \<longleftrightarrow>
           (\<exists>m \<in> set L. r \<in> set (segs m) \<and> rec_key r = k \<and>
              (\<forall>m' \<in> set L. sm_id m < sm_id m' \<longrightarrow> k \<notin> rec_key ` set (segs m')))"
  using assms
proof (induction L)
  case (Cons m L)
  have IH: "fmlookup (latest (map (\<lambda>m. seg_map (segs m)) L)) k = Some r \<longleftrightarrow>
      (\<exists>m \<in> set L. r \<in> set (segs m) \<and> rec_key r = k \<and>
         (\<forall>m' \<in> set L. sm_id m < sm_id m' \<longrightarrow> k \<notin> rec_key ` set (segs m')))"
    by (rule Cons.IH) (use Cons.prems in auto)
  have older: "sm_id x < sm_id m" if "x \<in> set L" for x using Cons.prems(1) that by simp
  have s: "sorted_wrt (<) (map rec_key (segs m))" using Cons.prems(2) by simp
  show ?case
  proof (cases "k \<in> rec_key ` set (segs m)")
    case True
    then obtain r' where r': "fmlookup (seg_map (segs m)) k = Some r'"
      using seg_map_None [OF s, of k] by auto
    then have "fmlookup (latest (map (\<lambda>m. seg_map (segs m)) (m # L))) k = Some r'"
      by (simp add: fmlookup_dom_iff)
    moreover have "r \<in> set (segs m) \<and> rec_key r = k \<longleftrightarrow> r' = r"
      using seg_map_lookup [OF s, of k r] r' by auto
    moreover have "\<not> (\<exists>x \<in> set L. r \<in> set (segs x) \<and> rec_key r = k \<and>
        (\<forall>m' \<in> set (m # L). sm_id x < sm_id m' \<longrightarrow> k \<notin> rec_key ` set (segs m')))"
      using older True by (metis list.set_intros(1))
    moreover have "\<forall>m' \<in> set (m # L). sm_id m < sm_id m' \<longrightarrow> k \<notin> rec_key ` set (segs m')"
      using older by (metis less_asym less_irrefl set_ConsD)
    ultimately show ?thesis by (simp del: image_iff) blast
  next
    case False
    then have "fmlookup (seg_map (segs m)) k = None" using seg_map_None [OF s] by simp
    then have "fmlookup (latest (map (\<lambda>m. seg_map (segs m)) (m # L))) k =
        fmlookup (latest (map (\<lambda>m. seg_map (segs m)) L)) k"
      by (simp add: fmlookup_dom_iff)
    moreover have "r \<in> set (segs m) \<and> rec_key r = k \<longleftrightarrow> False" using False by blast
    ultimately show ?thesis using IH False by (metis list.set_intros(2) set_ConsD)
  qed
qed simp

lemma engine_latest_segments:
  assumes "engine_ok U X open_seg e segs"
  shows "fmlookup (latest (map (\<lambda>m. seg_map (segs m)) (newest_first (mf_segments (ei_manifest e))))) k = Some r \<longleftrightarrow>
           (\<exists>m \<in> set (mf_segments (ei_manifest e)). r \<in> set (segs m) \<and> rec_key r = k \<and> \<not> newer_holds e segs m k)"
proof -
  have "distinct (map sm_id (mf_segments (ei_manifest e)))" using assms by (simp add: engine_ok_def)
  from newest_first_sorted [OF this]
  have "fmlookup (latest (map (\<lambda>m. seg_map (segs m)) (newest_first (mf_segments (ei_manifest e))))) k = Some r \<longleftrightarrow>
      (\<exists>m \<in> set (newest_first (mf_segments (ei_manifest e))). r \<in> set (segs m) \<and> rec_key r = k \<and>
         (\<forall>m' \<in> set (newest_first (mf_segments (ei_manifest e))). sm_id m < sm_id m' \<longrightarrow> k \<notin> rec_key ` set (segs m')))"
    by (rule latest_segments) (use assms in \<open>auto simp: engine_ok_def segment_holds_def\<close>)
  then show ?thesis unfolding newer_holds_def set_newest_first by blast
qed

section \<open>The walk over the segments\<close>

definition step_recs ::
  "unicode \<Rightarrow> QuerySpec \<Rightarrow> (int \<Rightarrow> rstr \<Rightarrow> bool) \<Rightarrow> EngineInner \<Rightarrow> (SegmentMeta \<Rightarrow> Record list) \<Rightarrow> rstr fset \<Rightarrow> nat \<Rightarrow> nat list" where
  "step_recs U spec bound e segs seen idx =
     (let s = wp_steps (walk_plan e spec) ! idx; rs = segs (ws_meta s)
      in if ws_visit s
         then filter (\<lambda>i. row_wanted (plan_shadows e segs spec idx) bound seen (rs ! i) \<and> matches U spec (rs ! i)) [0..<length rs]
         else [])"

lemma visit_step_eq:
  assumes ok: "engine_ok U X open_seg e segs" and idx: "idx < length (wp_steps (walk_plan e spec))"
    and emit: "\<And>c f i. read_segment U X open_seg (ws_meta (wp_steps (walk_plan e spec) ! idx)) (need_tokens U spec) = Inr (c, f) \<Longrightarrow>
        i < length (segs (ws_meta (wp_steps (walk_plan e spec) ! idx))) \<Longrightarrow> emit c f idx i = Inr (h i)"
  shows "visit_step U X open_seg spec bound (walk_plan e spec) seen emit idx =
           Inr (map h (step_recs U spec bound e segs seen idx))"
proof (cases "ws_visit (wp_steps (walk_plan e spec) ! idx)")
  case True
  let ?W = "wp_steps (walk_plan e spec)"
  let ?m = "ws_meta (?W ! idx)" and ?rs = "segs (ws_meta (?W ! idx))"
  have mem: "x \<in> set ?W \<Longrightarrow> segment_holds U X open_seg (ws_meta x) (segs (ws_meta x))" for x
    using plan_steps_set [of x e spec] ok by (simp add: engine_ok_def)
  from mem [OF nth_mem [OF idx]] obtain c f where rd: "read_segment U X open_seg ?m (need_tokens U spec) = Inr (c, f)"
    and c: "cols_ok U X f (need_tokens U spec) c ?rs"
    unfolding segment_holds_def by blast
  have U: "unicode_ok U" using ok by (simp add: engine_ok_def)
  have rows: "matching_rows U X f c spec = Inr (filter (\<lambda>i. matches U spec (?rs ! i)) [0..<length ?rs])"
    by (rule matching_rows_eq [OF U c]) (simp add: need_tokens_def)
  have probe: "probe_newer U X open_seg (walk_plan e spec) idx k = Inr (plan_shadows e segs spec idx k)" for k
    using shadowed_eq [of "take idx ?W" U X open_seg segs k] mem
    by (auto simp: probe_newer_def plan_shadows_def dest: in_set_takeD)
  have "step_rows (probe_newer U X open_seg (walk_plan e spec) idx) bound seen c (emit c f idx)
      (filter (\<lambda>i. matches U spec (?rs ! i)) [0..<length ?rs]) =
      Inr (map h (filter (\<lambda>i. row_wanted (plan_shadows e segs spec idx) bound seen (?rs ! i))
        (filter (\<lambda>i. matches U spec (?rs ! i)) [0..<length ?rs])))"
    by (rule step_rows_eq [OF c]) (use emit [OF rd] probe in auto)
  with True rd rows show ?thesis by (simp add: visit_step_def step_recs_def Let_def conj_commute)
qed (simp add: visit_step_def step_recs_def)

lemma walk_all_eq:
  assumes ok: "engine_ok U X open_seg e segs"
    and emit: "\<And>idx c f i. idx < length (wp_steps (walk_plan e spec)) \<Longrightarrow>
        read_segment U X open_seg (ws_meta (wp_steps (walk_plan e spec) ! idx)) (need_tokens U spec) = Inr (c, f) \<Longrightarrow>
        i < length (segs (ws_meta (wp_steps (walk_plan e spec) ! idx))) \<Longrightarrow> emit c f idx i = Inr (h idx i)"
  shows "walk_all U X open_seg spec bound (walk_plan e spec) seen emit =
           Inr (concat (map (\<lambda>idx. map (h idx) (step_recs U spec bound e segs seen idx))
             [0..<length (wp_steps (walk_plan e spec))]))"
proof -
  have "map_result (visit_step U X open_seg spec bound (walk_plan e spec) seen emit) [0..<length (wp_steps (walk_plan e spec))] =
      Inr (map (\<lambda>idx. map (h idx) (step_recs U spec bound e segs seen idx)) [0..<length (wp_steps (walk_plan e spec))])"
    by (rule map_result_Inr, rule visit_step_eq [OF ok]) (use emit in auto)
  then show ?thesis by (simp add: walk_all_def)
qed

end
