(* ===== verification/Engine_Refine.thy ===== *)
theory Engine_Refine
  imports Engine_Scan
begin

text \<open>
  The refinement theorems of the scans: \<open>scan_full\<close>, \<open>count_full\<close> and \<open>scan_topk\<close> against
  \<open>reference_scan\<close> over the newest versions of a state.
\<close>

section \<open>What the walk over the segments collects\<close>

definition step_out ::
  "unicode \<Rightarrow> QuerySpec \<Rightarrow> (int \<Rightarrow> rstr \<Rightarrow> bool) \<Rightarrow> EngineInner \<Rightarrow> (SegmentMeta \<Rightarrow> Record list) \<Rightarrow> rstr fset \<Rightarrow> nat \<Rightarrow> Record list" where
  "step_out U spec bound e segs seen idx =
     map (\<lambda>i. segs (ws_meta (wp_steps (walk_plan e spec) ! idx)) ! i) (step_recs U spec bound e segs seen idx)"

definition seg_out ::
  "unicode \<Rightarrow> QuerySpec \<Rightarrow> (int \<Rightarrow> rstr \<Rightarrow> bool) \<Rightarrow> EngineInner \<Rightarrow> (SegmentMeta \<Rightarrow> Record list) \<Rightarrow> rstr fset \<Rightarrow> Record list" where
  "seg_out U spec bound e segs seen =
     concat (map (step_out U spec bound e segs seen) [0..<length (wp_steps (walk_plan e spec))])"

definition seg_sources :: "EngineInner \<Rightarrow> (SegmentMeta \<Rightarrow> Record list) \<Rightarrow> source list" where
  "seg_sources e segs = map (\<lambda>m. seg_map (segs m)) (newest_first (mf_segments (ei_manifest e)))"

lemma matches_prefix: "matches U spec r \<Longrightarrow> spec_prefix spec (rec_key r)"
  by (auto simp: matches_def matches_fields_def spec_prefix_def split: option.splits)

lemma filter_rows: "map (\<lambda>i. xs ! i) (filter (\<lambda>i. P (xs ! i)) [0..<length xs]) = filter P xs"
  using filter_map [of P "\<lambda>i. xs ! i" "[0..<length xs]"] by (simp add: map_nth comp_def)

lemma keyed_values: "keyed s \<Longrightarrow> r \<in> set (bt_values s) \<longleftrightarrow> fmlookup s (rec_key r) = Some r"
  by (auto simp: bt_values_iff keyed_def)

lemma step_out_eq:
  "step_out U spec bound e segs seen idx =
     (let s = wp_steps (walk_plan e spec) ! idx
      in if ws_visit s
         then filter (\<lambda>r. row_wanted (plan_shadows e segs spec idx) bound seen r \<and> matches U spec r) (segs (ws_meta s))
         else [])"
  using filter_rows [of "segs (ws_meta (wp_steps (walk_plan e spec) ! idx))"
      "\<lambda>r. row_wanted (plan_shadows e segs spec idx) bound seen r \<and> matches U spec r"]
  by (simp add: step_out_def step_recs_def Let_def)

lemma step_out_iff:
  assumes ok: "engine_ok U X open_seg e segs" and idx: "idx < length (wp_steps (walk_plan e spec))"
    and m: "m = ws_meta (wp_steps (walk_plan e spec) ! idx)"
  shows "r \<in> set (step_out U spec bound e segs seen idx) \<longleftrightarrow>
           may_match (sm_zone m) spec \<and> r \<in> set (segs m) \<and> rec_key r |\<notin>| seen \<and> \<not> is_tombstone r \<and>
           bound (rec_timestamp r) (rec_key r) \<and> matches U spec r \<and> \<not> newer_holds e segs m (rec_key r)"
proof -
  have v: "ws_visit (wp_steps (walk_plan e spec) ! idx) = may_match (sm_zone m) spec"
    using plan_steps_set [OF nth_mem [OF idx]] m by simp
  have sh: "plan_shadows e segs spec idx (rec_key r) = newer_holds e segs m (rec_key r)"
    if "may_match (sm_zone m) spec" "r \<in> set (segs m)" "matches U spec r"
    by (rule plan_shadows_iff [OF ok idx m [symmetric] that(1) _ matches_prefix [OF that(3)]]) (use that(2) in simp)
  show ?thesis unfolding step_out_eq Let_def v m [symmetric] row_wanted_def
    using sh by auto
qed

lemma seg_out_set:
  assumes ok: "engine_ok U X open_seg e segs"
  shows "r \<in> set (seg_out U spec bound e segs seen) \<longleftrightarrow>
           fmlookup (latest (seg_sources e segs)) (rec_key r) = Some r \<and> rec_key r |\<notin>| seen \<and>
           \<not> is_tombstone r \<and> bound (rec_timestamp r) (rec_key r) \<and> matches U spec r"
proof -
  let ?W = "wp_steps (walk_plan e spec)"
  note lat = engine_latest_segments [OF ok, folded seg_sources_def, of "rec_key r" r]
  have "r \<in> set (seg_out U spec bound e segs seen) \<longleftrightarrow>
      (\<exists>idx < length ?W. r \<in> set (step_out U spec bound e segs seen idx))"
    by (auto simp: seg_out_def)
  also have "\<dots> \<longleftrightarrow>
      (\<exists>m \<in> set (mf_segments (ei_manifest e)). r \<in> set (segs m) \<and> \<not> newer_holds e segs m (rec_key r)) \<and>
      rec_key r |\<notin>| seen \<and> \<not> is_tombstone r \<and> bound (rec_timestamp r) (rec_key r) \<and> matches U spec r" (is "_ \<longleftrightarrow> ?R")
  proof
    assume "\<exists>idx < length ?W. r \<in> set (step_out U spec bound e segs seen idx)"
    then obtain idx where idx: "idx < length ?W" and r: "r \<in> set (step_out U spec bound e segs seen idx)" by blast
    from plan_steps_set [OF nth_mem [OF idx]] r [unfolded step_out_iff [OF ok idx refl]] show ?R by blast
  next
    assume R: ?R
    then obtain m where m: "m \<in> set (mf_segments (ei_manifest e))" "r \<in> set (segs m)" "\<not> newer_holds e segs m (rec_key r)"
      by blast
    from ok m(1) have "segment_holds U X open_seg m (segs m)" by (simp add: engine_ok_def)
    then have "covers (sm_zone m) r" using m(2) by (rule holds_covers)
    then have mm: "may_match (sm_zone m) spec" by (rule covers_may_match) (use R in \<open>simp add: matches_def\<close>)
    from plan_visits [OF m(1) mm] obtain idx where idx: "idx < length ?W" "?W ! idx = mk_step spec m"
      by (metis in_set_conv_nth)
    have "m = ws_meta (?W ! idx)" by (simp add: idx(2))
    from step_out_iff [OF ok idx(1) this] m mm R idx(1)
    show "\<exists>idx < length ?W. r \<in> set (step_out U spec bound e segs seen idx)" by blast
  qed
  finally show ?thesis using lat by blast
qed

lemma distinct_map_concat:
  assumes "\<And>i. i < n \<Longrightarrow> distinct (map k (g i))"
    and "\<And>i j. i < j \<Longrightarrow> j < n \<Longrightarrow> k ` set (g i) \<inter> k ` set (g j) = {}"
  shows "distinct (map k (concat (map g [0..<n])))"
  using assms
proof (induction n)
  case (Suc n)
  then have "distinct (map k (concat (map g [0..<n])))" by simp
  moreover have "k ` set (concat (map g [0..<n])) \<inter> k ` set (g n) = {}"
    using Suc.prems(2) [of _ n] by (fastforce simp: image_UN)
  ultimately show ?case using Suc.prems(1) [of n] by simp
qed simp

lemma seg_out_distinct:
  assumes ok: "engine_ok U X open_seg e segs"
  shows "distinct (map rec_key (seg_out U spec bound e segs seen))"
  unfolding seg_out_def
proof (rule distinct_map_concat)
  let ?W = "wp_steps (walk_plan e spec)"
  fix i assume i: "i < length ?W"
  have "segment_holds U X open_seg (ws_meta (?W ! i)) (segs (ws_meta (?W ! i)))"
    using ok plan_steps_set [OF nth_mem [OF i]] by (simp add: engine_ok_def)
  then have "distinct (map rec_key (segs (ws_meta (?W ! i))))" by (simp add: segment_holds_def strict_sorted_iff)
  then show "distinct (map rec_key (step_out U spec bound e segs seen i))"
    by (simp add: step_out_eq Let_def distinct_map_filter)
next
  let ?W = "wp_steps (walk_plan e spec)"
  fix i j assume ij: "i < j" and j: "j < length ?W"
  then have i: "i < length ?W" by simp
  have d: "distinct (map sm_id (mf_segments (ei_manifest e)))" using ok by (simp add: engine_ok_def)
  have older: "sm_id (ws_meta (?W ! j)) < sm_id (ws_meta (?W ! i))"
    using sorted_wrt_nth_less [OF plan_steps_sorted [OF d] ij j] .
  have m: "ws_meta (?W ! i) \<in> set (mf_segments (ei_manifest e))" using plan_steps_set [OF nth_mem [OF i]] by simp
  have "rec_key a \<noteq> rec_key b"
    if "a \<in> set (step_out U spec bound e segs seen i)" "b \<in> set (step_out U spec bound e segs seen j)" for a b
  proof
    assume "rec_key a = rec_key b"
    moreover have "a \<in> set (segs (ws_meta (?W ! i)))" using that(1) unfolding step_out_iff [OF ok i refl] by blast
    ultimately have "rec_key b \<in> rec_key ` set (segs (ws_meta (?W ! i)))" by (metis imageI)
    with m older have "newer_holds e segs (ws_meta (?W ! j)) (rec_key b)"
      unfolding newer_holds_def by blast
    with that(2) show False unfolding step_out_iff [OF ok j refl] by blast
  qed
  then show "rec_key ` set (step_out U spec bound e segs seen i) \<inter> rec_key ` set (step_out U spec bound e segs seen j) = {}"
    by blast
qed

section \<open>The full scan and the count\<close>

lemma walk_records:
  assumes ok: "engine_ok U X open_seg e segs"
  shows "walk_all U X open_seg spec bound (walk_plan e spec) seen
             (\<lambda>c f idx r. materialize X f c r (\<not> qs_omit_text spec)) =
           Inr (map (drop_text spec) (seg_out U spec bound e segs seen))"
proof -
  let ?W = "wp_steps (walk_plan e spec)"
  have "walk_all U X open_seg spec bound (walk_plan e spec) seen
      (\<lambda>c f idx r. materialize X f c r (\<not> qs_omit_text spec)) =
      Inr (concat (map (\<lambda>idx. map (\<lambda>i. drop_text spec (segs (ws_meta (?W ! idx)) ! i))
        (step_recs U spec bound e segs seen idx)) [0..<length ?W]))"
  proof (rule walk_all_eq [OF ok])
    fix idx c f i
    assume idx: "idx < length ?W"
      and rd: "read_segment U X open_seg (ws_meta (?W ! idx)) (need_tokens U spec) = Inr (c, f)"
      and i: "i < length (segs (ws_meta (?W ! idx)))"
    have "segment_holds U X open_seg (ws_meta (?W ! idx)) (segs (ws_meta (?W ! idx)))"
      using ok plan_steps_set [OF nth_mem [OF idx]] by (simp add: engine_ok_def)
    with rd have c: "cols_ok U X f (need_tokens U spec) c (segs (ws_meta (?W ! idx)))"
      unfolding segment_holds_def by (metis Pair_inject sum.inject(2))
    from materialize_ok [OF c i] show "materialize X f c i (\<not> qs_omit_text spec) =
        Inr (drop_text spec (segs (ws_meta (?W ! idx)) ! i))"
      by (simp add: drop_text_def)
  qed
  then show ?thesis by (simp add: seg_out_def step_out_def [abs_def] map_concat comp_def)
qed

lemma engine_keyed:
  assumes "engine_ok U X open_seg e segs"
  shows "list_all keyed (map mt_records (mem_tables e))" and "list_all keyed (seg_sources e segs)"
proof -
  show "list_all keyed (map mt_records (mem_tables e))"
    using assms keyed_mt_records by (auto simp: engine_ok_def list_all_iff)
  show "list_all keyed (seg_sources e segs)"
    using assms keyed_seg_map by (auto simp: engine_ok_def segment_holds_def list_all_iff seg_sources_def)
qed

lemma sources_eq: "sources e segs = map mt_records (mem_tables e) @ seg_sources e segs"
  by (simp add: sources_def seg_sources_def)

text \<open>Memtables and segments together: the newest versions that pass, each once.\<close>

lemma collected:
  assumes ok: "engine_ok U X open_seg e segs"
    and seen: "fset seen = fset (fmdom (latest (map mt_records (mem_tables e))))"
    and P: "\<And>r. P r = (\<not> is_tombstone r \<and> matches U spec r \<and> bound (rec_timestamp r) (rec_key r))"
  defines "all \<equiv> fresh P (map mt_records (mem_tables e)) {} @ seg_out U spec bound e segs seen"
  shows "distinct (map rec_key all)"
    and "set all = set (filter P (bt_values (latest (sources e segs))))"
proof -
  let ?M = "latest (map mt_records (mem_tables e))" and ?S = "latest (seg_sources e segs)"
  note k = engine_keyed [OF ok]
  have mem: "r \<in> set (fresh P (map mt_records (mem_tables e)) {}) \<longleftrightarrow> fmlookup ?M (rec_key r) = Some r \<and> P r" for r
    using fresh_set [OF k(1), of r P "{}"] by simp
  have seg: "r \<in> set (seg_out U spec bound e segs seen) \<longleftrightarrow>
      fmlookup ?M (rec_key r) = None \<and> fmlookup ?S (rec_key r) = Some r \<and> P r" for r
    unfolding seg_out_set [OF ok] P using seen by (auto simp: fmlookup_dom_iff)
  have "distinct (map rec_key (fresh P (map mt_records (mem_tables e)) {}))" by (rule fresh_distinct [OF k(1)])
  moreover have "distinct (map rec_key (seg_out U spec bound e segs seen))" by (rule seg_out_distinct [OF ok])
  moreover have "rec_key a \<noteq> rec_key b"
    if "a \<in> set (fresh P (map mt_records (mem_tables e)) {})" "b \<in> set (seg_out U spec bound e segs seen)" for a b
    using that unfolding mem seg by (metis option.distinct(1))
  ultimately show "distinct (map rec_key all)" unfolding all_def by (auto simp: image_iff)
  have ks: "keyed (latest (sources e segs))"
    using k by (intro keyed_latest) (simp add: sources_eq)
  have "r \<in> set (bt_values (latest (sources e segs))) \<longleftrightarrow> fmlookup (?S ++\<^sub>f ?M) (rec_key r) = Some r" for r
    unfolding keyed_values [OF ks] by (simp add: sources_eq latest_append)
  then show "set all = set (filter P (bt_values (latest (sources e segs))))"
    unfolding all_def set_append by (auto simp: mem seg fmlookup_dom_iff)
qed

lemma mem_pass_wanted:
  assumes ok: "engine_ok U X open_seg e segs"
    and P: "\<And>r. P r = (\<not> is_tombstone r \<and> matches U spec r \<and> B r)"
    and keep: "\<And>r cand. keep r cand = (mem_matches U spec r cand \<and> B r)"
  obtains seen where "mem_pass keep (text_query_tokens U spec) (mem_tables e) ({||}, []) =
      (seen, fresh P (map mt_records (mem_tables e)) {})"
    and "fset seen = fset (fmdom (latest (map mt_records (mem_tables e))))"
proof -
  have inv: "\<And>t. t \<in> set (mem_tables e) \<Longrightarrow> mt_inv U t" using ok by (simp add: engine_ok_def)
  have "\<exists>seen'. mem_pass keep (text_query_tokens U spec) (mem_tables e) ({||}, []) =
      (seen', [] @ fresh P (map mt_records (mem_tables e)) (fset {||})) \<and>
      fset seen' = fset {||} \<union> fset (fmdom (latest (map mt_records (mem_tables e))))"
    by (rule mem_pass_eq [OF inv]) (auto simp: P keep mem_matches_eq [OF inv])
  with that show thesis by auto
qed

lemma after_bound_cols: "after_bound_ok spec r = after_ok_cols spec (rec_timestamp r) (rec_key r)"
  by (auto simp: after_bound_ok_def after_ok_cols_def split: option.splits)

lemma scan_full_eq:
  assumes ok: "engine_ok U X open_seg e segs"
  shows "scan_full U X open_seg e spec = Inr (reference_scan U spec (latest (sources e segs)))"
proof -
  have P: "wanted U spec r =
      (\<not> is_tombstone r \<and> matches U spec r \<and> after_ok_cols spec (rec_timestamp r) (rec_key r))" for r
    by (simp add: wanted_def after_bound_cols)
  obtain seen where mem: "mem_pass (mem_keep U spec) (text_query_tokens U spec) (mem_tables e) ({||}, []) =
      (seen, fresh (wanted U spec) (map mt_records (mem_tables e)) {})"
    and seen: "fset seen = fset (fmdom (latest (map mt_records (mem_tables e))))"
    by (rule mem_pass_wanted [OF ok, of "wanted U spec" spec "after_bound_ok spec" "mem_keep U spec"])
       (auto simp: wanted_def mem_keep_def)
  let ?all = "fresh (wanted U spec) (map mt_records (mem_tables e)) {} @ seg_out U spec (after_ok_cols spec) e segs seen"
  have ks: "keyed (latest (sources e segs))"
    using engine_keyed [OF ok] by (intro keyed_latest) (simp add: sources_eq)
  have "sort_truncate spec ?all = sort_truncate spec (filter (wanted U spec) (bt_values (latest (sources e segs))))"
    by (rule sort_truncate_cong [OF collected(1) [OF ok seen P]
          distinct_map_filter [OF distinct_bt_values_keyed [OF ks]] collected(2) [OF ok seen P]])
  then show ?thesis
    unfolding scan_full_def mem prod.case walk_records [OF ok] reference_scan_def
    by (simp add: strip_sort_truncate)
qed


lemma count_full_eq:
  assumes ok: "engine_ok U X open_seg e segs"
  shows "count_full U X open_seg e spec =
           Inr (length (filter (\<lambda>r. \<not> is_tombstone r \<and> matches U spec r) (bt_values (latest (sources e segs)))))"
proof -
  let ?P = "\<lambda>r. \<not> is_tombstone r \<and> matches U spec r"
  obtain seen where mem: "mem_pass (mem_matches U spec) (text_query_tokens U spec) (mem_tables e) ({||}, []) =
      (seen, fresh ?P (map mt_records (mem_tables e)) {})"
    and seen: "fset seen = fset (fmdom (latest (map mt_records (mem_tables e))))"
    by (rule mem_pass_wanted [OF ok, of ?P spec "\<lambda>_. True" "mem_matches U spec"]) auto
  let ?F = "fresh ?P (map mt_records (mem_tables e)) {}" and ?S = "seg_out U spec (\<lambda>ts key. True) e segs seen"
  have walk: "walk_all U X open_seg spec (\<lambda>ts key. True) (walk_plan e spec) seen (\<lambda>c f idx r. Inr ()) =
      Inr (concat (map (\<lambda>idx. map (\<lambda>i. ()) (step_recs U spec (\<lambda>ts key. True) e segs seen idx))
        [0..<length (wp_steps (walk_plan e spec))]))"
    by (rule walk_all_eq [OF ok]) simp
  have len: "length (concat (map (\<lambda>idx. map (\<lambda>i. ()) (step_recs U spec (\<lambda>ts key. True) e segs seen idx))
      [0..<length (wp_steps (walk_plan e spec))])) = length ?S"
    by (simp add: seg_out_def step_out_def length_concat comp_def)
  have ks: "keyed (latest (sources e segs))"
    using engine_keyed [OF ok] by (intro keyed_latest) (simp add: sources_eq)
  have "\<And>r. ?P r = (\<not> is_tombstone r \<and> matches U spec r \<and> True)" by simp
  note coll = collected [OF ok seen this]
  have "distinct (?F @ ?S)" using coll(1) unfolding distinct_map by (rule conjunct1)
  moreover have "distinct (filter ?P (bt_values (latest (sources e segs))))"
    using distinct_bt_values_keyed [OF ks] by (simp add: distinct_map)
  ultimately have "length (?F @ ?S) = length (filter ?P (bt_values (latest (sources e segs))))"
    using coll(2) by (simp only: distinct_card [symmetric])
  then show ?thesis unfolding count_full_def mem prod.case walk by (simp add: len)
qed

section \<open>The bounded heap\<close>

text \<open>Offering one more item to the best \<open>n\<close> of a sorted list keeps the best \<open>n\<close>.\<close>

lemma offer_full:
  assumes "sorted (map f ys)" and "f h \<notin> f ` set ys" and "m < length ys"
  shows "(if f h < f (last (take (Suc m) ys)) then insort_key f h (butlast (take (Suc m) ys)) else take (Suc m) ys) =
           take (Suc m) (insort_key f h ys)"
  using assms
proof (induction m arbitrary: ys)
  case 0
  then show ?case by (cases ys) auto
next
  case (Suc m)
  then obtain y zs where ys: "ys = y # zs" "m < length zs" by (cases ys) auto
  have ne: "take (Suc m) zs \<noteq> []" using ys(2) by auto
  have IH: "(if f h < f (last (take (Suc m) zs)) then insort_key f h (butlast (take (Suc m) zs)) else take (Suc m) zs) =
      take (Suc m) (insort_key f h zs)"
    by (rule Suc.IH) (use Suc.prems ys in auto)
  show ?case
  proof (cases "f h < f y")
    case True
    have "last (take (Suc m) zs) \<in> set zs" using last_in_set [OF ne] by (rule in_set_takeD)
    then have "f y \<le> f (last (take (Suc m) zs))" using Suc.prems(1) ys(1) by simp
    with True ne ys show ?thesis by (simp add: butlast_take less_imp_le)
  next
    case False
    then have "f y < f h" using Suc.prems(2) ys(1) by auto
    with IH ne ys(1) False show ?thesis by (auto simp: not_le)
  qed
qed

lemma offer_take:
  assumes "sorted (map hi_rank ys)" and "hi_rank h \<notin> hi_rank ` set ys" and "0 < n"
  shows "offer n h (take n ys) = take n (insort_key hi_rank h ys)"
proof (cases "length ys < n")
  case False
  with assms(3) obtain m where "n = Suc m" "m < length ys" by (cases n) auto
  with offer_full [OF assms(1,2), of m] show ?thesis by (simp add: offer_def)
qed (simp add: offer_def)

lemma fold_offer_sort:
  assumes "distinct (map hi_rank (ys @ items))" and "0 < n"
  shows "fold (offer n) items (take n (sort_key hi_rank ys)) = take n (sort_key hi_rank (rev items @ ys))"
  using assms(1)
proof (induction items arbitrary: ys)
  case (Cons h items)
  have "offer n h (take n (sort_key hi_rank ys)) = take n (sort_key hi_rank (h # ys))"
    using Cons.prems by (simp add: offer_take [OF _ _ assms(2)])
  moreover have "distinct (map hi_rank ((h # ys) @ items))" using Cons.prems by auto
  ultimately show ?case using Cons.IH [of "h # ys"] by simp
qed simp

lemma fold_offer_ignored:
  assumes "n \<le> length heap" and "\<forall>h \<in> set items. \<not> hi_rank h < hi_rank (last heap)"
  shows "fold (offer n) items heap = heap"
  using assms(2) by (induction items) (use assms(1) in \<open>simp_all add: offer_def\<close>)

lemma set_offer: "set (offer n h heap) \<subseteq> insert h (set heap)"
  by (auto simp: offer_def set_insort_key dest: in_set_butlastD)

lemma set_fold_offer: "set (fold (offer n) items heap) \<subseteq> set items \<union> set heap"
proof (induction items arbitrary: heap)
  case (Cons h items)
  from Cons [of "offer n h heap"] set_offer [of n h heap] show ?case by auto
qed simp

section \<open>Early termination\<close>

lemma suffix_max_ts_bound:
  assumes "i \<le> j" and "j < length ss" and "ws_visit (ss ! j)"
  shows "zm_max_ts (sm_zone (ws_meta (ss ! j))) \<le> suffix_max_ts ss ! i"
  using assms
proof (induction ss arbitrary: i j)
  case (Cons s ss)
  have hd: "x \<le> (case suffix_max_ts ss of [] \<Rightarrow> i64_MIN | a # _ \<Rightarrow> a)"
    if "ss \<noteq> []" "x \<le> suffix_max_ts ss ! 0" for x
  proof -
    have "suffix_max_ts ss \<noteq> []" using that(1) by (cases ss) (simp_all add: Let_def)
    with that(2) show ?thesis by (cases "suffix_max_ts ss") simp_all
  qed
  show ?case
  proof (cases i)
    case 0
    show ?thesis
    proof (cases j)
      case 0
      with \<open>i = 0\<close> Cons.prems(3) show ?thesis by (simp add: Let_def)
    next
      case (Suc j')
      with Cons.prems Cons.IH [of 0 j'] have "zm_max_ts (sm_zone (ws_meta (ss ! j'))) \<le> suffix_max_ts ss ! 0" "ss \<noteq> []"
        by auto
      from hd [OF this(2,1)] \<open>i = 0\<close> Suc show ?thesis by (auto simp: Let_def)
    qed
  next
    case (Suc i')
    with Cons.prems Cons.IH [of i' "j - 1"] show ?thesis by (cases j) (auto simp: Let_def)
  qed
qed simp

text \<open>Every item of the heap ranks by its own timestamp under the descending order.\<close>

definition desc_item :: "HeapItem \<Rightarrow> bool" where
  "desc_item h \<longleftrightarrow> pr_class (hi_prim h) = 0 \<and> pr_ord (hi_prim h) = - hi_timestamp h"

lemma desc_item_made [simp]: "desc_item (mem_item TimestampDesc r)" "desc_item (seg_item TimestampDesc c idx i)"
  by (simp_all add: desc_item_def mem_item_def seg_item_def make_prim_def hi_timestamp_def)

lemma desc_rank: "desc_item a \<Longrightarrow> desc_item b \<Longrightarrow> hi_timestamp b < hi_timestamp a \<Longrightarrow> \<not> hi_rank b < hi_rank a"
  by (simp add: desc_item_def hi_rank_def prim_key_def less_prod_def)

lemma topk_walk_eq:
  assumes visit: "\<And>idx. idx < n \<Longrightarrow> visit_step U X open_seg spec (after_ok_cols spec) plan seen
        (\<lambda>c f idx r. Inr (seg_item order c idx r)) idx = Inr (items idx)"
    and ts: "\<And>i idx h. order = TimestampDesc \<Longrightarrow> i \<le> idx \<Longrightarrow> idx < n \<Longrightarrow> h \<in> set (items idx) \<Longrightarrow>
        desc_item h \<and> hi_timestamp h \<le> suffix_max_ts (wp_steps plan) ! i"
    and heap: "order = TimestampDesc \<Longrightarrow> \<forall>h \<in> set heap. desc_item h"
    and pos: "0 < qs_limit spec"
  shows "topk_walk U X open_seg spec order plan seen [i..<n] heap =
           Inr (fold (offer (qs_limit spec)) (concat (map items [i..<n])) heap)"
  using heap
proof (induction "n - i" arbitrary: i heap)
  case (Suc d)
  then have i: "i < n" and up: "[i..<n] = i # [Suc i..<n]" by (simp_all add: upt_conv_Cons)
  show ?case
  proof (cases "order = TimestampDesc \<and> qs_limit spec \<le> length heap \<and>
      suffix_max_ts (wp_steps plan) ! i < hi_timestamp (last heap)")
    case True
    then have "heap \<noteq> []" using pos by auto
    then have last: "desc_item (last heap)" using Suc.prems True by simp
    have "fold (offer (qs_limit spec)) (concat (map items [i..<n])) heap = heap"
    proof (rule fold_offer_ignored, use True in blast, rule ballI)
      fix h assume "h \<in> set (concat (map items [i..<n]))"
      then obtain idx where "i \<le> idx" "idx < n" "h \<in> set (items idx)" by auto
      with ts [of i idx h] True have "desc_item h" "hi_timestamp h < hi_timestamp (last heap)" by auto
      with desc_rank [OF last] show "\<not> hi_rank h < hi_rank (last heap)" by blast
    qed
    with True up show ?thesis by simp
  next
    case False
    let ?heap = "fold (offer (qs_limit spec)) (items i) heap"
    have "\<forall>h \<in> set ?heap. desc_item h" if "order = TimestampDesc"
      using set_fold_offer [of "qs_limit spec" "items i" heap] ts [OF that le_refl i] Suc.prems [OF that] by blast
    with Suc.hyps(1) [of "Suc i" ?heap] Suc.hyps(2)
    have "topk_walk U X open_seg spec order plan seen [Suc i..<n] ?heap =
        Inr (fold (offer (qs_limit spec)) (concat (map items [Suc i..<n])) ?heap)" by simp
    with visit [OF i] show ?thesis unfolding up topk_walk.simps if_not_P [OF False] by simp
  qed
qed simp

section \<open>The top-k scan\<close>

definition seg_cols ::
  "unicode \<Rightarrow> ('x) codec_ext_scheme \<Rightarrow> opener \<Rightarrow> EngineInner \<Rightarrow> QuerySpec \<Rightarrow> nat \<Rightarrow> SegmentColumns" where
  "seg_cols U X open_seg e spec idx =
     fst (projr (read_segment U X open_seg (ws_meta (wp_steps (walk_plan e spec) ! idx)) (need_tokens U spec)))"

definition step_pairs ::
  "unicode \<Rightarrow> ('x) codec_ext_scheme \<Rightarrow> opener \<Rightarrow> EngineInner \<Rightarrow> QuerySpec \<Rightarrow> OrderBy \<Rightarrow> (SegmentMeta \<Rightarrow> Record list) \<Rightarrow>
   rstr fset \<Rightarrow> nat \<Rightarrow> (Record \<times> HeapItem) list" where
  "step_pairs U X open_seg e spec order segs seen idx =
     map (\<lambda>i. (segs (ws_meta (wp_steps (walk_plan e spec) ! idx)) ! i,
               seg_item order (seg_cols U X open_seg e spec idx) idx i))
       (step_recs U spec (after_ok_cols spec) e segs seen idx)"

text \<open>What a pair of a record and its heap item satisfies.\<close>

definition pair_ok ::
  "('x) codec_ext_scheme \<Rightarrow> opener \<Rightarrow> QuerySpec \<Rightarrow> WalkPlan \<Rightarrow> OrderBy \<Rightarrow> Record \<times> HeapItem \<Rightarrow> bool" where
  "pair_ok X open_seg spec plan order p \<longleftrightarrow>
     (case p of (r, h) \<Rightarrow>
        hi_rank h = record_rank (Some order) r \<and> hi_timestamp h = rec_timestamp r \<and>
        (\<exists>r'. drain_item X open_seg spec plan h = Inr r' \<and> drop_text spec r' = drop_text spec r))"

lemma step_segment:
  assumes ok: "engine_ok U X open_seg e segs" and idx: "idx < length (wp_steps (walk_plan e spec))"
    and m: "m = ws_meta (wp_steps (walk_plan e spec) ! idx)"
  obtains f where "read_segment U X open_seg m (need_tokens U spec) = Inr (seg_cols U X open_seg e spec idx, f)"
    and "cols_ok U X f (need_tokens U spec) (seg_cols U X open_seg e spec idx) (segs m)"
    and "open_payload_file open_seg m (seg_cols U X open_seg e spec idx) = Inr f"
proof -
  have "segment_holds U X open_seg m (segs m)"
    using ok plan_steps_set [OF nth_mem [OF idx]] m by (simp add: engine_ok_def)
  then obtain c f where "read_segment U X open_seg m (need_tokens U spec) = Inr (c, f)"
    "cols_ok U X f (need_tokens U spec) c (segs m)" "open_payload_file open_seg m c = Inr f"
    unfolding segment_holds_def by blast
  with that [of f] m show thesis by (simp add: seg_cols_def)
qed

lemma pair_ok_mem: "pair_ok X open_seg spec plan order (r, mem_item order r)"
  by (simp add: pair_ok_def mem_item_def hi_rank_def record_rank_def record_prim_def hi_timestamp_def drain_item_def)

lemma pair_ok_seg:
  assumes ok: "engine_ok U X open_seg e segs" and idx: "idx < length (wp_steps (walk_plan e spec))"
    and i: "i < length (segs (ws_meta (wp_steps (walk_plan e spec) ! idx)))"
  shows "pair_ok X open_seg spec (walk_plan e spec) order
           (segs (ws_meta (wp_steps (walk_plan e spec) ! idx)) ! i,
            seg_item order (seg_cols U X open_seg e spec idx) idx i)"
proof -
  let ?m = "ws_meta (wp_steps (walk_plan e spec) ! idx)" and ?c = "seg_cols U X open_seg e spec idx"
  obtain f where c: "cols_ok U X f (need_tokens U spec) ?c (segs ?m)" and f: "open_payload_file open_seg ?m ?c = Inr f"
    by (rule step_segment [OF ok idx refl])
  have at: "key_at ?c i = rec_key (segs ?m ! i)" "timestamp_at ?c i = rec_timestamp (segs ?m ! i)"
    using c i by (simp_all add: cols_ok_def timestamp_at_def)
  have num: "numeric_at ?c n i = fmlookup (rec_numerics (segs ?m ! i)) n" for n
    using c numerics_ok_None [OF _ _ i, of "sc_numerics ?c" n] numerics_ok_Some [OF _ _ i, of "sc_numerics ?c" n]
    by (auto simp: numeric_at_def cols_ok_def split: option.splits)
  have "drain_item X open_seg spec (walk_plan e spec) (seg_item order ?c idx i) = Inr (drop_text spec (segs ?m ! i))"
    using materialize_ok [OF c i, of "\<not> qs_omit_text spec"] f
    by (simp add: drain_item_def seg_item_def drop_text_def)
  with at num show ?thesis
    by (simp add: pair_ok_def seg_item_def hi_rank_def record_rank_def record_prim_def hi_timestamp_def
        cong: option.case_cong)
qed

lemma step_recs_lt:
  "i \<in> set (step_recs U spec bound e segs seen idx) \<Longrightarrow> i < length (segs (ws_meta (wp_steps (walk_plan e spec) ! idx)))"
  by (simp add: step_recs_def Let_def split: if_splits)

lemma step_pairs_ok:
  assumes "engine_ok U X open_seg e segs" and "idx < length (wp_steps (walk_plan e spec))"
    and "p \<in> set (step_pairs U X open_seg e spec order segs seen idx)"
  shows "pair_ok X open_seg spec (walk_plan e spec) order p"
  using assms(3) pair_ok_seg [OF assms(1,2)] by (auto simp: step_pairs_def dest: step_recs_lt)

lemma step_pairs_desc:
  assumes ok: "engine_ok U X open_seg e segs" and i: "i \<le> idx" and idx: "idx < length (wp_steps (walk_plan e spec))"
    and h: "h \<in> snd ` set (step_pairs U X open_seg e spec TimestampDesc segs seen idx)"
  shows "desc_item h \<and> hi_timestamp h \<le> suffix_max_ts (wp_steps (walk_plan e spec)) ! i"
proof -
  let ?W = "wp_steps (walk_plan e spec)"
  let ?m = "ws_meta (?W ! idx)"
  from h obtain r where p: "(r, h) \<in> set (step_pairs U X open_seg e spec TimestampDesc segs seen idx)" by auto
  have r: "r \<in> set (segs ?m)" and v: "ws_visit (?W ! idx)" and d: "desc_item h"
    using p by (auto simp: step_pairs_def step_recs_def Let_def split: if_splits)
  have "hi_timestamp h = rec_timestamp r" using step_pairs_ok [OF ok idx p] by (simp add: pair_ok_def)
  moreover have "segment_holds U X open_seg ?m (segs ?m)"
    using ok plan_steps_set [OF nth_mem [OF idx]] by (simp add: engine_ok_def)
  from holds_covers [OF this r] have "rec_timestamp r \<le> zm_max_ts (sm_zone ?m)" by (simp add: covers_def)
  ultimately show ?thesis using d suffix_max_ts_bound [OF i idx v] by simp
qed

lemma step_pairs_fst: "map fst (step_pairs U X open_seg e spec order segs seen idx) = step_out U spec (after_ok_cols spec) e segs seen idx"
  by (simp add: step_pairs_def step_out_def comp_def)

lemma visit_items:
  assumes ok: "engine_ok U X open_seg e segs" and idx: "idx < length (wp_steps (walk_plan e spec))"
  shows "visit_step U X open_seg spec (after_ok_cols spec) (walk_plan e spec) seen
           (\<lambda>c f idx r. Inr (seg_item order c idx r)) idx =
           Inr (map snd (step_pairs U X open_seg e spec order segs seen idx))"
proof -
  have "visit_step U X open_seg spec (after_ok_cols spec) (walk_plan e spec) seen
      (\<lambda>c f idx r. Inr (seg_item order c idx r)) idx =
      Inr (map (\<lambda>i. seg_item order (seg_cols U X open_seg e spec idx) idx i)
        (step_recs U spec (after_ok_cols spec) e segs seen idx))"
    by (rule visit_step_eq [OF ok idx]) (simp add: seg_cols_def)
  then show ?thesis by (simp add: step_pairs_def comp_def)
qed

lemma sort_key_cong_set: "(\<And>x. x \<in> set xs \<Longrightarrow> f x = g x) \<Longrightarrow> sort_key f xs = sort_key g xs"
proof (induction xs)
  case (Cons x xs)
  have "insort_key f x ys = insort_key g x ys" if "\<And>y. y \<in> set ys \<Longrightarrow> f y = g y" for ys
    using that Cons.prems [of x] by (induction ys) auto
  from this [of "sort_key g xs"] Cons show ?case by simp
qed simp

text \<open>The best \<open>n\<close> items drain to the best \<open>n\<close> records, up to the text the query leaves out.\<close>

lemma drain_sorted:
  assumes "\<forall>p \<in> set L. pair_ok X open_seg spec plan order p"
  shows "\<exists>out. map_result (drain_item X open_seg spec plan) (take n (sort_key hi_rank (map snd L))) = Inr out \<and>
           map (drop_text spec) out = map (drop_text spec) (take n (sort_key (record_rank (Some order)) (map fst L)))"
proof -
  let ?S = "sort_key (\<lambda>p. record_rank (Some order) (fst p)) L"
  have eq: "sort_key (\<lambda>p. hi_rank (snd p)) L = ?S"
    by (rule sort_key_cong_set) (use assms in \<open>auto simp: pair_ok_def\<close>)
  have "\<exists>out. map_result (drain_item X open_seg spec plan) (map snd M) = Inr out \<and>
      map (drop_text spec) out = map (drop_text spec) (map fst M)"
    if "\<forall>p \<in> set M. pair_ok X open_seg spec plan order p" for M
    using that
  proof (induction M)
    case (Cons p M)
    then obtain out where "map_result (drain_item X open_seg spec plan) (map snd M) = Inr out"
      "map (drop_text spec) out = map (drop_text spec) (map fst M)" by auto
    with Cons.prems show ?case by (auto simp: pair_ok_def)
  qed simp
  moreover have "\<forall>p \<in> set (take n ?S). pair_ok X open_seg spec plan order p"
    using assms by (auto dest: in_set_takeD)
  ultimately show ?thesis unfolding sort_key_map_comp eq take_map .
qed

lemma distinct_ranks: "distinct (map rec_key rs) \<Longrightarrow> distinct (map (record_rank ordr) rs)"
  by (auto simp: distinct_map inj_on_def record_rank_def prim_key_def)

text \<open>The page the heap gives is the sorted, truncated list of the records offered to it.\<close>

lemma heap_page:
  assumes order: "qs_order_by spec = Some order" and pos: "0 < qs_limit spec"
    and pairs: "\<forall>p \<in> set L. pair_ok X open_seg spec plan order p"
    and dk: "distinct (map rec_key (map fst L))"
    and B: "set (map fst L) = set B" "distinct (map rec_key B)"
  shows "\<exists>out. map_result (drain_item X open_seg spec plan) (fold (offer (qs_limit spec)) (map snd L) []) = Inr out \<and>
           strip_text_if_omitted spec out = strip_text_if_omitted spec (sort_truncate spec B)"
proof -
  have "map hi_rank (map snd L) = map (record_rank (Some order)) (map fst L)"
    unfolding map_map comp_def by (rule map_cong [OF refl]) (use pairs in \<open>simp add: pair_ok_def split_beta\<close>)
  then have "distinct (map hi_rank ([] @ map snd L))" unfolding append_Nil using distinct_ranks [OF dk] by metis
  from fold_offer_sort [OF this pos]
  have heap: "fold (offer (qs_limit spec)) (map snd L) [] = take (qs_limit spec) (sort_key hi_rank (map snd (rev L)))"
    by (simp add: rev_map)
  have "\<forall>p \<in> set (rev L). pair_ok X open_seg spec plan order p" using pairs by simp
  from drain_sorted [OF this, of "qs_limit spec"] obtain out where
    drain: "map_result (drain_item X open_seg spec plan) (fold (offer (qs_limit spec)) (map snd L) []) = Inr out"
    and out: "map (drop_text spec) out =
        map (drop_text spec) (take (qs_limit spec) (sort_key (record_rank (Some order)) (map fst (rev L))))"
    unfolding heap by blast
  have "sort_key (record_rank (Some order)) (map fst (rev L)) = sort_key (record_rank (Some order)) B"
    by (rule sort_rank_cong [OF _ B(2)]) (use dk B(1) in \<open>simp_all add: rev_map [symmetric]\<close>)
  with out order pos drain show ?thesis by (auto simp: strip_text_map sort_truncate_def)
qed

lemma scan_topk_eq:
  assumes ok: "engine_ok U X open_seg e segs" and order: "qs_order_by spec = Some order" and pos: "0 < qs_limit spec"
  shows "scan_topk U X open_seg e spec order = Inr (reference_scan U spec (latest (sources e segs)))"
proof -
  let ?W = "wp_steps (walk_plan e spec)" and ?M = "map mt_records (mem_tables e)"
  have P: "wanted U spec r =
      (\<not> is_tombstone r \<and> matches U spec r \<and> after_ok_cols spec (rec_timestamp r) (rec_key r))" for r
    by (simp add: wanted_def after_bound_cols)
  obtain seen where mem: "mem_pass (mem_keep U spec) (text_query_tokens U spec) (mem_tables e) ({||}, []) =
      (seen, fresh (wanted U spec) ?M {})"
    and seen: "fset seen = fset (fmdom (latest ?M))"
    by (rule mem_pass_wanted [OF ok, of "wanted U spec" spec "after_bound_ok spec" "mem_keep U spec"])
       (auto simp: wanted_def mem_keep_def)
  let ?mem = "map (\<lambda>r. (r, mem_item order r)) (fresh (wanted U spec) ?M {})"
  let ?step = "step_pairs U X open_seg e spec order segs seen"
  let ?L = "?mem @ concat (map ?step [0..<length ?W])"
  let ?B = "filter (wanted U spec) (bt_values (latest (sources e segs)))"
  have fst: "map fst ?L = fresh (wanted U spec) ?M {} @ seg_out U spec (after_ok_cols spec) e segs seen"
    by (simp add: map_concat comp_def step_pairs_fst seg_out_def)
  have pairs: "\<forall>p \<in> set ?L. pair_ok X open_seg spec (walk_plan e spec) order p"
  proof
    fix p assume "p \<in> set ?L"
    then consider r where "p = (r, mem_item order r)" | idx where "idx < length ?W" "p \<in> set (?step idx)" by auto
    then show "pair_ok X open_seg spec (walk_plan e spec) order p"
      by cases (simp only: pair_ok_mem, rule step_pairs_ok [OF ok])
  qed
  have heap: "\<forall>h \<in> set (fold (offer (qs_limit spec)) (map snd ?mem) []). desc_item h" if "order = TimestampDesc"
    using set_fold_offer [of "qs_limit spec" "map snd ?mem" "[]"] that by auto
  have "topk_walk U X open_seg spec order (walk_plan e spec) seen [0..<length ?W] (fold (offer (qs_limit spec)) (map snd ?mem) []) =
      Inr (fold (offer (qs_limit spec)) (concat (map (\<lambda>i. map snd (?step i)) [0..<length ?W]))
        (fold (offer (qs_limit spec)) (map snd ?mem) []))"
    by (rule topk_walk_eq [OF visit_items [OF ok] _ heap pos]) (use step_pairs_desc [OF ok] in auto)
  then have items: "topk_walk U X open_seg spec order (walk_plan e spec) seen [0..<length ?W]
      (fold (offer (qs_limit spec)) (map (mem_item order) (fresh (wanted U spec) ?M {})) []) =
      Inr (fold (offer (qs_limit spec)) (map snd ?L) [])"
    by (simp add: map_concat comp_def)
  have "keyed (latest (sources e segs))"
    using engine_keyed [OF ok] by (intro keyed_latest) (simp add: sources_eq)
  then have "distinct (map rec_key ?B)" by (intro distinct_map_filter distinct_bt_values_keyed)
  from heap_page [OF order pos pairs _ _ this] collected [OF ok seen P, folded fst] obtain out where
    "map_result (drain_item X open_seg spec (walk_plan e spec)) (fold (offer (qs_limit spec)) (map snd ?L) []) = Inr out"
    "strip_text_if_omitted spec out = strip_text_if_omitted spec (sort_truncate spec ?B)"
    by blast
  then show ?thesis unfolding scan_topk_def mem prod.case Let_def items reference_scan_def by simp
qed

end
