(* ===== verification/Engine_Fold.thy ===== *)
theory Engine_Fold
  imports Engine_Refine
begin

text \<open>
  Reads over increments. The abstract state of an engine is one map, \<open>visible\<close>: for every key the
  fold of its versions newest first, with the bookkeeping label removed. Point lookup is a lookup
  in that map, every scan is the reference scan over it and a count is the number of its matches,
  whichever of the four read paths runs.
\<close>

section \<open>The fold of the versions of a key\<close>

definition versions :: "source list \<Rightarrow> rstr \<Rightarrow> Record list" where
  "versions ss k = List.map_filter (\<lambda>s. fmlookup s k) ss"

fun fold_run :: "Record option \<Rightarrow> Record list \<Rightarrow> Record option + Record" where
  "fold_run p [] = Inl p"
| "fold_run p (v # vs) = (case feed_version p v of Inr r \<Rightarrow> Inr r | Inl q \<Rightarrow> fold_run (Some q) vs)"

fun run_result :: "Record option + Record \<Rightarrow> Record option" where
  "run_result (Inl p) = p"
| "run_result (Inr r) = Some r"

definition folded :: "Record list \<Rightarrow> Record option" where
  "folded vs = run_result (fold_run None vs)"

definition visible :: "source list \<Rightarrow> source" where
  "visible ss = fmmap_keys (\<lambda>k _. finish_fold (the (folded (versions ss k)))) (latest ss)"

lemma versions_simps [simp]:
  "versions [] k = []" "versions (s # ss) k = (case fmlookup s k of None \<Rightarrow> versions ss k | Some r \<Rightarrow> r # versions ss k)"
  by (simp_all add: versions_def List.map_filter_def split: option.splits)

lemma versions_append: "versions (a @ b) k = versions a k @ versions b k"
  by (induction a) (simp_all split: option.splits)

lemma versions_latest: "fmlookup (latest ss) k = (case versions ss k of [] \<Rightarrow> None | v # _ \<Rightarrow> Some v)"
  by (induction ss) (auto simp: fmlookup_dom_iff split: option.splits)

lemma versions_keyed: "list_all keyed ss \<Longrightarrow> v \<in> set (versions ss k) \<Longrightarrow> rec_key v = k"
  by (induction ss) (auto simp: keyed_def split: option.splits)

lemma fold_run_append:
  "fold_run p (a @ b) = (case fold_run p a of Inr r \<Rightarrow> Inr r | Inl q \<Rightarrow> fold_run q b)"
  by (induction a arbitrary: p) (auto split: sum.splits)

lemma folded_None: "folded vs = None \<longleftrightarrow> vs = []"
proof -
  have "run_result (fold_run (Some p) us) \<noteq> None" for p us
    by (induction us arbitrary: p) (auto split: sum.splits)
  then show ?thesis by (cases vs) (auto simp: folded_def split: sum.splits)
qed

lemma feed_version_key:
  assumes "rec_key v = k" and "\<forall>q. p = Some q \<longrightarrow> rec_key q = k"
  shows "case feed_version p v of Inr r \<Rightarrow> rec_key r = k | Inl q \<Rightarrow> rec_key q = k"
  using assms by (cases p) (auto simp: feed_version_def Let_def merge_delta_def)

lemma fold_run_key:
  assumes "\<forall>v \<in> set vs. rec_key v = k" and "\<forall>q. p = Some q \<longrightarrow> rec_key q = k"
    and "run_result (fold_run p vs) = Some r"
  shows "rec_key r = k"
  using assms
proof (induction vs arbitrary: p)
  case (Cons v vs)
  have "case feed_version p v of Inr r \<Rightarrow> rec_key r = k | Inl q \<Rightarrow> rec_key q = k"
    by (rule feed_version_key) (use Cons.prems in simp_all)
  with Cons.IH [of "Some q" for q] Cons.prems show ?case by (auto split: sum.splits)
qed simp

lemma finish_fold_sel [simp]:
  "rec_key (finish_fold r) = rec_key r" "is_tombstone (finish_fold r) = is_tombstone r"
  by (simp_all add: finish_fold_def is_tombstone_def)

lemma visible_lookup: "fmlookup (visible ss) k = map_option finish_fold (folded (versions ss k))"
  using folded_None [of "versions ss k"]
  by (auto simp: visible_def versions_latest split: list.splits option.splits)

lemma keyed_visible:
  assumes "list_all keyed ss"
  shows "keyed (visible ss)"
  unfolding keyed_def visible_lookup folded_def
  using fold_run_key [of "versions ss k" k None for k] versions_keyed [OF assms] by auto

section \<open>Point lookup\<close>

lemma get_mem_eq: "get_mem k ts p = fold_run p (versions (map mt_records ts) k)"
  by (induction ts arbitrary: p) (auto simp: mt_get_def split: option.splits sum.splits)

lemma seg_version:
  assumes h: "segment_holds U X open_seg m rs" and rd: "read_segment U X open_seg m need = Inr (c, f)"
  shows "find_key c k = None \<and> fmlookup (seg_map rs) k = None \<or>
         (\<exists>i r. find_key c k = Some i \<and> fmlookup (seg_map rs) k = Some r \<and>
            materialize X f c i w = Inr (if w then r else r\<lparr> rec_text := None \<rparr>))"
proof -
  have s: "sorted_wrt (<) (map rec_key rs)" using h by (simp add: segment_holds_def)
  have c: "cols_ok U X f need c rs" using h rd unfolding segment_holds_def by (metis Pair_inject sum.inject(2))
  show ?thesis
  proof (cases "find_key c k")
    case None
    have "k \<notin> rec_key ` set rs"
    proof
      assume "k \<in> rec_key ` set rs"
      then obtain i where "i < length rs" "rec_key (rs ! i) = k" by (auto simp: in_set_conv_nth)
      with find_key_ok [OF c s, of k i] None show False by simp
    qed
    with None seg_map_None [OF s] show ?thesis by simp
  next
    case (Some i)
    with find_key_ok [OF c s, of k i] have i: "i < length rs" "rec_key (rs ! i) = k" by simp_all
    then have "fmlookup (seg_map rs) k = Some (rs ! i)" using seg_map_lookup [OF s, of k "rs ! i"] by simp
    with Some materialize_ok [OF c i(1)] show ?thesis by simp
  qed
qed

lemma get_segs_eq:
  assumes "\<And>m. m \<in> set L \<Longrightarrow> segment_holds U X open_seg m (segs m)"
  shows "get_segs U X open_seg k L p =
           Inr (Option.bind (run_result (fold_run p (versions (map (\<lambda>m. seg_map (segs m)) L) k))) surface)"
  using assms
proof (induction L arbitrary: p)
  case (Cons m L)
  have h: "segment_holds U X open_seg m (segs m)" by (simp add: Cons.prems)
  then obtain c f where rd: "read_segment U X open_seg m False = Inr (c, f)" unfolding segment_holds_def by blast
  have IH: "get_segs U X open_seg k L q =
      Inr (Option.bind (run_result (fold_run q (versions (map (\<lambda>m. seg_map (segs m)) L) k))) surface)" for q
    by (rule Cons.IH) (simp add: Cons.prems)
  from seg_version [OF h rd, of k True] show ?case
    by (auto simp: rd IH split: sum.splits)
qed simp

lemma pruned_newest: "pruned_segments e spec = filter (\<lambda>m. may_match (sm_zone m) spec) (newest_first (mf_segments (ei_manifest e)))"
  by (simp add: pruned_segments_def newest_first_def filter_sort)

lemma versions_pruned:
  assumes "\<And>m. m \<in> set L \<Longrightarrow> \<not> P m \<Longrightarrow> fmlookup (g m) k = None"
  shows "versions (map g (filter P L)) k = versions (map g L) k"
  using assms by (induction L) (simp_all split: option.splits)

lemma prefix_only_match:
  assumes ok: "engine_ok U X open_seg e segs" and m: "m \<in> set (mf_segments (ei_manifest e))"
    and k: "k \<in> rec_key ` set (segs m)" and p: "case p of None \<Rightarrow> True | Some p \<Rightarrow> prefix p k"
  shows "may_match (sm_zone m) (QuerySpec_default\<lparr> qs_key_prefix := p \<rparr>)"
proof -
  from ok m have "segment_holds U X open_seg m (segs m)" by (simp add: engine_ok_def)
  with k obtain r where "covers (sm_zone m) r" "rec_key r = k" using holds_covers by blast
  with p show ?thesis
    by (intro covers_may_match [of _ r])
       (auto simp: matches_fields_def QuerySpec_default_def time_ok_def split: option.splits)
qed

lemma pruned_versions:
  assumes ok: "engine_ok U X open_seg e segs" and p: "case p of None \<Rightarrow> True | Some p \<Rightarrow> prefix p k"
  shows "versions (map (\<lambda>m. seg_map (segs m)) (pruned_segments e (QuerySpec_default\<lparr> qs_key_prefix := p \<rparr>))) k =
           versions (seg_sources e segs) k"
  unfolding pruned_newest seg_sources_def
proof (rule versions_pruned)
  fix m assume m: "m \<in> set (newest_first (mf_segments (ei_manifest e)))"
    and no: "\<not> may_match (sm_zone m) (QuerySpec_default\<lparr> qs_key_prefix := p \<rparr>)"
  then have "k \<notin> rec_key ` set (segs m)" using prefix_only_match [OF ok _ _ p, of m] by auto
  moreover have "sorted_wrt (<) (map rec_key (segs m))" using ok m by (simp add: engine_ok_def segment_holds_def)
  ultimately show "fmlookup (seg_map (segs m)) k = None" using seg_map_None by blast
qed

lemma pruned_holds:
  "engine_ok U X open_seg e segs \<Longrightarrow> m \<in> set (pruned_segments e spec) \<Longrightarrow> segment_holds U X open_seg m (segs m)"
  by (simp add: engine_ok_def pruned_newest)

lemma get_once_eq:
  assumes ok: "engine_ok U X open_seg e segs"
  shows "get_once U X open_seg e k =
           Inr (case fmlookup (visible (sources e segs)) k of
                  None \<Rightarrow> None | Some r \<Rightarrow> if is_tombstone r then None else Some r)"
proof -
  let ?spec = "QuerySpec_default\<lparr> qs_key_prefix := Some k \<rparr>"
  let ?mem = "versions (map mt_records (mem_tables e)) k" and ?seg = "versions (seg_sources e segs) k"
  have "get_segs U X open_seg k (pruned_segments e ?spec) p = Inr (Option.bind (run_result (fold_run p ?seg)) surface)" for p
    using get_segs_eq [of "pruned_segments e ?spec" U X open_seg segs k p] pruned_holds [OF ok] pruned_versions [OF ok, where p = "Some k" and k = k] by simp
  then have "get_once U X open_seg e k = Inr (Option.bind (folded (?mem @ ?seg)) surface)"
    by (simp add: get_once_def get_mem_eq folded_def fold_run_append split: sum.splits)
  then show ?thesis
    by (auto simp: visible_lookup sources_eq versions_append surface_def Let_def split: option.splits)
qed


section \<open>Fold-mode scan\<close>

text \<open>The state the scan keeps of a key, as a state of the fold.\<close>

fun fold_state :: "Fold option \<Rightarrow> Record option + Record" where
  "fold_state None = Inl None"
| "fold_state (Some (FoldPending p)) = Inl (Some p)"
| "fold_state (Some (FoldDone r)) = Inr r"

fun continue_run :: "Record option + Record \<Rightarrow> Record list \<Rightarrow> Record option + Record" where
  "continue_run (Inr r) vs = Inr r"
| "continue_run (Inl p) vs = fold_run p vs"

lemma feed_state:
  "fold_state (fmlookup (feed r st) k) =
     continue_run (fold_state (fmlookup st k)) (if rec_key r = k then [r] else [])"
proof (cases "rec_key r = k")
  case True
  then show ?thesis
    by (cases "fmlookup st k" rule: option.exhaust, simp add: feed_def feed_version_def fold_of_def,
        rename_tac x, case_tac x) (simp_all add: feed_def feed_version_def fold_of_def Let_def)
next
  case False
  have "fmlookup (feed r st) k = fmlookup st k"
    using False by (simp add: feed_def split: option.splits Fold.splits)
  with False show ?thesis by (cases "fold_state (fmlookup st k)") simp_all
qed

lemma continue_run_append: "continue_run s (a @ b) = continue_run (continue_run s a) b"
  by (cases s) (simp_all add: fold_run_append split: sum.splits)

lemma continue_run_fold: "continue_run (fold_run p a) b = fold_run p (a @ b)"
  by (simp add: fold_run_append split: sum.splits)

lemma fold_feed_state:
  "fold_state (fmlookup (fold feed rs st) k) =
     continue_run (fold_state (fmlookup st k)) (filter (\<lambda>r. rec_key r = k) rs)"
proof (induction rs arbitrary: st)
  case Nil
  show ?case by (cases "fold_state (fmlookup st k)") simp_all
next
  case (Cons r rs)
  have "filter (\<lambda>r. rec_key r = k) (r # rs) = (if rec_key r = k then [r] else []) @ filter (\<lambda>r. rec_key r = k) rs"
    by simp
  then show ?case by (simp add: Cons.IH feed_state continue_run_append [symmetric])
qed

lemma fold_state_record: "map_option fold_record s = run_result (fold_state s)"
  by (cases s rule: fold_state.cases) simp_all

text \<open>Rows of one key among the records of several keyed sources.\<close>

lemma filter_key_one:
  assumes "distinct (map rec_key rs)" and "\<And>r. r \<in> set rs \<and> rec_key r = k \<longleftrightarrow> found = Some r"
  shows "filter (\<lambda>r. rec_key r = k) rs = (case found of None \<Rightarrow> [] | Some r \<Rightarrow> [r])"
proof -
  let ?F = "filter (\<lambda>r. rec_key r = k) rs"
  have set: "set ?F = {r. found = Some r}" using assms(2) by auto
  show ?thesis
  proof (cases found)
    case (Some r)
    then have r: "set ?F = {r}" and "distinct ?F" using set assms(1) by (auto simp: distinct_map)
    from distinct_card [OF this(2)] r have "length ?F = 1" by simp
    then obtain x where "?F = [x]" by (auto simp: length_Suc_conv)
    with r have "?F = [r]" by simp
    with Some show ?thesis by simp
  qed (use set in simp)
qed

lemma filter_key_values:
  assumes "keyed s"
  shows "filter (\<lambda>r. rec_key r = k) (bt_values s) = (case fmlookup s k of None \<Rightarrow> [] | Some r \<Rightarrow> [r])"
  by (rule filter_key_one [OF distinct_bt_values_keyed [OF assms]])
     (use assms in \<open>auto simp: bt_values_iff keyed_def\<close>)

lemma filter_key_seg:
  assumes "sorted_wrt (<) (map rec_key rs)"
  shows "filter (\<lambda>r. rec_key r = k) rs = (case fmlookup (seg_map rs) k of None \<Rightarrow> [] | Some r \<Rightarrow> [r])"
  by (rule filter_key_one) (use assms seg_map_lookup [OF assms] in \<open>auto simp: strict_sorted_iff\<close>)

lemma filter_key_concat:
  "list_all keyed ss \<Longrightarrow> filter (\<lambda>r. rec_key r = k) (concat (map bt_values ss)) = versions ss k"
  by (induction ss) (simp_all add: filter_key_values split: option.splits)

lemma filter_key_prefix:
  "filter (\<lambda>r. rec_key r = k) (filter (has_prefix p) rs) =
     (if (case p of None \<Rightarrow> True | Some p \<Rightarrow> prefix p k) then filter (\<lambda>r. rec_key r = k) rs else [])"
  by (induction rs) (auto simp: has_prefix_def split: option.splits)

definition erase :: "bool \<Rightarrow> Record \<Rightarrow> Record" where
  "erase w r = (if w then r else r\<lparr> rec_text := None \<rparr>)"

lemma erase_sel [simp]:
  "rec_key (erase w r) = rec_key r" "rec_timestamp (erase w r) = rec_timestamp r"
  "rec_labels (erase w r) = rec_labels r" "rec_numerics (erase w r) = rec_numerics r"
  "is_delta (erase w r) = is_delta r" "is_tombstone (erase w r) = is_tombstone r"
  "erase w (erase w r) = erase w r"
  by (simp_all add: erase_def is_delta_def is_tombstone_def)

lemma merge_delta_erase: "merge_delta (Some (erase w b)) (erase w d) = erase w (merge_delta (Some b) d)"
  by (simp add: merge_delta_def Let_def clear_delta_def erase_def is_tombstone_def is_delta_def)

lemma feed_version_erase:
  "feed_version (map_option (erase w) p) (erase w v) = map_sum (erase w) (erase w) (feed_version p v)"
  by (cases p) (simp_all add: feed_version_def merge_delta_erase Let_def)

lemma fold_run_erase:
  "fold_run (map_option (erase w) p) (map (erase w) vs) = map_sum (map_option (erase w)) (erase w) (fold_run p vs)"
proof (induction vs arbitrary: p)
  case (Cons v vs)
  show ?case
  proof (cases "feed_version p v")
    case (Inl q)
    with Cons.IH [of "Some q"] show ?thesis by (simp add: feed_version_erase)
  qed (simp add: feed_version_erase)
qed simp

lemma folded_erase: "map_option (erase w) (folded (a @ map (erase w) b)) = map_option (erase w) (folded (a @ b))"
proof -
  have run: "map_option (erase w) (run_result s) = run_result (map_sum (map_option (erase w)) (erase w) s)" for s
    by (cases s) simp_all
  have "map (erase w) (a @ map (erase w) b) = map (erase w) (a @ b)" by (simp add: comp_def)
  moreover have "map_sum (map_option (erase w)) (erase w) (fold_run None vs) = fold_run None (map (erase w) vs)" for vs
    using fold_run_erase [of w None vs] by simp
  ultimately show ?thesis unfolding folded_def run by (simp add: comp_def)
qed

lemma feed_segments_eq:
  assumes U: "unicode_ok U" and "\<And>m. m \<in> set L \<Longrightarrow> segment_holds U X open_seg m (segs m)"
    and "qs_text_match spec = None"
  shows "feed_segments U X open_seg spec w L st =
           Inr (fold feed (map (erase w) (concat (map (\<lambda>m. filter (matches U spec) (segs m)) L))) st)"
  using assms(2)
proof (induction L arbitrary: st)
  case (Cons m L)
  have "segment_holds U X open_seg m (segs m)" by (simp add: Cons.prems)
  then obtain c f where rd: "read_segment U X open_seg m False = Inr (c, f)" and c: "cols_ok U X f False c (segs m)"
    unfolding segment_holds_def by blast
  let ?rows = "filter (\<lambda>i. matches U spec (segs m ! i)) [0..<length (segs m)]"
  have rows: "matching_rows U X f c spec = Inr ?rows"
    by (rule matching_rows_eq [OF U c]) (simp add: assms(3))
  have "map_result (\<lambda>r. materialize X f c r w) ?rows = Inr (map (\<lambda>i. erase w (segs m ! i)) ?rows)"
    by (rule map_result_Inr) (simp add: materialize_ok [OF c] erase_def)
  moreover have "map (\<lambda>i. erase w (segs m ! i)) ?rows = map (erase w) (filter (matches U spec) (segs m))"
    using arg_cong [OF filter_rows [of "segs m" "matches U spec"], of "map (erase w)"] by (simp add: comp_def)
  ultimately show ?case using Cons.IH Cons.prems by (simp add: rd rows)
qed simp


lemma filter_key_segs:
  assumes "\<And>m. m \<in> set L \<Longrightarrow> sorted_wrt (<) (map rec_key (segs m))"
  shows "filter (\<lambda>r. rec_key r = k) (concat (map (\<lambda>m. filter (has_prefix p) (segs m)) L)) =
           (if (case p of None \<Rightarrow> True | Some p \<Rightarrow> prefix p k) then versions (map (\<lambda>m. seg_map (segs m)) L) k else [])"
  using assms
proof (induction L)
  case (Cons m L)
  have "filter (\<lambda>r. rec_key r = k) (segs m) = (case fmlookup (seg_map (segs m)) k of None \<Rightarrow> [] | Some r \<Rightarrow> [r])"
    by (rule filter_key_seg) (simp add: Cons.prems)
  with Cons show ?case by (simp add: filter_key_prefix del: filter_filter split: option.splits)
qed simp

lemma matches_prefix_only: "matches U (QuerySpec_default\<lparr> qs_key_prefix := p \<rparr>) r = has_prefix p r"
  by (auto simp: matches_def matches_fields_def QuerySpec_default_def has_prefix_def time_ok_def
      text_match_ok_def text_like_ok_def split: option.splits)

text \<open>The states of a fold-mode scan: under the prefix, the fold of all versions of the key.\<close>

lemma fold_states:
  fixes p
  assumes ok: "engine_ok U X open_seg e segs"
  defines "stripped \<equiv> QuerySpec_default\<lparr> qs_key_prefix := p \<rparr>"
  obtains st where
    "feed_segments U X open_seg stripped w (pruned_segments e stripped)
       (fold feed (filter (has_prefix p) (concat (map mt_values (mem_tables e)))) fmempty) = Inr st"
    and "\<And>k. map_option fold_record (fmlookup st k) =
       (if (case p of None \<Rightarrow> True | Some p \<Rightarrow> prefix p k)
        then folded (versions (map mt_records (mem_tables e)) k @ map (erase w) (versions (seg_sources e segs) k))
        else None)"
proof -
  let ?mem = "filter (has_prefix p) (concat (map mt_values (mem_tables e)))"
  let ?seg = "concat (map (\<lambda>m. filter (has_prefix p) (segs m)) (pruned_segments e stripped))"
  let ?st = "fold feed (map (erase w) ?seg) (fold feed ?mem fmempty)"
  have U: "unicode_ok U" using ok by (simp add: engine_ok_def)
  have run: "feed_segments U X open_seg stripped w (pruned_segments e stripped) (fold feed ?mem fmempty) = Inr ?st"
  proof -
    have "qs_text_match stripped = None" by (simp add: stripped_def QuerySpec_default_def)
    moreover have "matches U stripped = has_prefix p" by (rule ext) (simp add: stripped_def matches_prefix_only)
    ultimately show ?thesis
      using feed_segments_eq [of U "pruned_segments e stripped" X open_seg segs stripped w "fold feed ?mem fmempty"]
        U pruned_holds [OF ok, of _ stripped] by (simp del: filter_filter)
  qed
  have mem: "filter (\<lambda>r. rec_key r = k) ?mem =
      (if (case p of None \<Rightarrow> True | Some p \<Rightarrow> prefix p k) then versions (map mt_records (mem_tables e)) k else [])" for k
    using filter_key_concat [OF engine_keyed(1) [OF ok], of k]
    by (simp add: filter_key_prefix mt_values_def [abs_def] comp_def del: filter_filter)
  have seg: "filter (\<lambda>r. rec_key r = k) (map (erase w) ?seg) =
      (if (case p of None \<Rightarrow> True | Some p \<Rightarrow> prefix p k) then map (erase w) (versions (seg_sources e segs) k) else [])" for k
  proof -
    have "filter (\<lambda>r. rec_key r = k) (map (erase w) ?seg) = map (erase w) (filter (\<lambda>r. rec_key r = k) ?seg)"
      by (simp add: filter_map comp_def)
    moreover have "sorted_wrt (<) (map rec_key (segs m))" if "m \<in> set (pruned_segments e stripped)" for m
      using pruned_holds [OF ok that] by (simp add: segment_holds_def)
    ultimately show ?thesis
      using pruned_versions [OF ok, where p = p and k = k] by (simp add: filter_key_segs stripped_def)
  qed
  have "map_option fold_record (fmlookup ?st k) =
      run_result (fold_run None (filter (\<lambda>r. rec_key r = k) ?mem @ filter (\<lambda>r. rec_key r = k) (map (erase w) ?seg)))" for k
    by (simp add: fold_state_record fold_feed_state continue_run_fold del: filter_append filter_filter)
  then have "map_option fold_record (fmlookup ?st k) =
      (if (case p of None \<Rightarrow> True | Some p \<Rightarrow> prefix p k)
       then folded (versions (map mt_records (mem_tables e)) k @ map (erase w) (versions (seg_sources e segs) k))
       else None)" for k
    unfolding mem seg by (simp add: folded_def)
  with run that show thesis by blast
qed


text \<open>Two sources that agree up to text the query neither tests nor returns give one page.\<close>

lemma reference_scan_erased:
  assumes "keyed a" and "keyed b"
    and w: "\<not> w \<Longrightarrow> qs_omit_text spec \<and> qs_text_match spec = None \<and> qs_text_like spec = None"
    and agree: "\<And>k. spec_prefix spec k \<Longrightarrow> map_option (erase w) (fmlookup a k) = map_option (erase w) (fmlookup b k)"
  shows "reference_scan U spec a = reference_scan U spec b"
proof -
  have same: "wanted U spec x = wanted U spec y" "drop_text spec x = drop_text spec y" if "erase w x = erase w y" for x y
  proof -
    have "wanted U spec (erase w z) = wanted U spec z" "drop_text spec (erase w z) = drop_text spec z" for z
      using w by (auto simp: erase_def wanted_def matches_def matches_fields_def text_match_ok_def text_like_ok_def
          after_bound_ok_def is_tombstone_def drop_text_def split: option.splits)
    with that show "wanted U spec x = wanted U spec y" "drop_text spec x = drop_text spec y" by metis+
  qed
  let ?P = "\<lambda>s. map (drop_text spec) (filter (wanted U spec) (bt_values s))"
  have sub: "set (?P s) \<subseteq> set (?P t)" if ks: "keyed s" and kt: "keyed t"
    and eq: "\<And>k. spec_prefix spec k \<Longrightarrow> map_option (erase w) (fmlookup s k) = map_option (erase w) (fmlookup t k)" for s t
  proof
    fix x assume "x \<in> set (?P s)"
    then obtain r where r: "x = drop_text spec r" "fmlookup s (rec_key r) = Some r" "wanted U spec r"
      using keyed_values [OF ks] by auto
    then have "spec_prefix spec (rec_key r)" by (auto simp: wanted_def intro: matches_prefix)
    from eq [OF this] r(2) obtain r' where r': "fmlookup t (rec_key r) = Some r'" "erase w r = erase w r'"
      by (cases "fmlookup t (rec_key r)") auto
    from arg_cong [OF r'(2), of rec_key] have "rec_key r' = rec_key r" by simp
    with r r' same [OF r'(2)] keyed_values [OF kt, of r'] show "x \<in> set (?P t)" by auto
  qed
  have d: "distinct (map rec_key (?P s))" if "keyed s" for s
    using distinct_map_filter [OF distinct_bt_values_keyed [OF that], of "wanted U spec"] by (simp add: comp_def)
  have "set (?P a) = set (?P b)"
    by (rule equalityI) (rule sub [OF assms(1,2) agree], assumption, rule sub [OF assms(2,1) agree [symmetric]], assumption)
  then have "sort_truncate spec (?P a) = sort_truncate spec (?P b)"
    by (rule sort_truncate_cong [OF d [OF assms(1)] d [OF assms(2)]])
  then show ?thesis by (simp add: reference_scan_def strip_text_map sort_truncate_map)
qed

lemma bt_values_fmmap: "bt_values (fmmap f m) = map f (bt_values m)"
  by (simp add: bt_values_def sorted_list_of_fmap_def comp_def) (auto simp: fmlookup_dom_iff)

lemma erase_finish: "erase w (finish_fold r) = finish_fold (erase w r)"
  by (simp add: erase_def finish_fold_def)

lemma scan_fold_eq:
  assumes ok: "engine_ok U X open_seg e segs"
  shows "scan_fold U X open_seg e spec = Inr (reference_scan U spec (visible (sources e segs)))"
proof -
  define w where "w = (\<not> qs_omit_text spec \<or> qs_text_match spec \<noteq> None \<or> qs_text_like spec \<noteq> None)"
  let ?stripped = "QuerySpec_default\<lparr> qs_key_prefix := qs_key_prefix spec \<rparr>"
  let ?V = "visible (sources e segs)"
  obtain st where run: "feed_segments U X open_seg ?stripped w (pruned_segments e ?stripped)
       (fold feed (filter (has_prefix (qs_key_prefix spec)) (concat (map mt_values (mem_tables e)))) fmempty) = Inr st"
    and st: "\<And>k. map_option fold_record (fmlookup st k) =
       (if (case qs_key_prefix spec of None \<Rightarrow> True | Some p \<Rightarrow> prefix p k)
        then folded (versions (map mt_records (mem_tables e)) k @ map (erase w) (versions (seg_sources e segs) k))
        else None)"
    by (rule fold_states [OF ok, where w = w and p = "qs_key_prefix spec"]) (rule that)
  let ?S = "fmmap (\<lambda>f. finish_fold (fold_record f)) st"
  have S: "map_option (erase w) (fmlookup ?S k) =
      (if spec_prefix spec k then map_option (erase w) (fmlookup ?V k) else None)" for k
  proof -
    have "map_option (erase w) (fmlookup ?S k) =
        map_option finish_fold (map_option (erase w) (map_option fold_record (fmlookup st k)))"
      by (simp add: option.map_comp comp_def erase_finish)
    also have "\<dots> = (if spec_prefix spec k then map_option finish_fold (map_option (erase w)
        (folded (versions (map mt_records (mem_tables e)) k @ versions (seg_sources e segs) k))) else None)"
      unfolding st by (simp only: spec_prefix_def folded_erase split: if_split) simp
    finally show ?thesis
      by (simp add: visible_lookup sources_eq versions_append option.map_comp comp_def erase_finish)
  qed
  have kV: "keyed ?V" using engine_keyed [OF ok] by (intro keyed_visible) (simp add: sources_eq)
  have kS: "keyed ?S"
    unfolding keyed_def
  proof (intro allI impI)
    fix k r assume r: "fmlookup ?S k = Some r"
    with S [of k] obtain r' where "fmlookup ?V k = Some r'" "erase w r = erase w r'"
      by (cases "fmlookup ?V k") (auto split: if_splits)
    with kV show "rec_key r = k" unfolding keyed_def by (metis erase_sel(1))
  qed
  have "reference_scan U spec ?S = reference_scan U spec ?V"
    by (rule reference_scan_erased [OF kS kV, where w = w]) (use S in \<open>auto simp: w_def\<close>)
  moreover have "bt_values ?S = map (\<lambda>f. finish_fold (fold_record f)) (bt_values st)"
    by (rule bt_values_fmmap)
  ultimately show ?thesis
    unfolding scan_fold_def Let_def w_def [symmetric] run and_then.simps
    by (simp add: reference_scan_def wanted_def [abs_def])
qed


section \<open>Dispatch\<close>

text \<open>The reserved label is only ever written with the value \<open>1\<close>.\<close>

definition delta_labels_ok :: "source list \<Rightarrow> bool" where
  "delta_labels_ok ss \<longleftrightarrow>
     (\<forall>s \<in> set ss. \<forall>r \<in> set (bt_values s). DELTA_LABEL |\<in>| fmdom (rec_labels r) \<longrightarrow> is_delta r)"

lemma in_versions: "v \<in> set (versions ss k) \<longleftrightarrow> (\<exists>s \<in> set ss. fmlookup s k = Some v)"
  by (induction ss) (auto split: option.splits)

lemma no_deltas:
  assumes ok: "engine_ok U X open_seg e segs" and no: "\<not> deltas_possible e spec" and k: "spec_prefix spec k"
    and v: "v \<in> set (versions (sources e segs) k)"
  shows "\<not> is_delta v"
proof
  assume d: "is_delta v"
  from v consider t where "t \<in> set (mem_tables e)" "mt_get t k = Some v"
    | m where "m \<in> set (mf_segments (ei_manifest e))" "fmlookup (seg_map (segs m)) k = Some v"
    by (auto simp: in_versions sources_eq seg_sources_def mt_get_def)
  then show False
  proof cases
    case 1
    then have "mt_inv U t" using ok by (simp add: engine_ok_def)
    then have "mt_has_deltas t" using 1 d by (auto simp: mt_has_deltas_iff)
    with 1(1) no show False by (auto simp: deltas_possible_def mem_tables_def list_ex_iff)
  next
    case 2
    have h: "segment_holds U X open_seg m (segs m)" using ok 2(1) by (simp add: engine_ok_def)
    then have r: "v \<in> set (segs m)" "rec_key v = k"
      using 2(2) seg_map_lookup [of "segs m" k v] by (simp_all add: segment_holds_def)
    then have "may_match (sm_zone m) (QuerySpec_default\<lparr> qs_key_prefix := qs_key_prefix spec \<rparr>)"
      using prefix_only_match [OF ok 2(1)] k by (auto simp: spec_prefix_def)
    moreover have "label_covered (zm_labels (sm_zone m)) DELTA_LABEL (lit ''1'')"
      using holds_covers [OF h r(1)] d by (simp add: covers_def is_delta_def)
    then have "zone_may_have m DELTA_LABEL"
      by (auto simp: label_covered_def zone_may_have_def split: option.splits)
    ultimately show False using 2(1) no by (auto simp: deltas_possible_def list_ex_iff)
  qed
qed

lemma visible_plain:
  assumes ok: "engine_ok U X open_seg e segs" and no: "\<not> deltas_possible e spec" and k: "spec_prefix spec k"
    and lab: "delta_labels_ok (sources e segs)"
  shows "fmlookup (latest (sources e segs)) k = fmlookup (visible (sources e segs)) k"
proof (cases "versions (sources e segs) k")
  case Nil
  then show ?thesis by (simp add: versions_latest visible_lookup folded_None)
next
  case (Cons v vs)
  then have v: "v \<in> set (versions (sources e segs) k)" by simp
  have nd: "\<not> is_delta v" by (rule no_deltas [OF ok no k v])
  moreover obtain s where "s \<in> set (sources e segs)" "v \<in> set (bt_values s)"
    using v by (auto simp: in_versions bt_values_iff)
  ultimately have "DELTA_LABEL |\<notin>| fmdom (rec_labels v)" using lab unfolding delta_labels_ok_def by blast
  then have "finish_fold v = v" by (simp add: finish_fold_def fmdrop_idle)
  with Cons nd show ?thesis
    by (simp add: versions_latest visible_lookup folded_def feed_version_def)
qed

lemma engine_sources_keyed: "engine_ok U X open_seg e segs \<Longrightarrow> list_all keyed (sources e segs)"
  by (simp add: sources_eq engine_keyed)

lemma reference_plain:
  assumes ok: "engine_ok U X open_seg e segs" and no: "\<not> deltas_possible e spec"
    and lab: "delta_labels_ok (sources e segs)"
  shows "reference_scan U spec (latest (sources e segs)) = reference_scan U spec (visible (sources e segs))"
  by (rule reference_scan_erased [where w = True])
     (use engine_sources_keyed [OF ok] visible_plain [OF ok no _ lab] in \<open>auto intro: keyed_latest keyed_visible\<close>)

lemma scan_once_eq:
  assumes ok: "engine_ok U X open_seg e segs" and lab: "delta_labels_ok (sources e segs)"
  shows "scan_once U X open_seg e spec = Inr (reference_scan U spec (visible (sources e segs)))"
  using scan_fold_eq [OF ok] scan_full_eq [OF ok] scan_topk_eq [OF ok] reference_plain [OF ok _ lab]
  by (auto simp: scan_once_def split: option.splits)

lemma length_reference:
  "qs_limit spec = 0 \<Longrightarrow> length (reference_scan U spec s) = length (filter (wanted U spec) (bt_values s))"
  by (simp add: reference_scan_def strip_text_map sort_truncate_def Let_def)

lemma count_once_eq:
  assumes ok: "engine_ok U X open_seg e segs" and lab: "delta_labels_ok (sources e segs)" and after: "qs_after spec = None"
  shows "count_once U X open_seg e spec =
           Inr (length (filter (\<lambda>r. \<not> is_tombstone r \<and> matches U spec r) (bt_values (visible (sources e segs)))))"
proof -
  let ?u = "spec\<lparr> qs_limit := 0, qs_order_by := None \<rparr>"
  have m: "matches U ?u = matches U spec"
    by (rule ext) (simp add: matches_def matches_fields_def text_match_ok_def text_like_ok_def cong: option.case_cong)
  have w: "wanted U ?u = (\<lambda>r. \<not> is_tombstone r \<and> matches U spec r)"
    by (rule ext) (simp add: wanted_def m after_bound_ok_def after)
  have len: "length (reference_scan U ?u s) = length (filter (\<lambda>r. \<not> is_tombstone r \<and> matches U spec r) (bt_values s))" for s
    using length_reference [of ?u U s] by (simp add: w)
  show ?thesis
    using scan_fold_eq [OF ok, of ?u] count_full_eq [OF ok, of ?u] arg_cong [OF reference_plain [OF ok _ lab, of ?u], of length]
    by (simp add: count_once_def Let_def len m)
qed

end
