(* ===== verification/Engine_Props.thy ===== *)
theory Engine_Props
  imports Engine_Fold Columns_Build
begin

text \<open>
  The contract of the read path, stated over the public operations with their retries, and a
  concrete engine (one version 1 segment under a memtable with a delete) it is applied to.
\<close>

section \<open>Retries\<close>

lemma retry_from_first:
  assumes "i \<le> n" and "n \<le> VANISHED_SEGMENT_RETRIES" and "\<forall>j. i \<le> j \<and> j < n \<longrightarrow> attempt j = Inl (Io NotFound)"
    and "attempt n \<noteq> Inl (Io NotFound) \<or> n = VANISHED_SEGMENT_RETRIES"
  shows "retry_from attempt i = attempt n"
  using assms
proof (induction "n - i" arbitrary: i)
  case 0
  then show ?case by (subst retry_from.simps) auto
next
  case (Suc d)
  then have "i < n" "attempt i = Inl (Io NotFound)" by auto
  with Suc have "retry_from attempt (i + 1) = attempt n" by simp
  with \<open>i < n\<close> \<open>attempt i = _\<close> Suc.prems(2) show ?case by (subst retry_from.simps) simp
qed

lemma retry_vanished_eq:
  assumes "n \<le> VANISHED_SEGMENT_RETRIES" and "\<forall>j < n. attempt j = Inl (Io NotFound)" and "attempt n = Inr x"
  shows "retry_vanished attempt = Inr x"
  using retry_from_first [of 0 n attempt] assms by (simp add: retry_vanished_def)

section \<open>A version 1 segment\<close>

definition v1_file :: "('x) codec_ext_scheme \<Rightarrow> byte list \<Rightarrow> byte list" where
  "v1_file X body = u32_le MAGIC @ u32_le 1 @ u32_le (crc32_hash X body) @ body"

lemma v1_header: "read_header (v1_file X body) = Inr 1"
  by (simp add: read_header_def read_at_def v1_file_def of_le_u32 MAGIC_def)

lemma v1_whole:
  assumes "crc32_hash X body < 2 ^ 32" and "rmp_records_from_slice X body = Inr rs"
  shows "load_v1_whole U X (v1_file X body) = Inr (from_records U rs)"
  using assms by (simp add: load_v1_whole_def read_at_def decode_v1_records_def v1_file_def of_le_u32 Let_def)

lemma v1_segment_holds:
  assumes "crc32_hash X body < 2 ^ 32" and "rmp_records_from_slice X body = Inr rs"
    and rs: "seg_records rs" "rs \<noteq> []" and "open_seg m = Inr (v1_file X body)"
    and "\<forall>r \<in> set rs. covers (sm_zone m) r"
  shows "segment_holds U X open_seg m rs"
proof -
  note whole = v1_whole [OF assms(1,2), of U]
  have "read_segment U X open_seg m need = Inr (from_records U rs, None)" for need
    using assms(5) by (simp add: read_segment_def load_segment_def v1_header whole)
  moreover have "open_payload_file open_seg m (from_records U rs) = Inr None"
    by (simp add: open_payload_file_def payload_needs_file_def from_records_def Let_def)
  moreover have "load_segment_keys U X open_seg m = Inr (Whole (from_records U rs))"
    using assms(5) by (simp add: load_segment_keys_def v1_header whole)
  moreover have "segkeys_contains (Whole (from_records U rs)) k \<longleftrightarrow> k \<in> rec_key ` set rs" for k
  proof -
    have "sorted_wrt (<) (map rec_key rs)" using rs(1) by (simp add: seg_records_def)
    note find = find_key_ok [OF from_records_ok [OF rs(1), of U undefined None True] this]
    have "segkeys_contains (Whole (from_records U rs)) k \<longleftrightarrow> (\<exists>i < length rs. rec_key (rs ! i) = k)"
      unfolding segkeys_contains_def SegKeys.case not_None_eq find by blast
    also have "\<dots> \<longleftrightarrow> k \<in> rec_key ` set rs" by (metis imageE image_eqI in_set_conv_nth)
    finally show ?thesis .
  qed
  ultimately show ?thesis
    using rs assms(6) from_records_ok [OF rs(1)] by (auto simp: segment_holds_def seg_records_def)
qed

definition sample_codec_ext :: codec_ext where
  "sample_codec_ext =
     \<lparr> rmp_to_vec = (\<lambda>r. Inl []), rmp_from_slice = (\<lambda>b. None), crc32_hash = (\<lambda>b. 0),
       flate_deflate = (\<lambda>b. b), flate_inflate = Some,
       rmp_blocks_to_vec = (\<lambda>b. Inl []), rmp_blocks_from_slice = (\<lambda>b. Inl []),
       rmp_dir_to_vec = (\<lambda>b. Inl []), rmp_dir_from_slice = (\<lambda>b. Inl []),
       rmp_records_from_slice = (\<lambda>b. if b = [1] then Inr sample_rows else Inl []) \<rparr>"

definition sample_meta :: SegmentMeta where
  "sample_meta =
     \<lparr> sm_id = 1, sm_file = lit ''seg-0000000000000001.gird'', sm_tier = Hot, sm_zone = zone_build sample_rows,
       sm_bytes = 13, sm_created = 0 \<rparr>"

definition sample_open :: opener where
  "sample_open m = (if m = sample_meta then Inr (v1_file sample_codec_ext [1]) else Inl (Io NotFound))"

definition sample_engine :: EngineInner where
  "sample_engine =
     \<lparr> ei_config = config_at [lit ''d''], ei_memtable = mt_insert ascii_unicode mt_default (tombstone [98] 9),
       ei_frozen = [], ei_manifest = \<lparr> mf_next_segment_id = 2, mf_segments = [sample_meta], mf_blobs = {||} \<rparr> \<rparr>"

lemma sample_engine_ok: "engine_ok ascii_unicode sample_codec_ext sample_open sample_engine (\<lambda>_. sample_rows)"
proof -
  have "segment_holds ascii_unicode sample_codec_ext sample_open sample_meta sample_rows"
    by (rule v1_segment_holds [where body = "[1]", OF _ _ sample_rows_ok])
       (simp_all add: sample_codec_ext_def sample_open_def, simp add: sample_rows_def,
        simp add: sample_meta_def zone_build_covers)
  then show ?thesis
    by (simp add: engine_ok_def sample_engine_def mem_tables_def ascii_unicode_ok mt_inv_insert)
qed

lemma sample_sources:
  "sources sample_engine (\<lambda>_. sample_rows) =
     [fmupd [98] (tombstone [98] 9) fmempty, seg_map sample_rows]"
  by (simp add: sources_def sample_engine_def mem_tables_def newest_first_def mt_default_def)

lemma sample_rows_lookup:
  "fmlookup (seg_map sample_rows) k =
     (if k = [97] then Some ((sample_record [97])\<lparr> rec_text := Some (lit ''Hello world'') \<rparr>)
      else if k = [98] then Some (sample_record [98]) else None)"
  by (simp add: seg_map_def sample_rows_def sample_record_def)

lemma sample_labels_ok: "delta_labels_ok (sources sample_engine (\<lambda>_. sample_rows))"
  unfolding sample_sources
  by (auto simp: delta_labels_ok_def bt_values_iff sample_rows_lookup sample_record_def tombstone_def split: if_splits)

text \<open>The first attempt loses the segment's file.\<close>

lemma sample_vanished:
  "scan_once ascii_unicode sample_codec_ext (\<lambda>_. Inl (Io NotFound)) sample_engine QuerySpec_default = Inl (Io NotFound)"
proof -
  let ?o = "\<lambda>_. Inl (Io NotFound)" and ?d = QuerySpec_default
  have "may_match (sm_zone sample_meta) (QuerySpec_default\<lparr> qs_key_prefix := None \<rparr>)"
    by (rule prefix_only_match [OF sample_engine_ok, of _ "[97]"])
       (simp_all add: sample_engine_def sample_rows_def sample_record_def)
  then have m: "may_match (sm_zone sample_meta) ?d" by (simp add: QuerySpec_default_def)
  have rd: "read_segment ascii_unicode sample_codec_ext ?o m need = Inl (Io NotFound)" for m need
    by (simp add: read_segment_def)
  have "pruned_segments sample_engine ?d = [sample_meta]" using m by (simp add: pruned_segments_def sample_engine_def)
  then have fold: "scan_fold ascii_unicode sample_codec_ext ?o sample_engine ?d = Inl (Io NotFound)"
    by (simp add: scan_fold_def Let_def rd QuerySpec_default_def)
  have "may_overlap_prefix (sm_zone sample_meta) ?d" by (simp add: may_overlap_prefix_def QuerySpec_default_def)
  with m have "walk_plan sample_engine ?d = \<lparr> wp_steps = [mk_step ?d sample_meta], wp_track_shadows = False \<rparr>"
    by (simp add: walk_plan_def Let_def sample_engine_def keep_step_def key_ranges_disjoint_def mk_step_def)
  then have "scan_full ascii_unicode sample_codec_ext ?o sample_engine ?d = Inl (Io NotFound)"
    using m by (simp add: scan_full_def walk_all_def visit_step_def rd split: prod.splits)
  with fold show ?thesis by (simp add: scan_once_def QuerySpec_default_def)
qed

section \<open>Properties\<close>

text \<open>
  C1. A scan returns what is there. Whatever mixture of memtable, frozen memtables and segments
  holds the versions, whatever the zone maps prune, through the fold, the bounded heap with early
  termination or the full collection, and after up to four attempts that lost a segment file to a
  concurrent compaction, \<open>scan\<close> returns the reference scan -- filter by the oracle, sort,
  truncate, project -- over the visible record of every key at the state of the attempt that
  succeeds.
\<close>

theorem scan_refines_visible:
  assumes "n \<le> VANISHED_SEGMENT_RETRIES"
    and "\<forall>i < n. scan_once U X (fst (at i)) (snd (at i)) spec = Inl (Io NotFound)"
    and "engine_ok U X (fst (at n)) (snd (at n)) segs" and "delta_labels_ok (sources (snd (at n)) segs)"
    and "qs_after spec = None \<or> \<not> numeric_order (qs_order_by spec)"
  shows "scan U X at spec = Inr (reference_scan U spec (visible (sources (snd (at n)) segs)))"
  using assms scan_once_eq [OF assms(3,4), of spec]
    retry_vanished_eq [of n "\<lambda>n. scan_once U X (fst (at n)) (snd (at n)) spec"]
  by (auto simp: scan_def split_beta)

theorem scan_refines_visible_witness:
  "scan ascii_unicode sample_codec_ext (\<lambda>i. (if i = 0 then \<lambda>_. Inl (Io NotFound) else sample_open, sample_engine))
       QuerySpec_default =
     Inr (reference_scan ascii_unicode QuerySpec_default (visible (sources sample_engine (\<lambda>_. sample_rows))))"
proof -
  let ?at = "\<lambda>i::nat. (if i = 0 then \<lambda>_. Inl (Io NotFound) else sample_open, sample_engine)"
  show ?thesis
    using sample_vanished scan_refines_visible [of 1 ascii_unicode sample_codec_ext ?at QuerySpec_default "\<lambda>_. sample_rows"]
      sample_engine_ok sample_labels_ok by (simp add: VANISHED_SEGMENT_RETRIES_def QuerySpec_default_def)
qed

text \<open>
  C5. A point lookup is a lookup in the visible map: the folded newest record of the key, or
  nothing when the key was never written or its newest base is a tombstone, again through up to
  four lost segment files.
\<close>

theorem get_refines_visible:
  assumes "n \<le> VANISHED_SEGMENT_RETRIES"
    and "\<forall>i < n. get_once U X (fst (at i)) (snd (at i)) key = Inl (Io NotFound)"
    and "engine_ok U X (fst (at n)) (snd (at n)) segs"
  shows "engine_get U X at key =
           Inr (case fmlookup (visible (sources (snd (at n)) segs)) key of
                  None \<Rightarrow> None | Some r \<Rightarrow> if is_tombstone r then None else Some r)"
  using assms get_once_eq [OF assms(3), of key]
    retry_vanished_eq [of n "\<lambda>n. get_once U X (fst (at n)) (snd (at n)) key"]
  by (simp add: engine_get_def split_beta)

theorem get_refines_visible_witness:
  "engine_get ascii_unicode sample_codec_ext (\<lambda>_. (sample_open, sample_engine)) [97] = Inr (Some (sample_rows ! 0)) \<and>
   engine_get ascii_unicode sample_codec_ext (\<lambda>_. (sample_open, sample_engine)) [98] = Inr None"
  using get_refines_visible [of 0 ascii_unicode sample_codec_ext "\<lambda>_. (sample_open, sample_engine)" "[97]" "\<lambda>_. sample_rows"]
    get_refines_visible [of 0 ascii_unicode sample_codec_ext "\<lambda>_. (sample_open, sample_engine)" "[98]" "\<lambda>_. sample_rows"]
    sample_engine_ok
  by (simp add: sample_sources visible_lookup sample_rows_lookup folded_def feed_version_def)
     (simp add: sample_rows_def sample_record_def is_delta_def finish_fold_def is_tombstone_def tombstone_def fmdrop_idle)

text \<open>
  C21. Scan and lookup agree: an unrestricted scan returns exactly the records that a lookup of
  their key returns.
\<close>

theorem get_scan_agree:
  assumes "engine_ok U X open_seg e segs" and "delta_labels_ok (sources e segs)"
  shows "\<exists>out. scan U X (\<lambda>_. (open_seg, e)) QuerySpec_default = Inr out \<and>
           (\<forall>k r. engine_get U X (\<lambda>_. (open_seg, e)) k = Inr (Some r) \<longleftrightarrow> r \<in> set out \<and> rec_key r = k)"
proof -
  let ?V = "visible (sources e segs)" and ?spec = "QuerySpec_default"
  have k: "keyed ?V" using engine_sources_keyed [OF assms(1)] by (rule keyed_visible)
  have "scan U X (\<lambda>_. (open_seg, e)) ?spec = Inr (reference_scan U ?spec ?V)"
    using scan_once_eq [OF assms, of ?spec] retry_vanished_eq [of 0 "\<lambda>_. scan_once U X open_seg e ?spec"]
    by (simp add: scan_def QuerySpec_default_def)
  moreover have "engine_get U X (\<lambda>_. (open_seg, e)) key = Inr (Some r) \<longleftrightarrow>
      r \<in> set (reference_scan U ?spec ?V) \<and> rec_key r = key" for key r
  proof -
    have "engine_get U X (\<lambda>_. (open_seg, e)) key = Inr (Some r) \<longleftrightarrow> fmlookup ?V key = Some r \<and> \<not> is_tombstone r"
      using get_once_eq [OF assms(1), of key] retry_vanished_eq [of 0 "\<lambda>_. get_once U X open_seg e key"]
      by (cases "fmlookup ?V key") (auto simp: engine_get_def)
    moreover have "r \<in> set (reference_scan U ?spec ?V) \<longleftrightarrow> fmlookup ?V (rec_key r) = Some r \<and> \<not> is_tombstone r"
      unfolding keyed_values [OF k, symmetric]
      by (auto simp: reference_scan_def strip_text_map drop_text_def sort_truncate_def QuerySpec_default_def wanted_def
          matches_def matches_fields_def text_match_ok_def text_like_ok_def time_ok_def after_bound_ok_def)
    moreover have "rec_key r = key" if "fmlookup ?V key = Some r" using k that unfolding keyed_def by blast
    ultimately show ?thesis by metis
  qed
  ultimately show ?thesis by blast
qed

theorem get_scan_agree_witness:
  "\<exists>out. scan ascii_unicode sample_codec_ext (\<lambda>_. (sample_open, sample_engine)) QuerySpec_default = Inr out \<and>
     (\<forall>k r. engine_get ascii_unicode sample_codec_ext (\<lambda>_. (sample_open, sample_engine)) k = Inr (Some r) \<longleftrightarrow>
        r \<in> set out \<and> rec_key r = k)"
  by (rule get_scan_agree [OF sample_engine_ok sample_labels_ok])

text \<open>
  C20. A count is the length of the scan without limit, in any order, although it never reads a
  payload, a text or a timestamp of a segment row.
\<close>

theorem count_is_scan_length:
  assumes "engine_ok U X open_seg e segs" and "delta_labels_ok (sources e segs)" and "qs_after spec = None"
  shows "\<exists>out. scan U X (\<lambda>_. (open_seg, e)) (spec\<lparr> qs_limit := 0 \<rparr>) = Inr out \<and>
           engine_count U X (\<lambda>_. (open_seg, e)) spec = Inr (length out)"
proof -
  let ?s = "spec\<lparr> qs_limit := 0 \<rparr>" and ?V = "visible (sources e segs)"
  have "scan U X (\<lambda>_. (open_seg, e)) ?s = Inr (reference_scan U ?s ?V)"
    using scan_once_eq [OF assms(1,2), of ?s] retry_vanished_eq [of 0 "\<lambda>_. scan_once U X open_seg e ?s"] assms(3)
    by (simp add: scan_def)
  moreover have "engine_count U X (\<lambda>_. (open_seg, e)) spec =
      Inr (length (filter (\<lambda>r. \<not> is_tombstone r \<and> matches U spec r) (bt_values ?V)))"
    using count_once_eq [OF assms] retry_vanished_eq [of 0 "\<lambda>_. count_once U X open_seg e spec"] assms(3)
    by (simp add: engine_count_def)
  moreover have "wanted U ?s = (\<lambda>r. \<not> is_tombstone r \<and> matches U spec r)"
    by (rule ext) (simp add: wanted_def matches_def matches_fields_def text_match_ok_def text_like_ok_def
        after_bound_ok_def assms(3) cong: option.case_cong)
  ultimately show ?thesis using length_reference [of ?s U ?V] by simp
qed

theorem count_is_scan_length_witness:
  "\<exists>out. scan ascii_unicode sample_codec_ext (\<lambda>_. (sample_open, sample_engine)) (QuerySpec_default\<lparr> qs_limit := 0 \<rparr>) = Inr out \<and>
     engine_count ascii_unicode sample_codec_ext (\<lambda>_. (sample_open, sample_engine)) QuerySpec_default = Inr (length out)"
  by (rule count_is_scan_length [OF sample_engine_ok sample_labels_ok]) (simp add: QuerySpec_default_def)

text \<open>
  C13. The bounded heap, its candidate columns and its early termination are an optimisation only:
  a top-k scan returns the first rows of the full scan.
\<close>

theorem topk_is_prefix_of_full_scan:
  assumes "engine_ok U X open_seg e segs" and "qs_order_by spec = Some order" and "0 < qs_limit spec"
  shows "scan_topk U X open_seg e spec order =
           and_then (scan_full U X open_seg e (spec\<lparr> qs_limit := 0 \<rparr>)) (\<lambda>out. Inr (take (qs_limit spec) out))"
proof -
  let ?s = "spec\<lparr> qs_limit := 0 \<rparr>"
  have "wanted U ?s = wanted U spec"
    by (rule ext) (simp add: wanted_def matches_def matches_fields_def text_match_ok_def text_like_ok_def
        after_bound_ok_def cong: option.case_cong)
  then show ?thesis
    using assms scan_topk_eq [OF assms] scan_full_eq [OF assms(1), of ?s]
    by (simp add: reference_scan_def strip_text_if_omitted_def sort_truncate_def take_map)
qed

theorem topk_is_prefix_of_full_scan_witness:
  "scan_topk ascii_unicode sample_codec_ext sample_open sample_engine
       (QuerySpec_default\<lparr> qs_order_by := Some TimestampDesc, qs_limit := 1 \<rparr>) TimestampDesc =
     and_then (scan_full ascii_unicode sample_codec_ext sample_open sample_engine
       (QuerySpec_default\<lparr> qs_order_by := Some TimestampDesc, qs_limit := 0 \<rparr>)) (\<lambda>out. Inr (take 1 out))"
  using topk_is_prefix_of_full_scan [OF sample_engine_ok, of "QuerySpec_default\<lparr> qs_order_by := Some TimestampDesc, qs_limit := 1 \<rparr>"]
  by simp

text \<open>
  C22. A read that keeps losing segment files stops: it makes at most five attempts, returns the
  first result that is not a vanished file, and after five of those the error itself.
\<close>

theorem retry_is_bounded:
  "retry_vanished attempt =
     (case List.find (\<lambda>i. attempt i \<noteq> Inl (Io NotFound)) [0..<5] of
        None \<Rightarrow> Inl (Io NotFound)
      | Some i \<Rightarrow> attempt i)"
proof (cases "List.find (\<lambda>i. attempt i \<noteq> Inl (Io NotFound)) [0..<5]")
  case None
  then have "\<forall>i < 5. attempt i = Inl (Io NotFound)" by (auto simp: find_None_iff)
  then show ?thesis
    using retry_from_first [of 0 4 attempt] None by (simp add: retry_vanished_def VANISHED_SEGMENT_RETRIES_def)
next
  case (Some i)
  then have "i < 5" "attempt i \<noteq> Inl (Io NotFound)" "\<forall>j < i. attempt j = Inl (Io NotFound)"
    by (auto simp: find_Some_iff)
  then show ?thesis
    using retry_from_first [of 0 i attempt] Some by (simp add: retry_vanished_def VANISHED_SEGMENT_RETRIES_def)
qed

end
