(* ===== verification/Codec_Columns.thy ===== *)
theory Codec_Columns
  imports Segment_File
begin

text \<open>
  Every section of a version 2 segment file decodes to the column it encodes. The theory
  \<open>Codec_File\<close> puts the sections together.
\<close>

unbundle bit_operations_syntax

section \<open>Cursor\<close>

lemma cur_le_bytes: "x < 256 ^ n \<Longrightarrow> cur_le n (le_bytes n x @ c) = Inr (x, c)"
  by (simp add: cur_le_def cur_take_def of_le_le_bytes)

lemma cur_u16_le [codec_simps]: "x < 65536 \<Longrightarrow> cur_u16 (le_bytes 2 x @ c) = Inr (x, c)"
  by (simp add: cur_u16_def cur_le_bytes)

lemma cur_u32_le [codec_simps]: "x < 2 ^ 32 \<Longrightarrow> cur_u32 (u32_le x @ c) = Inr (x, c)"
  by (simp add: cur_u32_def u32_le_def cur_le_bytes)

lemma cur_u64_le [codec_simps]: "x < 2 ^ 64 \<Longrightarrow> cur_u64 (u64_le x @ c) = Inr (x, c)"
  by (simp add: cur_u64_def u64_le_def cur_le_bytes)

lemma cur_i64_le [codec_simps]: "i64_ok t \<Longrightarrow> cur_i64 (i64_le t @ c) = Inr (t, c)"
  by (simp add: cur_i64_def cur_take_def of_i64_le)

lemma cur_f64_le [codec_simps]: "cur_f64 (f64_le_bytes v @ c) = Inr (v, c)"
proof -
  have "unat v < 2 ^ 64" using unsigned_less [of v] by simp
  then show ?thesis by (simp add: cur_f64_def cur_take_def f64_le_bytes_def of_le_u64)
qed

lemma cur_take_append [codec_simps]: "n = length b \<Longrightarrow> cur_take n (b @ c) = Inr (b, c)"
  by (simp add: cur_take_def)

text \<open>A sequence of items, each read back by its reader.\<close>

lemma cur_many_ok:
  assumes "\<And>x c. x \<in> set xs \<Longrightarrow> f (enc x @ c) = Inr (g x, c)"
  shows "cur_many f (length xs) (concat (map enc xs) @ c) = Inr (map g xs, c)"
  using assms by (induction xs) simp_all

lemma cur_many_id:
  assumes "\<And>x c. x \<in> set xs \<Longrightarrow> f (enc x @ c) = Inr (x, c)" and "n = length xs"
  shows "cur_many f n (concat (map enc xs) @ c) = Inr (xs, c)"
  using cur_many_ok [of xs f enc "\<lambda>x. x" c] assms by simp

lemma run_offsets_le: "x \<in> set (run_offsets off ls) \<Longrightarrow> x \<le> off + sum_list ls"
proof (induction ls arbitrary: off)
  case (Cons l ls)
  from Cons.prems consider "x = off" | "x \<in> set (run_offsets (off + l) ls)" by auto
  then show ?case using Cons.IH [of "off + l"] by cases (simp_all add: add.assoc)
qed simp

lemma cur_offsets:
  assumes "sum_list ls < 2 ^ 64" and "n = length ls + 1"
  shows "cur_many cur_u64 n (concat (map u64_le (run_offsets 0 ls)) @ c) = Inr (run_offsets 0 ls, c)"
proof (rule cur_many_id)
  show "cur_u64 (u64_le x @ c) = Inr (x, c)" if "x \<in> set (run_offsets 0 ls)" for x c
    using run_offsets_le [OF that] assms(1) by (intro cur_u64_le) simp
qed (simp add: assms)

section \<open>Strings\<close>

lemma length_concat_bytes: "length (concat bs) = sum_list (map length bs)"
  by (simp add: length_concat)

lemma decode_encode_strings:
  assumes "\<forall>s \<in> set ss. str_ok s" and "length ss < 2 ^ 32" and "length (concat (map as_bytes ss)) < 2 ^ 64"
  shows "decode_strings (encode_strings (map as_bytes ss)) =
           Inr (concat (map as_bytes ss), run_offsets 0 (map length (map as_bytes ss)))"
proof -
  let ?ls = "map length (map as_bytes ss)"
  have sum: "sum_list ?ls = length (concat (map as_bytes ss))" by (simp only: length_concat)
  have "from_utf8 (as_bytes (concat ss)) = Some (concat ss)"
    using assms(1) by (intro from_utf8_as_bytes str_ok_concat) (simp add: list_all_iff)
  then have u: "from_utf8 (concat (map as_bytes ss)) = Some (concat ss)" by (simp add: as_bytes_concat)
  have c: "cur_many cur_u64 (length ss + 1) (concat (map u64_le (run_offsets 0 ?ls)) @ concat (map as_bytes ss)) =
      Inr (run_offsets 0 ?ls, concat (map as_bytes ss))"
    using assms(3) sum by (intro cur_offsets) simp_all
  have "decode_strings (encode_strings (map as_bytes ss)) =
      and_then (cur_many cur_u64 (length ss + 1) (concat (map u64_le (run_offsets 0 ?ls)) @ concat (map as_bytes ss)))
        (\<lambda>(offsets, blob).
          if last offsets \<noteq> length blob then Inl (seg_corrupt ''string blob length mismatch'')
          else and_then (ok_or (from_utf8 blob) (seg_corrupt ''non-utf8 string column'')) (\<lambda>_. Inr (blob, offsets)))"
    unfolding decode_strings_def encode_strings_def length_map append_assoc cur_u32_le [OF assms(2)] by simp
  then show ?thesis unfolding c using u sum by (simp add: run_offsets_last ok_or_def del: map_map)
qed

section \<open>Bitmaps\<close>

lemma length_fold_set_bit [simp]: "length (fold set_row_bit is p) = length p"
  by (induction "is" arbitrary: p) (simp_all add: set_row_bit_def)

lemma length_bitmap [simp]: "length (bitmap n P) = (n + 7) div 8"
  by (simp add: bitmap_def)

lemma set_row_bit_nth:
  assumes "i div 8 < length p" and "j div 8 < length p"
  shows "bit (set_row_bit i p ! (j div 8)) (j mod 8) \<longleftrightarrow> bit (p ! (j div 8)) (j mod 8) \<or> i = j"
proof (cases "i div 8 = j div 8")
  case True
  then have "i = j \<longleftrightarrow> i mod 8 = j mod 8" by (metis div_mult_mod_eq)
  with True assms show ?thesis
    by (auto simp: set_row_bit_def bit_or_iff bit_exp_iff)
next
  case False
  with assms show ?thesis by (auto simp: set_row_bit_def nth_list_update)
qed

lemma fold_set_bit:
  "(\<forall>i \<in> set is. i div 8 < length p) \<Longrightarrow> j div 8 < length p \<Longrightarrow>
     bit (fold set_row_bit is p ! (j div 8)) (j mod 8) \<longleftrightarrow> bit (p ! (j div 8)) (j mod 8) \<or> j \<in> set is"
proof (induction "is" arbitrary: p)
  case (Cons i "is")
  have "length (set_row_bit i p) = length p" by (simp add: set_row_bit_def)
  with Cons show ?case by (auto simp: set_row_bit_nth)
qed simp

lemma bitmap_bit:
  assumes "j < n"
  shows "bit (bitmap n P ! (j div 8)) (j mod 8) \<longleftrightarrow> P j"
proof -
  have "i div 8 < (n + 7) div 8" if "i < n" for i using that by linarith
  with assms show ?thesis unfolding bitmap_def by (subst fold_set_bit) auto
qed

lemma row_bit_iff: "row_bit p i \<longleftrightarrow> bit (p ! (i div 8)) (i mod 8)"
  by (simp add: row_bit_def and_one_eq bit_iff_odd_drop_bit mod_2_eq_odd)

lemma row_flag_iff: "row_flag p i \<longleftrightarrow> bit (p ! (i div 8)) (i mod 8)"
  by (simp add: row_flag_def bit_iff_and_push_bit_not_eq_0)

lemma row_bit_bitmap: "j < n \<Longrightarrow> row_bit (bitmap n P) j \<longleftrightarrow> P j"
  by (simp add: row_bit_iff bitmap_bit)

lemma row_flag_bitmap: "j < n \<Longrightarrow> row_flag (bitmap n P @ c) j \<longleftrightarrow> P j"
proof -
  assume j: "j < n"
  then have "j div 8 < (n + 7) div 8" by linarith
  with j show ?thesis by (simp add: row_flag_iff nth_append bitmap_bit)
qed

section \<open>Timestamps and payload offsets\<close>

lemma length_concat_const: "(\<And>x. x \<in> set xs \<Longrightarrow> length (f x) = k) \<Longrightarrow> length (concat (map f xs)) = k * length xs"
  by (induction xs) simp_all

lemma length_concat_member: "x \<in> set xs \<Longrightarrow> length (f x) \<le> length (concat (map f xs))"
  by (induction xs) auto

lemma decode_encode_timestamps:
  assumes "\<forall>r \<in> set rs. i64_ok (rec_timestamp r)"
  shows "decode_timestamps (concat (map (\<lambda>r. i64_le (rec_timestamp r)) rs)) (length rs) = Inr (map rec_timestamp rs)"
proof -
  have "cur_many cur_i64 (length rs) (concat (map (\<lambda>r. i64_le (rec_timestamp r)) rs) @ []) = Inr (map rec_timestamp rs, [])"
    by (rule cur_many_ok) (simp add: assms cur_i64_le)
  moreover have "length (concat (map (\<lambda>r. i64_le (rec_timestamp r)) rs)) = length rs * 8"
    by (subst length_concat_const [where k = 8]) simp_all
  ultimately show ?thesis by (simp add: decode_timestamps_def)
qed

section \<open>Label columns\<close>

lemma cur_dict_value_le:
  "str_ok v \<Longrightarrow> length (as_bytes v) < 2 ^ 32 \<Longrightarrow>
     cur_dict_value ((u32_le (length (as_bytes v)) @ as_bytes v) @ c) = Inr (v, c)"
  unfolding cur_dict_value_def append_assoc
  by (simp add: cur_u32_le cur_take_append from_utf8_as_bytes ok_or_def)

lemma decode_encode_dict:
  assumes "\<forall>v \<in> set dict. str_ok v \<and> length (as_bytes v) < 2 ^ 32" and "length dict < 2 ^ 32"
    and "\<forall>c \<in> set codes. c < 65536"
  shows "decode_label_column
           ([0] @ u32_le (length dict) @ concat (map (\<lambda>v. u32_le (length (as_bytes v)) @ as_bytes v) dict) @
            concat (map (le_bytes 2) codes)) (length codes) =
         Inr (LabelDict dict (dict_codes dict) codes)"
proof -
  let ?d = "concat (map (\<lambda>v. u32_le (length (as_bytes v)) @ as_bytes v) dict)" and ?c = "concat (map (le_bytes 2) codes)"
  have d: "cur_many cur_dict_value (length dict) (?d @ ?c) = Inr (dict, ?c)"
    by (rule cur_many_id) (use assms(1) cur_dict_value_le in blast, simp)
  have c: "cur_many cur_u16 (length codes) (?c @ []) = Inr (codes, [])"
    by (rule cur_many_id) (simp_all add: assms(3) cur_u16_le)
  show ?thesis
    using c unfolding decode_label_column_def append_Cons append_Nil list.case cur_u32_le [OF assms(2)]
    by (simp add: d)
qed

text \<open>The present rows take the strings of the blob in turn.\<close>

lemma plain_values_ok:
  assumes "\<forall>i \<in> set is. P i \<longleftrightarrow> g i \<noteq> None"
    and "\<forall>k < length (List.map_filter g is).
           str_slice blob (offs ! (pi + k)) (offs ! (pi + k + 1)) = List.map_filter g is ! k"
  shows "plain_values P blob offs pi is = (map g is, pi + length (List.map_filter g is))"
  using assms
proof (induction "is" arbitrary: pi)
  case (Cons i "is")
  show ?case
  proof (cases "g i")
    case None
    then have "plain_values P blob offs pi is = (map g is, pi + length (List.map_filter g is))"
      using Cons by (intro Cons.IH) simp_all
    with None Cons.prems(1) show ?thesis by simp
  next
    case (Some v)
    have "plain_values P blob offs (pi + 1) is = (map g is, pi + 1 + length (List.map_filter g is))"
    proof (rule Cons.IH)
      show "\<forall>k < length (List.map_filter g is).
          str_slice blob (offs ! (pi + 1 + k)) (offs ! (pi + 1 + k + 1)) = List.map_filter g is ! k"
      proof (intro allI impI)
        fix k assume "k < length (List.map_filter g is)"
        then show "str_slice blob (offs ! (pi + 1 + k)) (offs ! (pi + 1 + k + 1)) = List.map_filter g is ! k"
          using Cons.prems(2) [rule_format, of "Suc k"] Some by simp
      qed
    qed (use Cons.prems(1) in simp)
    moreover have "str_slice blob (offs ! pi) (offs ! (pi + 1)) = v"
      using Cons.prems(2) [rule_format, of 0] Some by simp
    ultimately show ?thesis using Some Cons.prems(1) by simp
  qed
qed simp

lemma map_filter_rows: "List.map_filter (\<lambda>i. g (rs ! i)) [0..<length rs] = List.map_filter g rs"
proof -
  have "map (\<lambda>i. g (rs ! i)) [0..<length rs] = map g rs" by (intro nth_equalityI) simp_all
  moreover have "List.map_filter f xs = List.map_filter (\<lambda>x. x) (map f xs)" for f :: "'b \<Rightarrow> 'a option" and xs
    by (induction xs) (simp_all split: option.splits)
  moreover have "List.map_filter f xs = List.map_filter (\<lambda>x. x) (map f xs)" for f :: "nat \<Rightarrow> 'a option" and xs
    by (induction xs) (simp_all split: option.splits)
  ultimately show ?thesis by metis
qed

lemma map_filter_length: "length (List.map_filter f xs) \<le> length xs"
  by (induction xs) (auto split: option.splits)

lemma set_map_filter_Some: "v \<in> set (List.map_filter f xs) \<Longrightarrow> \<exists>x \<in> set xs. f x = Some v"
  by (induction xs) (auto split: option.splits)

lemma decode_encode_plain:
  fixes get :: "Record \<Rightarrow> rstr option"
  assumes "\<forall>r \<in> set rs. \<forall>v. get r = Some v \<longrightarrow> str_ok v" and "length rs < 2 ^ 32"
    and "length (concat (map as_bytes (List.map_filter get rs))) < 2 ^ 64"
  shows "decode_label_column
           ([1] @ bitmap (length rs) (\<lambda>i. get (rs ! i) \<noteq> None) @ encode_strings (map as_bytes (List.map_filter get rs)))
           (length rs) = Inr (LabelPlain (map get rs))"
proof -
  let ?n = "length rs" and ?ss = "List.map_filter get rs"
  let ?b = "bitmap ?n (\<lambda>i. get (rs ! i) \<noteq> None)" and ?offs = "run_offsets 0 (map length (map as_bytes ?ss))"
  have ok: "\<forall>s \<in> set ?ss. str_ok s" using assms(1) set_map_filter_Some by fastforce
  have d: "decode_strings (encode_strings (map as_bytes ?ss)) = Inr (concat (map as_bytes ?ss), ?offs)"
    using assms(2,3) map_filter_length [of get rs] by (intro decode_encode_strings ok) simp_all
  have t: "cur_take ((?n + 7) div 8) (?b @ c) = Inr (?b, c)" for c by (simp add: cur_take_append)
  have "plain_values (row_bit ?b) (concat (map as_bytes ?ss)) ?offs 0 [0..<?n] =
      (map (\<lambda>i. get (rs ! i)) [0..<?n], 0 + length (List.map_filter (\<lambda>i. get (rs ! i)) [0..<?n]))"
  proof (rule plain_values_ok)
    show "\<forall>k < length (List.map_filter (\<lambda>i. get (rs ! i)) [0..<?n]).
        str_slice (concat (map as_bytes ?ss)) (?offs ! (0 + k)) (?offs ! (0 + k + 1)) =
          List.map_filter (\<lambda>i. get (rs ! i)) [0..<?n] ! k"
      using str_slice_concat [OF _ ok] unfolding map_filter_rows by simp
  qed (simp add: row_bit_bitmap)
  moreover have "map (\<lambda>i. get (rs ! i)) [0..<?n] = map get rs" by (intro nth_equalityI) simp_all
  ultimately have p: "plain_values (row_bit ?b) (concat (map as_bytes ?ss)) ?offs 0 [0..<?n] = (map get rs, length ?ss)"
    by (simp add: map_filter_rows del: map_map)
  show ?thesis
    unfolding decode_label_column_def append_Cons append_Nil list.case
    by (simp add: t d p del: map_map and_then_Inr_iff not_None_eq)
qed

text \<open>A label column is read back as it was planned.\<close>

lemma decode_encode_label:
  assumes ok: "\<forall>r \<in> set rs. record_ok r" and n: "length rs < 2 ^ 32"
    and len: "length (encode_label_column rs (label_plan rs name)) < 2 ^ 32"
  shows "decode_label_column (encode_label_column rs (label_plan rs name)) (length rs) =
           Inr (label_column rs (label_plan rs name))"
proof (cases "length (label_values rs name) \<le> DICT_MAX")
  case True
  let ?d = "label_values rs name" and ?c = "plan_codes rs name"
  have enc: "encode_label_column rs (label_plan rs name) =
      [0] @ u32_le (length ?d) @ concat (map (\<lambda>v. u32_le (length (as_bytes v)) @ as_bytes v) ?d) @ concat (map (le_bytes 2) ?c)"
    using True by (simp add: encode_label_column_def label_plan_eq)
  have "str_ok v \<and> length (as_bytes v) < 2 ^ 32" if v: "v \<in> set ?d" for v
  proof -
    from v ok have "str_ok v" by (auto simp: set_label_values record_ok_def)
    moreover have "length (u32_le (length (as_bytes v)) @ as_bytes v) \<le>
        length (concat (map (\<lambda>v. u32_le (length (as_bytes v)) @ as_bytes v) ?d))"
      using v by (rule length_concat_member)
    with len have "length (as_bytes v) < 2 ^ 32" by (simp add: enc)
    ultimately show ?thesis ..
  qed
  moreover have "\<forall>c \<in> set ?c. c < 65536" using plan_codes_bound [OF True] True by (fastforce simp: DICT_MAX_def)
  moreover have "length ?d < 2 ^ 32" using True by (simp add: DICT_MAX_def)
  ultimately have "decode_label_column (encode_label_column rs (label_plan rs name)) (length ?c) =
      Inr (LabelDict ?d (dict_codes ?d) ?c)"
    unfolding enc by (intro decode_encode_dict) blast+
  then show ?thesis using True by (simp add: label_column_def label_plan_eq)
next
  case False
  let ?get = "\<lambda>r. fmlookup (rec_labels r) name"
  have enc: "encode_label_column rs (label_plan rs name) =
      [1] @ bitmap (length rs) (\<lambda>i. ?get (rs ! i) \<noteq> None) @ encode_strings (map as_bytes (List.map_filter ?get rs))"
    using False by (simp add: encode_label_column_def label_plan_eq)
  have "length (concat (map as_bytes (List.map_filter ?get rs))) \<le> length (encode_label_column rs (label_plan rs name))"
    unfolding enc by (simp add: encode_strings_def)
  with len have b: "length (concat (map as_bytes (List.map_filter ?get rs))) < 2 ^ 64" by simp
  have s: "\<forall>r \<in> set rs. \<forall>v. ?get r = Some v \<longrightarrow> str_ok v" using ok by (auto simp: record_ok_def)
  from decode_encode_plain [OF s n b] show ?thesis
    unfolding enc using False by (simp add: label_column_def label_plan_eq del: not_None_eq)
qed

section \<open>Numeric columns\<close>

lemma numeric_values_ok:
  "numeric_values (map (\<lambda>r. get r \<noteq> None) rs) (concat (map f64_le_bytes (List.map_filter get rs)) @ c) =
     Inr (map (\<lambda>r. case get r of None \<Rightarrow> f64_NAN | Some v \<Rightarrow> v) rs)"
  by (induction rs) (auto simp: cur_f64_le split: option.splits)

lemma decode_encode_numeric:
  "decode_numeric_column (encode_numeric_column rs name) (length rs) = Inr (numeric_column rs name)"
proof -
  let ?get = "\<lambda>r. fmlookup (rec_numerics r) name" and ?n = "length rs"
  let ?b = "bitmap ?n (\<lambda>i. ?get (rs ! i) \<noteq> None)"
  have "map (row_bit ?b) [0..<?n] = map (\<lambda>i. ?get (rs ! i) \<noteq> None) [0..<?n]" by (simp add: row_bit_bitmap)
  also have "\<dots> = map (\<lambda>r. ?get r \<noteq> None) rs" by (intro nth_equalityI) simp_all
  finally have p: "map (row_bit ?b) [0..<?n] = map (\<lambda>r. ?get r \<noteq> None) rs" .
  have t: "cur_take ((?n + 7) div 8) (?b @ c) = Inr (?b, c)" for c by (simp add: cur_take_append)
  show ?thesis
    unfolding decode_numeric_column_def encode_numeric_column_def t
    using numeric_values_ok [of ?get rs "[]"]
    by (simp add: p numeric_column_def del: not_None_eq and_then_Inr_iff)
qed

section \<open>Offset tables and rows in a blob\<close>

lemma monotonic_run_offsets: "monotonic (run_offsets off ls)"
proof (induction ls arbitrary: off)
  case (Cons l ls)
  then show ?case using Cons [of "off + l"] by (cases ls) simp_all
qed simp

lemma check_run_offsets: "check_offsets what (run_offsets 0 ls) (sum_list ls) = Inr ()"
proof -
  have "run_offsets 0 ls ! 0 = 0" by (cases ls) simp_all
  then show ?thesis by (simp add: check_offsets_def monotonic_run_offsets run_offsets_last)
qed

text \<open>Row \<open>i\<close> of a blob that lies \<open>base\<close> bytes into a file.\<close>

lemma blob_row:
  assumes "i < length items" and "f = a @ concat items @ b" and "length a = base"
  shows "read_at f (base + run_offsets 0 (map length items) ! i)
           (run_offsets 0 (map length items) ! (i + 1) - run_offsets 0 (map length items) ! i) = Inr (items ! i)"
    and "length f < 2 ^ 64 \<Longrightarrow> seg_slice f (base + run_offsets 0 (map length items) ! i)
           (run_offsets 0 (map length items) ! (i + 1) - run_offsets 0 (map length items) ! i) = Inr (items ! i)"
proof -
  let ?ls = "map length items"
  have len: "run_offsets 0 ?ls ! (i + 1) - run_offsets 0 ?ls ! i = length (items ! i)"
    using assms(1) run_offsets_diff [of i ?ls 0] by simp
  have off: "run_offsets 0 ?ls ! i = sum_list (map length (take i items))"
    using assms(1) by (simp add: run_offsets_nth take_map)
  have split: "items = take i items @ items ! i # drop (Suc i) items" using assms(1) by (rule id_take_nth_drop)
  have "length (concat items) = sum_list (map length (take i items)) + length (items ! i) + length (concat (drop (Suc i) items))"
    by (subst split) (simp add: length_concat)
  then have bound: "base + run_offsets 0 ?ls ! i + length (items ! i) \<le> length f" using assms(2,3) by (simp add: off)
  have "concat items = concat (take i items) @ items ! i @ concat (drop (Suc i) items)" by (subst split) simp
  moreover have "length (concat (take i items)) = run_offsets 0 ?ls ! i" by (simp add: off length_concat)
  ultimately have row: "take (length (items ! i)) (drop (base + run_offsets 0 ?ls ! i) f) = items ! i"
    using assms(2,3) by simp
  show "read_at f (base + run_offsets 0 ?ls ! i) (run_offsets 0 ?ls ! (i + 1) - run_offsets 0 ?ls ! i) = Inr (items ! i)"
    unfolding len using bound row by (simp add: read_at_def)
  show "seg_slice f (base + run_offsets 0 ?ls ! i) (run_offsets 0 ?ls ! (i + 1) - run_offsets 0 ?ls ! i) = Inr (items ! i)"
    if "length f < 2 ^ 64" unfolding len using bound row that by (simp add: seg_slice_def)
qed

section \<open>Texts\<close>

definition stored_texts :: "('x) seg_ext_scheme \<Rightarrow> Record list \<Rightarrow> byte list list" where
  "stored_texts X rs = map (\<lambda>r. snd (store_text X (rec_text r))) rs"

definition text_header :: "('x) seg_ext_scheme \<Rightarrow> Record list \<Rightarrow> byte list" where
  "text_header X rs =
     bitmap (length rs) (\<lambda>i. rec_text (rs ! i) \<noteq> None) @
     bitmap (length rs) (\<lambda>i. fst (store_text X (rec_text (rs ! i)))) @
     concat (map u64_le (run_offsets 0 (map length (stored_texts X rs))))"

definition text_index :: "('x) seg_ext_scheme \<Rightarrow> Record list \<Rightarrow> nat \<Rightarrow> TextIndex" where
  "text_index X rs base =
     \<lparr> ti_abs_base = base, ti_present = map (\<lambda>r. rec_text r \<noteq> None) rs,
       ti_rel = run_offsets 0 (map length (stored_texts X rs)),
       ti_compressed = Some (map (\<lambda>r. fst (store_text X (rec_text r))) rs) \<rparr>"

lemma encode_texts_eq:
  "encode_texts X rs = u32_le TEXT_V2_VERSION @ text_header X rs @ concat (stored_texts X rs)"
proof -
  have "bitmap (length rs) (\<lambda>i. fst (map (\<lambda>r. store_text X (rec_text r)) rs ! i)) =
      bitmap (length rs) (\<lambda>i. fst (store_text X (rec_text (rs ! i))))"
    unfolding bitmap_def by (rule arg_cong [where f = "\<lambda>l. fold set_row_bit l _"]) (rule filter_cong, simp_all)
  then show ?thesis by (simp add: encode_texts_def text_header_def stored_texts_def Let_def comp_def)
qed

lemma length_text_header: "length (text_header X rs) = (length rs + 7) div 8 * 2 + 8 * (length rs + 1)"
  by (simp add: text_header_def stored_texts_def length_concat_const [where k = 8])

lemma rows_map: "map (\<lambda>i. g (rs ! i)) [0..<length rs] = map g rs"
  by (intro nth_equalityI) simp_all

lemma decode_text_header_v2:
  assumes "length (concat (stored_texts X rs)) < 2 ^ 64"
  shows "decode_text_v2_header (text_header X rs) (length rs) base (length (concat (stored_texts X rs))) =
           Inr (text_index X rs base)"
proof -
  let ?n = "length rs" and ?ls = "map length (stored_texts X rs)"
  let ?p = "bitmap ?n (\<lambda>i. rec_text (rs ! i) \<noteq> None)" and ?z = "bitmap ?n (\<lambda>i. fst (store_text X (rec_text (rs ! i))))"
  let ?o = "concat (map u64_le (run_offsets 0 ?ls))"
  have sum: "sum_list ?ls = length (concat (stored_texts X rs))" by (simp add: length_concat)
  have present: "map (row_flag (text_header X rs)) [0..<?n] = map (\<lambda>r. rec_text r \<noteq> None) rs"
    unfolding text_header_def rows_map [of "\<lambda>r. rec_text r \<noteq> None", symmetric] by (simp add: row_flag_bitmap)
  have "drop ((?n + 7) div 8) (text_header X rs) = ?z @ ?o" by (simp add: text_header_def)
  then have compressed: "map (row_flag (drop ((?n + 7) div 8) (text_header X rs))) [0..<?n] =
      map (\<lambda>r. fst (store_text X (rec_text r))) rs"
    unfolding rows_map [of "\<lambda>r. fst (store_text X (rec_text r))", symmetric] by (simp add: row_flag_bitmap)
  have "drop ((?n + 7) div 8 * 2) (text_header X rs) = ?o @ []" by (simp add: text_header_def)
  moreover have "cur_many cur_u64 (?n + 1) (?o @ []) = Inr (run_offsets 0 ?ls, [])"
    using assms sum by (intro cur_offsets) (simp_all add: stored_texts_def)
  ultimately have offs: "cur_many cur_u64 (?n + 1) (drop ((?n + 7) div 8 * 2) (text_header X rs)) = Inr (run_offsets 0 ?ls, [])"
    by simp
  have none: "\<not> list_ex (\<lambda>(c, p). c \<and> \<not> p) (zip (map (\<lambda>r. fst (store_text X (rec_text r))) rs) (map (\<lambda>r. rec_text r \<noteq> None) rs))"
    by (auto simp: list_ex_iff in_set_zip store_text_def)
  show ?thesis
    unfolding decode_text_v2_header_def Let_def present compressed offs sum [symmetric] if_not_P [OF none]
    by (simp add: length_text_header text_index_def check_run_offsets)
qed

lemma decode_encode_texts:
  assumes "length (encode_texts X rs) < 2 ^ 32"
  shows "decode_text_v2 (encode_texts X rs) (length rs) base =
           Inr (text_index X rs (base + 4 + ((length rs + 7) div 8 * 2 + 8 * (length rs + 1))))"
proof -
  have len: "length (text_header X rs) + length (concat (stored_texts X rs)) < 2 ^ 32"
    using assms unfolding encode_texts_eq by simp
  then have h: "\<not> 2 ^ 64 \<le> (length rs + 7) div 8 * 2 + 8 * (length rs + 1)" unfolding length_text_header by simp
  have v: "cur_u32 (encode_texts X rs) = Inr (TEXT_V2_VERSION, text_header X rs @ concat (stored_texts X rs))"
    unfolding encode_texts_eq by (rule cur_u32_le) (simp add: TEXT_V2_VERSION_def)
  have t: "cur_take ((length rs + 7) div 8 * 2 + 8 * (length rs + 1)) (text_header X rs @ concat (stored_texts X rs)) =
      Inr (text_header X rs, concat (stored_texts X rs))"
    by (rule cur_take_append) (simp add: length_text_header)
  have "length (concat (stored_texts X rs)) < 2 ^ 64" using len by simp
  from decode_text_header_v2 [OF this] show ?thesis
    by (simp only: decode_text_v2_def v and_then.simps prod.case Let_def if_not_P [OF h] t simp_thms if_False)
qed

text \<open>What the code relies on of MessagePack, the checksum and the deflate codec.\<close>

definition codec_rmp_ok :: "('x) codec_ext_scheme \<Rightarrow> bool" where
  "codec_rmp_ok X \<longleftrightarrow>
     (\<forall>bs b. rmp_blocks_to_vec X bs = Inr b \<longrightarrow> rmp_blocks_from_slice X b = Inr bs) \<and>
     (\<forall>d b. rmp_dir_to_vec X d = Inr b \<longrightarrow> rmp_dir_from_slice X b = Inr d) \<and>
     (\<forall>b. crc32_hash X b < 2 ^ 32) \<and>
     (\<forall>b. flate_deflate X b \<noteq> [] \<and> flate_inflate X (flate_deflate X b) = Some b)"

lemma decode_stored_text:
  assumes "codec_rmp_ok X" and "record_ok (rs ! i)" and "i < length rs" and "rec_text (rs ! i) = Some t"
  shows "decode_row_text X (text_index X rs base) i (stored_texts X rs ! i) = Inr t"
    and "stored_texts X rs ! i = [] \<Longrightarrow> t = []"
proof -
  have u: "from_utf8 (as_bytes t) = Some t" using assms(2,4) by (intro from_utf8_as_bytes) (simp add: record_ok_def)
  have z: "flate_deflate X b \<noteq> []" "flate_inflate X (flate_deflate X b) = Some b" for b
    using assms(1) by (simp_all add: codec_rmp_ok_def)
  have s: "stored_texts X rs ! i = snd (store_text X (Some t))"
    "row_compressed (text_index X rs base) i = fst (store_text X (Some t))"
    using assms(3,4) by (simp_all add: stored_texts_def row_compressed_def text_index_def)
  show "decode_row_text X (text_index X rs base) i (stored_texts X rs ! i) = Inr t"
    by (auto simp: decode_row_text_def s store_text_def Let_def z u ok_or_def)
  have "as_bytes t = [] \<Longrightarrow> t = []" using u from_utf8_as_bytes [of "[]"] by (simp add: str_ok_def)
  then show "stored_texts X rs ! i = [] \<Longrightarrow> t = []"
    using z by (auto simp: s store_text_def Let_def split: if_splits)
qed

lemma text_at_file:
  assumes X: "codec_rmp_ok X" and ok: "record_ok (rs ! i)" and i: "i < length rs"
    and f: "f = a @ concat (stored_texts X rs) @ b" "length a = base"
    and c: "sc_texts c = Some (TextsFile (text_index X rs base))"
  shows "text_at X (Some f) c i = Inr (rec_text (rs ! i))"
proof (cases "rec_text (rs ! i)")
  case None
  then show ?thesis using i by (simp add: text_at_def c text_index_def)
next
  case (Some t)
  let ?ti = "text_index X rs base"
  have i': "i < length (stored_texts X rs)" using i by (simp add: stored_texts_def)
  have len: "ti_rel ?ti ! (i + 1) - ti_rel ?ti ! i = length (stored_texts X rs ! i)"
    using run_offsets_diff [of i "map length (stored_texts X rs)" 0] i' by (simp add: text_index_def)
  have row: "read_at f (ti_abs_base ?ti + ti_rel ?ti ! i) (ti_rel ?ti ! (i + 1) - ti_rel ?ti ! i) = Inr (stored_texts X rs ! i)"
    using blob_row(1) [OF i' f] by (simp add: text_index_def)
  have p: "ti_present ?ti ! i" using i Some by (simp add: text_index_def)
  note d1 = decode_stored_text(1) [OF X ok i Some, of base] and d2 = decode_stored_text(2) [OF X ok i Some]
  show ?thesis
  proof (cases "stored_texts X rs ! i = []")
    case True
    then show ?thesis using len p d2 Some by (simp add: text_at_def c Let_def)
  next
    case False
    then have "ti_rel ?ti ! (i + 1) - ti_rel ?ti ! i \<noteq> 0" using len by simp
    then show ?thesis
      unfolding text_at_def c option.case Texts.case Let_def using p row d1 Some by (simp add: ok_or_def)
  qed
qed

section \<open>Varints and posting lists\<close>

lemma or_shifted:
  assumes "v < 2 ^ s"
  shows "v OR push_bit s x = v + push_bit s (x :: nat)"
proof -
  have "v AND push_bit s x = 0"
  proof (rule bit_eqI)
    fix n
    have "\<not> bit v n" if "s \<le> n"
    proof -
      have "v < 2 ^ n" using assms that by (meson order_less_le_trans one_le_numeral power_increasing)
      then show ?thesis by (simp add: bit_iff_odd)
    qed
    then show "bit (v AND push_bit s x) n = bit (0 :: nat) n" by (auto simp: bit_and_iff bit_push_bit_iff)
  qed
  then show ?thesis by (simp add: disjunctive_add_eq_or)
qed

lemma varint_byte:
  assumes "y < 128"
  shows "unat ((word_of_nat y :: byte) AND 0x7f) = y" and "(word_of_nat y :: byte) AND 0x80 = 0"
    and "unat (((word_of_nat y :: byte) OR 0x80) AND 0x7f) = y" and "((word_of_nat y :: byte) OR 0x80) AND 0x80 \<noteq> 0"
proof -
  have "\<forall>y \<in> set [0..<128]. unat ((word_of_nat y :: byte) AND 0x7f) = y \<and> (word_of_nat y :: byte) AND 0x80 = 0 \<and>
      unat (((word_of_nat y :: byte) OR 0x80) AND 0x7f) = y \<and> ((word_of_nat y :: byte) OR 0x80) AND 0x80 \<noteq> 0"
    by code_simp
  with assms show "unat ((word_of_nat y :: byte) AND 0x7f) = y" "(word_of_nat y :: byte) AND 0x80 = 0"
    "unat (((word_of_nat y :: byte) OR 0x80) AND 0x7f) = y" "((word_of_nat y :: byte) OR 0x80) AND 0x80 \<noteq> 0"
    by auto
qed

lemma varint_loop_push:
  "v < 2 ^ s \<Longrightarrow> x < 2 ^ (32 - s) \<Longrightarrow> s < 32 \<Longrightarrow> varint_loop v s (varint_push x @ c) = Inr (v + push_bit s x, c)"
proof (induction x arbitrary: v s rule: varint_push.induct)
  case (1 x)
  let ?y = "x mod 128"
  have y: "?y < 128" by simp
  have x: "push_bit s x < 2 ^ 32"
  proof -
    have "x * 2 ^ s < 2 ^ (32 - s) * 2 ^ s" using "1.prems"(2) by simp
    also have "\<dots> = 2 ^ 32" using "1.prems"(3) by (simp flip: power_add)
    finally show ?thesis by (simp add: push_bit_eq_mult)
  qed
  have "push_bit s ?y \<le> push_bit s x" by (simp add: push_bit_eq_mult mod_less_eq_dividend)
  then have as: "as_u32 (push_bit s ?y) = push_bit s ?y" using x by simp
  show ?case
  proof (cases "x div 128 = 0")
    case True
    then have "?y = x" by (metis div_mult_mod_eq add_0 mult_0)
    with True show ?thesis
      using varint_byte(1,2) [OF y] as or_shifted [OF "1.prems"(1)] by (subst varint_push.simps) (simp add: Let_def)
  next
    case False
    then have "128 \<le> x" by (simp add: div_eq_0_iff)
    have "s + 7 < 32"
    proof (rule ccontr)
      assume "\<not> s + 7 < 32"
      then have "(2 :: nat) ^ (32 - s) \<le> 2 ^ 7" by (intro power_increasing) simp_all
      with "1.prems"(2) \<open>128 \<le> x\<close> show False by simp
    qed
    moreover have "v + push_bit s ?y < 2 ^ (s + 7)"
    proof -
      have "v + push_bit s ?y < 2 ^ s + push_bit s ?y" using "1.prems"(1) by simp
      also have "\<dots> = 2 ^ s * (1 + ?y)" by (simp add: push_bit_eq_mult algebra_simps)
      also have "\<dots> \<le> 2 ^ s * 128" using y by (intro mult_le_mono) simp_all
      finally show ?thesis by (simp add: power_add)
    qed
    moreover have "x div 128 < 2 ^ (32 - (s + 7))"
    proof -
      have "32 - s = (32 - (s + 7)) + 7" using \<open>s + 7 < 32\<close> by simp
      then have "(2 :: nat) ^ (32 - s) = 2 ^ (32 - (s + 7)) * 2 ^ 7" by (metis power_add)
      then show ?thesis using "1.prems"(2) by (simp add: less_mult_imp_div_less)
    qed
    ultimately have IH: "varint_loop (v + push_bit s ?y) (s + 7) (varint_push (x div 128) @ c) =
        Inr (v + push_bit s ?y + push_bit (s + 7) (x div 128), c)"
      using "1.IH" [OF False] by blast
    have "push_bit s ?y + push_bit (s + 7) (x div 128) = 2 ^ s * (?y + 128 * (x div 128))"
      unfolding push_bit_eq_mult power_add by (simp only: distrib_left) simp
    also have "\<dots> = push_bit s x" by (simp add: push_bit_eq_mult)
    finally have "push_bit s ?y + push_bit (s + 7) (x div 128) = push_bit s x" .
    then show ?thesis
      using False varint_byte(3,4) [OF y] as or_shifted [OF "1.prems"(1)] IH \<open>s + 7 < 32\<close>
      by (subst varint_push.simps) (simp add: Let_def add.assoc)
  qed
qed

lemma varint_read_push [codec_simps]: "x < 2 ^ 32 \<Longrightarrow> varint_read (varint_push x @ c) = Inr (x, c)"
  using varint_loop_push [of 0 0 x c] by (simp add: varint_read_def)

lemma checked_rows_ok:
  "sorted_wrt (<) rows \<Longrightarrow> \<forall>r \<in> set rows. r < count \<and> (first \<or> prev < r) \<Longrightarrow> count \<le> 2 ^ 32 \<Longrightarrow>
     checked_rows count (length rows) first prev (encode_deltas first prev rows @ c) = Inr (rows, c)"
proof (induction rows arbitrary: first prev)
  case (Cons r rows)
  let ?d = "if first then r else r - prev"
  have r: "r < count" "first \<or> prev < r" using Cons.prems(2) by simp_all
  then have v: "varint_read (varint_push ?d @ encode_deltas False r rows @ c) = Inr (?d, encode_deltas False r rows @ c)"
    using Cons.prems(3) by (intro varint_read_push) auto
  have row: "(if first then ?d else prev + ?d) = r" using r(2) by auto
  have bad: "\<not> (\<not> first \<and> 2 ^ 32 \<le> r)" "\<not> (\<not> first \<and> ?d = 0)" "\<not> count \<le> r" using r Cons.prems(3) by auto
  have IH: "checked_rows count (length rows) False r (encode_deltas False r rows @ c) = Inr (rows, c)"
    using Cons.prems by (intro Cons.IH) auto
  show ?case
    unfolding encode_deltas.simps append_assoc length_Cons checked_rows.simps v
    by (simp only: and_then.simps prod.case Let_def row bad if_False IH)
qed simp

lemma posting_loop_ok:
  "sorted_wrt (<) rows \<Longrightarrow> \<forall>r \<in> set rows. r < 2 ^ 32 \<and> (first \<or> prev < r) \<Longrightarrow>
     posting_loop (length rows) first prev (encode_deltas first prev rows @ c) = Inr rows"
proof (induction rows arbitrary: first prev)
  case (Cons r rows)
  let ?d = "if first then r else r - prev"
  have r: "r < 2 ^ 32" "first \<or> prev < r" using Cons.prems(2) by simp_all
  then have v: "varint_read (varint_push ?d @ encode_deltas False r rows @ c) = Inr (?d, encode_deltas False r rows @ c)"
    by (intro varint_read_push) auto
  have row: "(if first then ?d else as_u32 (prev + ?d)) = r" using r by auto
  have IH: "posting_loop (length rows) False r (encode_deltas False r rows @ c) = Inr rows"
    using Cons.prems by (intro Cons.IH) auto
  show ?case
    unfolding encode_deltas.simps append_assoc length_Cons posting_loop.simps v
    by (simp only: and_then.simps prod.case Let_def row IH)
qed simp

section \<open>The token section\<close>

lemma cur_token_le:
  assumes "str_ok t" and "length (as_bytes t) < 2 ^ 32" and "case prev of None \<Rightarrow> True | Some p \<Rightarrow> p < t"
  shows "cur_token prev (u32_le (length (as_bytes t)) @ as_bytes t @ c) = Inr (t, c)"
  using assms(3)
  by (cases prev)
     (auto simp: cur_token_def cur_u32_le [OF assms(2)] cur_take_append from_utf8_as_bytes [OF assms(1)] ok_or_def
       simp del: and_then_Inr_iff)

definition dir_row :: "(rstr \<times> nat list) \<times> nat \<times> nat \<Rightarrow> rstr \<times> nat \<times> nat \<times> nat" where
  "dir_row e = (case e of ((t, rows), (off, len)) \<Rightarrow> (t, off, len, length rows))"

lemma token_dir_ok:
  "sorted_wrt (<) (map (\<lambda>e. fst (fst e)) es) \<Longrightarrow>
   \<forall>((t, rows), (off, len)) \<in> set es.
     str_ok t \<and> length (as_bytes t) < 2 ^ 32 \<and> length rows < 2 ^ 32 \<and> off < 2 ^ 32 \<and> len < 2 ^ 32 \<Longrightarrow>
   (case prev of None \<Rightarrow> True | Some p \<Rightarrow> \<forall>e \<in> set es. p < fst (fst e)) \<Longrightarrow>
     token_dir (length es) prev (concat (map token_dir_entry es) @ c) = Inr (map dir_row es, c)"
proof (induction es arbitrary: prev)
  case (Cons e es)
  obtain t rows off len where e: "e = ((t, rows), (off, len))" by (metis prod.exhaust)
  have b: "str_ok t" "length (as_bytes t) < 2 ^ 32" "length rows < 2 ^ 32" "off < 2 ^ 32" "len < 2 ^ 32"
    using Cons.prems(2) by (simp_all add: e)
  have p: "case prev of None \<Rightarrow> True | Some p \<Rightarrow> p < t" using Cons.prems(3) by (auto simp: e split: option.splits)
  have IH: "token_dir (length es) (Some t) (concat (map token_dir_entry es) @ c) = Inr (map dir_row es, c)"
    using Cons.prems(1,2) by (intro Cons.IH) (auto simp: e)
  have "token_dir_entry e =
      u32_le (length (as_bytes t)) @ as_bytes t @ u32_le (length rows) @ u32_le off @ u32_le len"
    by (simp add: e token_dir_entry_def)
  then show ?case
    by (simp add: cur_token_le [OF b(1,2) p] cur_u32_le [OF b(3)] cur_u32_le [OF b(4)] cur_u32_le [OF b(5)] IH
        dir_row_def e del: and_then_Inr_iff)
qed simp

lemma split_on_set: "w \<in> set (split_on P s) \<Longrightarrow> set w \<subseteq> set s"
proof (induction s arbitrary: w)
  case (Cons c s)
  have IH: "\<forall>w \<in> set (split_on P s). set w \<subseteq> set s" using Cons.IH by blast
  show ?case using Cons.prems IH by (cases "split_on P s") (auto split: if_splits)
qed simp

text \<open>\<^verbatim>\<open>str::to_lowercase\<close> returns a string.\<close>

definition unicode_str :: "unicode \<Rightarrow> bool" where
  "unicode_str U \<longleftrightarrow> (\<forall>s. str_ok s \<longrightarrow> str_ok (uc_lower U s))"

lemma token_str_ok:
  assumes "unicode_str U" and "str_ok s" and "t \<in> set (fts_tokens U s)"
  shows "str_ok t"
proof -
  from assms(3) obtain w where w: "w \<in> set (split_on (\<lambda>c. \<not> uc_alnum U c) s)" "t = uc_lower U w"
    by (auto simp: fts_tokens_def)
  then have "str_ok w" using split_on_set [OF w(1)] assms(2) by (auto simp: str_ok_def list_all_iff)
  with assms(1) w(2) show ?thesis by (simp add: unicode_str_def)
qed

text \<open>The tokens and posting lists of the index that is written.\<close>

lemma built_index:
  assumes "unicode_str U" and "\<forall>r \<in> set rs. record_ok r" and "length rs < 2 ^ 32"
  obtains ts pls where "token_index_build U rs = \<lparr> tki_tokens = ts, tki_postings = Eager pls \<rparr>"
    and "length pls = length ts" and "sorted_wrt (<) ts" and "\<forall>t \<in> set ts. str_ok t"
    and "pls = map (\<lambda>t. occ_rows U t rs) ts"
proof -
  let ?m = "index_rows U 0 rs fmempty"
  note L = index_rows_lookup [OF assms(3), of U]
  have eq: "token_index_build U rs = \<lparr> tki_tokens = bt_keys ?m, tki_postings = Eager (bt_values ?m) \<rparr>"
    by (simp add: token_index_build_def Let_def)
  have "bt_values ?m = map (\<lambda>t. the (fmlookup ?m t)) (bt_keys ?m)"
  proof -
    have "snd e = the (fmlookup ?m (fst e))" if "e \<in> set (bt_entries ?m)" for e
      using that by (metis in_set_bt_entries option.sel prod.collapse)
    then show ?thesis by (simp add: bt_values_def bt_keys_def)
  qed
  also have "\<dots> = map (\<lambda>t. occ_rows U t rs) (bt_keys ?m)"
    by (rule map_cong) (auto simp: L fmlookup_dom_iff split: if_splits)
  finally have vals: "bt_values ?m = map (\<lambda>t. occ_rows U t rs) (bt_keys ?m)" .
  have "str_ok t" if "t \<in> set (bt_keys ?m)" for t
  proof -
    have "occ_rows U t rs \<noteq> []" using that by (auto simp: L fmlookup_dom_iff split: if_splits)
    then obtain i where "i \<in> set (occ_rows U t rs)" by (cases "occ_rows U t rs") auto
    then have i: "i < length rs" "occurs U t (rs ! i)" by simp_all
    then obtain d where d: "rec_text (rs ! i) = Some d" "t \<in> set (fts_tokens U d)"
      by (auto simp: occurs_def split: option.splits)
    then have "str_ok d" using i(1) assms(2) by (auto simp: record_ok_def)
    with d assms(1) show ?thesis by (blast intro: token_str_ok)
  qed
  then show thesis using that [OF eq] vals by simp
qed


lemma decode_encode_tokens:
  assumes U: "unicode_str U" and ok: "\<forall>r \<in> set rs. record_ok r" and n: "length rs < 2 ^ 32"
    and len: "length (encode_tokens (token_index_build U rs)) < 2 ^ 32"
  shows "\<exists>idx. decode_tokens (encode_tokens (token_index_build U rs)) (length rs) = Inr idx \<and> index_ok U idx rs"
proof -
  obtain ts pls where b: "token_index_build U rs = \<lparr> tki_tokens = ts, tki_postings = Eager pls \<rparr>"
    and lp: "length pls = length ts" and ts: "sorted_wrt (<) ts" "\<forall>t \<in> set ts. str_ok t"
    and pls: "pls = map (\<lambda>t. occ_rows U t rs) ts"
    using built_index [OF U ok n] by blast
  define spans where "spans = map (encode_deltas True 0) pls"
  define lens where "lens = map length spans"
  define es where "es = zip (zip ts pls) (zip (run_offsets 0 lens) lens)"
  have len_es: "length es = length ts" by (simp add: es_def lens_def spans_def lp)
  have nth: "es ! j = ((ts ! j, pls ! j), (run_offsets 0 lens ! j, lens ! j))" if "j < length ts" for j
    using that by (simp add: es_def lens_def spans_def lp)
  let ?d = "concat (map token_dir_entry es)" and ?blob = "concat spans"
  have enc: "encode_tokens (token_index_build U rs) =
      u32_le TOKENS_V2_SENTINEL @ u32_le TOKENS_VERSION @ u32_le (length ts) @ ?d @ u32_le (length ?blob) @ ?blob"
    by (simp add: b encode_tokens_def Let_def es_def lens_def spans_def)
  have sum: "sum_list lens = length ?blob" by (simp add: lens_def length_concat)
  have bl: "length ?blob < 2 ^ 32" using len unfolding enc by simp
  have d16: "length (token_dir_entry e) = 16 + length (as_bytes (fst (fst e)))" for e
    by (simp add: token_dir_entry_def split: prod.splits)
  have "length ts \<le> length ?d"
  proof -
    have "length es \<le> length (concat (map token_dir_entry es'))" if "es = es'" for es'
      unfolding that by (induction es') (simp_all add: d16)
    then show ?thesis using len_es by simp
  qed
  then have nt: "length ts < 2 ^ 32" using len unfolding enc by simp
  have fits: "\<forall>((t, rows), (off, len)) \<in> set es.
      str_ok t \<and> length (as_bytes t) < 2 ^ 32 \<and> length rows < 2 ^ 32 \<and> off < 2 ^ 32 \<and> len < 2 ^ 32"
  proof (clarify, goal_cases)
    case (1 t rows off l)
    then obtain j where j: "j < length ts" "es ! j = ((t, rows), (off, l))" by (metis in_set_conv_nth len_es)
    then have e: "t = ts ! j" "rows = pls ! j" "off = run_offsets 0 lens ! j" "l = lens ! j" using nth by simp_all
    have "length (token_dir_entry ((t, rows), (off, l))) \<le> length ?d" using 1 by (intro length_concat_member)
    then have "length (as_bytes t) < 2 ^ 32" using len unfolding enc d16 by simp
    moreover have "length rows \<le> length rs" using e(2) j(1) by (simp add: pls occ_rows_def order_trans [OF length_filter_le])
    moreover have "off \<le> length ?blob" using run_offsets_le [of off 0 lens] e(3) j(1) sum by (simp add: lens_def spans_def lp)
    moreover have "l \<le> length ?blob" using e(4) j(1) lp by (simp add: lens_def length_concat spans_def member_le_sum_list)
    moreover have "str_ok t" using ts(2) e(1) j(1) by simp
    ultimately show ?case using n bl by linarith
  qed
  have "map (\<lambda>e. fst (fst e)) es = ts" by (rule nth_equalityI) (simp_all add: len_es nth)
  then have dir: "token_dir (length ts) None (?d @ c) = Inr (map dir_row es, c)" for c
    using token_dir_ok [of es None c] ts(1) fits len_es by simp
  have span: "take (lens ! j) (drop (run_offsets 0 lens ! j) ?blob) = spans ! j"
    "run_offsets 0 lens ! j + lens ! j \<le> length ?blob" if "j < length ts" for j
  proof -
    have j: "j < length spans" using that by (simp add: spans_def lp)
    have off: "run_offsets 0 lens ! j = sum_list (map length (take j spans))"
      using j by (simp add: lens_def run_offsets_nth take_map)
    then show "take (lens ! j) (drop (run_offsets 0 lens ! j) ?blob) = spans ! j"
      using slice_concat [OF j] j by (simp add: lens_def)
    have "run_offsets 0 lens ! Suc j \<le> length ?blob"
      using run_offsets_le [of "run_offsets 0 lens ! Suc j" 0 lens] j sum by (simp add: lens_def)
    moreover have "run_offsets 0 lens ! Suc j = run_offsets 0 lens ! j + lens ! j"
      using j by (simp add: run_offsets_nth lens_def take_Suc_conv_app_nth)
    ultimately show "run_offsets 0 lens ! j + lens ! j \<le> length ?blob" by simp
  qed
  have rows: "sorted_wrt (<) (pls ! j)" "\<forall>r \<in> set (pls ! j). r < length rs" if "j < length ts" for j
    using that by (simp_all add: pls)
  have spans_nth: "spans ! j = encode_deltas True 0 (pls ! j) @ []" if "j < length ts" for j
    using that by (simp add: spans_def lp)
  have chk: "check_span (length rs) ?blob (snd (dir_row (es ! j))) = Inr ()" if j: "j < length ts" for j
    using span [OF j] spans_nth [OF j] checked_rows_ok [of "pls ! j" "length rs" True 0 "[]"] rows [OF j] n
    by (simp add: check_span_def nth [OF j] dir_row_def)
  have "map_result (check_span (length rs) ?blob) (map snd (map dir_row es)) = Inr (map (\<lambda>_. ()) (map snd (map dir_row es)))"
  proof (rule map_result_Inr)
    fix x assume "x \<in> set (map snd (map dir_row es))"
    then obtain j where "j < length ts" "x = snd (dir_row (es ! j))" by (auto simp: in_set_conv_nth len_es)
    with chk show "check_span (length rs) ?blob x = Inr ()" by simp
  qed
  moreover have "cur_take (length ?blob) ?blob = Inr (?blob, [])" by (simp add: cur_take_def)
  ultimately have "decode_tokens (encode_tokens (token_index_build U rs)) (length rs) =
      Inr \<lparr> tki_tokens = map fst (map dir_row es), tki_postings = Lazy ?blob (map snd (map dir_row es)) \<rparr>"
    unfolding decode_tokens_def enc
    by (simp add: cur_u32_le TOKENS_V2_SENTINEL_def TOKENS_VERSION_def decode_tokens_v2_def cur_u32_le [OF nt] cur_u32_le [OF bl] dir
        del: and_then_Inr_iff map_map)
  moreover have "map fst (map dir_row es) = ts" by (rule nth_equalityI) (simp_all add: len_es nth dir_row_def)
  moreover have "postings_at \<lparr> tki_tokens = ts, tki_postings = Lazy ?blob (map snd (map dir_row es)) \<rparr> j = occ_rows U (ts ! j) rs"
    if j: "j < length ts" for j
  proof -
    have "posting_loop (length (pls ! j)) True 0 (encode_deltas True 0 (pls ! j) @ []) = Inr (pls ! j)"
      using rows [OF j] n by (intro posting_loop_ok) auto
    then show ?thesis
      using j by (simp add: postings_at_def nth [OF j] len_es dir_row_def span [OF j] spans_nth [OF j] decode_posting_list_def)
        (simp add: pls)
  qed
  moreover have "t \<in> set ts" if "occ_rows U t rs \<noteq> []" for t
    using token_index_build_ok [OF n, of U] that by (simp add: index_ok_def b)
  ultimately show ?thesis using ts(1) by (simp add: index_ok_def)
qed

end
