(* ===== verification/Codec_File.thy ===== *)
theory Codec_File
  imports Codec_Columns
begin

text \<open>
  A version 2 segment file reads back: the section layout and the footer, and from them that the
  whole-file reader returns the records the file was written from and that the section readers
  load columns that stand for them.
\<close>

section \<open>Layout\<close>

type_synonym seg_section = "nat \<times> rstr \<times> byte list"

definition section_bytes_of :: "('x) wal_ext_scheme \<Rightarrow> seg_section \<Rightarrow> byte list" where
  "section_bytes_of X s = (case s of (kind, name, body) \<Rightarrow> u32_le (crc32_hash X body) @ body)"

definition layout :: "('x) wal_ext_scheme \<Rightarrow> seg_section list \<Rightarrow> byte list" where
  "layout X ss = concat (map (section_bytes_of X) ss)"

text \<open>The sections with the offsets they are pushed at.\<close>

fun located :: "nat \<Rightarrow> seg_section list \<Rightarrow> (nat \<times> seg_section) list" where
  "located off [] = []"
| "located off ((kind, name, body) # ss) = (off, (kind, name, body)) # located (off + 4 + length body) ss"

definition entry_of :: "('x) wal_ext_scheme \<Rightarrow> nat \<times> seg_section \<Rightarrow> SectionEntry" where
  "entry_of X l =
     (case l of (off, (kind, name, body)) \<Rightarrow>
        \<lparr> se_kind = kind, se_name = name, se_offset = off, se_len = length body, se_crc = crc32_hash X body \<rparr>)"

lemma layout_simps [simp]:
  "layout X [] = []"
  "layout X ((kind, name, body) # ss) = u32_le (crc32_hash X body) @ body @ layout X ss"
  "layout X (a @ b) = layout X a @ layout X b"
  by (simp_all add: layout_def section_bytes_of_def)

lemma fold_push_section:
  "fold (push_section X) ss (out, dir) = (out @ layout X ss, dir @ map (entry_of X) (located (length out) ss))"
proof (induction ss arbitrary: out dir)
  case (Cons s ss)
  obtain kind name body where s: "s = (kind, name, body)" by (metis prod.exhaust)
  have "push_section X s (out, dir) =
      (out @ u32_le (crc32_hash X body) @ body, dir @ [entry_of X (length out, kind, name, body)])"
    by (simp add: s push_section_def entry_of_def)
  then show ?case by (simp add: s Cons.IH add.assoc)
qed simp

lemma located_append: "located off (a @ b) = located off a @ located (off + length (layout X a)) b"
proof (induction a arbitrary: off)
  case (Cons s a)
  obtain kind name body where s: "s = (kind, name, body)" by (metis prod.exhaust)
  show ?case by (simp add: s Cons.IH add.assoc)
qed simp

lemma set_located: "snd ` set (located off ss) = set ss"
proof (induction ss arbitrary: off)
  case (Cons s ss)
  obtain kind name body where s: "s = (kind, name, body)" by (metis prod.exhaust)
  show ?case using Cons by (simp add: s)
qed simp

text \<open>A body with its checksum, at an offset.\<close>

definition section_at :: "('x) wal_ext_scheme \<Rightarrow> byte list \<Rightarrow> nat \<Rightarrow> byte list \<Rightarrow> bool" where
  "section_at X f off body \<longleftrightarrow> (\<exists>a b. f = a @ u32_le (crc32_hash X body) @ body @ b \<and> length a = off)"

lemma located_at:
  "(off, (kind, name, body)) \<in> set (located (length a) ss) \<Longrightarrow> f = a @ layout X ss @ b \<Longrightarrow> section_at X f off body"
proof (induction ss arbitrary: a)
  case (Cons s ss)
  obtain k n bd where s: "s = (k, n, bd)" by (metis prod.exhaust)
  from Cons.prems(1) consider "off = length a" "body = bd" | "(off, (kind, name, body)) \<in> set (located (length a + 4 + length bd) ss)"
    by (auto simp: s)
  then show ?case
  proof cases
    case 1
    then show ?thesis using Cons.prems(2) unfolding section_at_def by (auto simp: s)
  next
    case 2
    have "f = (a @ u32_le (crc32_hash X bd) @ bd) @ layout X ss @ b" using Cons.prems(2) by (simp add: s)
    with 2 show ?thesis by (intro Cons.IH) (simp_all add: add.assoc)
  qed
qed simp

lemma section_reads:
  assumes "section_at X f off body" and "crc32_hash X body < 2 ^ 32" and "length f < 2 ^ 64"
  shows "seg_slice f off 4 = Inr (u32_le (crc32_hash X body))" and "seg_slice f (off + 4) (length body) = Inr body"
    and "of_le (u32_le (crc32_hash X body)) = crc32_hash X body"
    and "read_verified_body X f \<lparr> dn_offset = off, dn_len = length body, dn_crc = crc32_hash X body \<rparr> kind = Inr body"
proof -
  obtain a b where f: "f = a @ u32_le (crc32_hash X body) @ body @ b" "length a = off"
    using assms(1) by (auto simp: section_at_def)
  have len: "off + 4 + length body \<le> length f" using f by simp
  show "seg_slice f off 4 = Inr (u32_le (crc32_hash X body))" "seg_slice f (off + 4) (length body) = Inr body"
    using f len assms(3) by (simp_all add: seg_slice_def)
  show crc: "of_le (u32_le (crc32_hash X body)) = crc32_hash X body" using assms(2) by (rule of_le_u32)
  have "take (4 + length body) (drop off f) = u32_le (crc32_hash X body) @ body" using f by simp
  then show "read_verified_body X f \<lparr> dn_offset = off, dn_len = length body, dn_crc = crc32_hash X body \<rparr> kind = Inr body"
    using len assms(3) crc by (simp add: read_verified_body_def read_at_def Let_def)
qed

section \<open>Whole-file decoding of the sections\<close>

fun decode_located ::
  "('x) codec_ext_scheme \<Rightarrow> nat \<Rightarrow> (nat \<times> seg_section) list \<Rightarrow> decoded \<Rightarrow> decoded result" where
  "decode_located X count [] d = Inr d"
| "decode_located X count ((off, (kind, name, body)) # ls) d =
     and_then (decode_section X count kind name off body d) (decode_located X count ls)"

lemma decode_located_append:
  "decode_located X count (a @ b) d = and_then (decode_located X count a d) (decode_located X count b)"
proof (induction X count a d rule: decode_located.induct)
  case (2 X count off kind name body ls d)
  then show ?case by (cases "decode_section X count kind name off body d") simp_all
qed simp

lemma decode_entries_located:
  assumes "\<And>b. crc32_hash X b < 2 ^ 32" and "length f < 2 ^ 64"
    and "\<forall>(off, (kind, name, body)) \<in> set ls. section_at X f off body"
  shows "decode_entries X f count (map (entry_of X) ls) d = decode_located X count ls d"
  using assms(3)
proof (induction ls arbitrary: d)
  case (Cons l ls)
  obtain off kind name body where l: "l = (off, (kind, name, body))" by (metis prod.exhaust)
  from Cons.prems have "section_at X f off body" by (simp add: l)
  note r = section_reads [OF this assms(1,2)]
  have e: "decode_entry X f count (entry_of X l) d = decode_section X count kind name off body d"
    by (simp add: decode_entry_def l entry_of_def r del: and_then_Inr_iff)
  have "decode_entries X f count (map (entry_of X) ls) = decode_located X count ls"
    using Cons by (intro ext) (simp add: l)
  then show ?case by (simp add: e, simp add: l)
qed simp

section \<open>The footer\<close>

lemma footer_parts:
  assumes f: "f = out @ dir @ u64_le (length out) @ u32_le (crc32_hash X dir) @ u32_le MAGIC"
    and crc: "crc32_hash X dir < 2 ^ 32" and len: "length f < 2 ^ 64"
  shows "drop (length f - 4) f = u32_le MAGIC" and "take 4 (drop (length f - 8) f) = u32_le (crc32_hash X dir)"
    and "take 8 (drop (length f - 16) f) = u64_le (length out)"
    and "take (length f - 16 - length out) (drop (length out) f) = dir" and "length out + 16 \<le> length f"
    and "take 16 (drop (length f - 16) f) = u64_le (length out) @ u32_le (crc32_hash X dir) @ u32_le MAGIC"
  by (simp_all add: f)

lemma footer_reads:
  assumes X: "codec_rmp_ok X" and dir: "rmp_dir_to_vec X d = Inr dir"
    and f: "f = out @ dir @ u64_le (length out) @ u32_le (crc32_hash X dir) @ u32_le MAGIC"
    and len: "length f < 2 ^ 64" "8 \<le> length out"
  shows "decode_footer X f = Inr d"
    and "read_footer X f = Inr \<lparr> sg_count = sd_count d, sg_entries = fold put_dir_entry (sd_entries d) fmempty \<rparr>"
proof -
  have crc: "crc32_hash X dir < 2 ^ 32" and bk: "rmp_dir_from_slice X dir = Inr d"
    using X dir by (simp_all add: codec_rmp_ok_def)
  note p = footer_parts [OF f crc len(1)]
  have m: "of_le (u32_le MAGIC) = MAGIC" by (rule of_le_u32) (simp add: MAGIC_def)
  have ol: "of_le (u64_le (length out)) = length out" using p(5) len(1) by (intro of_le_u64) simp
  have c: "of_le (u32_le (crc32_hash X dir)) = crc32_hash X dir" using crc by (rule of_le_u32)
  have l: "\<not> length f < 24" "\<not> length f - 16 < length out" using p(5) len(2) by simp_all
  show "decode_footer X f = Inr d"
    by (simp only: decode_footer_def Let_def p m ol c l bk simp_thms if_False sum.case)
  have r: "read_at f (length f - 16) 16 = Inr (u64_le (length out) @ u32_le (crc32_hash X dir) @ u32_le MAGIC)"
    "read_at f (length out) (length f - 16 - length out) = Inr dir"
    using p(4,5,6) by (simp_all add: read_at_def)
  have t: "take 8 (u64_le (length out) @ u32_le (crc32_hash X dir) @ u32_le MAGIC) = u64_le (length out)"
    "take 4 (drop 8 (u64_le (length out) @ u32_le (crc32_hash X dir) @ u32_le MAGIC)) = u32_le (crc32_hash X dir)"
    "drop 12 (u64_le (length out) @ u32_le (crc32_hash X dir) @ u32_le MAGIC) = u32_le MAGIC"
    by simp_all
  show "read_footer X f = Inr \<lparr> sg_count = sd_count d, sg_entries = fold put_dir_entry (sd_entries d) fmempty \<rparr>"
    by (simp only: read_footer_def Let_def r t m ol c l bk simp_thms if_False and_then.simps sum.case)
qed

section \<open>The directory\<close>

definition sec_id :: "seg_section \<Rightarrow> nat \<times> rstr" where
  "sec_id s = (case s of (kind, name, body) \<Rightarrow> (kind, name))"

lemma map_located: "map snd (located off ss) = ss"
proof (induction ss arbitrary: off)
  case (Cons s ss)
  obtain kind name body where s: "s = (kind, name, body)" by (metis prod.exhaust)
  show ?case by (simp add: s Cons.IH)
qed simp

lemma dir_lookup:
  assumes "distinct (map sec_id ss)"
  shows "(kind, name, body) \<in> set ss \<Longrightarrow>
           \<exists>off. (off, (kind, name, body)) \<in> set (located base ss) \<and>
             fmlookup (fold put_dir_entry (map (entry_of X) (located base ss)) fmempty) (kind, name) =
               Some \<lparr> dn_offset = off, dn_len = length body, dn_crc = crc32_hash X body \<rparr>"
    and "(kind, name) \<notin> sec_id ` set ss \<Longrightarrow>
           fmlookup (fold put_dir_entry (map (entry_of X) (located base ss)) fmempty) (kind, name) = None"
proof -
  let ?ls = "located base ss" and ?id = "\<lambda>l. sec_id (snd l)"
  let ?g = "\<lambda>l :: nat \<times> seg_section. \<lparr> dn_offset = fst l, dn_len = length (snd (snd (snd l))), dn_crc = crc32_hash X (snd (snd (snd l))) \<rparr>"
  have "put_dir_entry (entry_of X l) = fmupd (?id l) (?g l)" for l
    by (auto simp: put_dir_entry_def entry_of_def sec_id_def split: prod.splits)
  then have fold: "fold put_dir_entry (map (entry_of X) ?ls) fmempty = fold (\<lambda>l. fmupd (?id l) (?g l)) ?ls fmempty"
    by (simp add: fold_map comp_def)
  have "map ?id ?ls = map sec_id (map snd ?ls)" by simp
  then have ids: "map ?id ?ls = map sec_id ss" unfolding map_located .
  then have d: "distinct (map ?id ?ls)" using assms by simp
  note L = fold_fmupd_names [OF d, of ?g fmempty]
  show "\<exists>off. (off, (kind, name, body)) \<in> set ?ls \<and>
      fmlookup (fold put_dir_entry (map (entry_of X) ?ls) fmempty) (kind, name) =
        Some \<lparr> dn_offset = off, dn_len = length body, dn_crc = crc32_hash X body \<rparr>"
    if "(kind, name, body) \<in> set ss"
  proof -
    from that have "(kind, name, body) \<in> snd ` set ?ls" by (simp add: set_located)
    then obtain off where off: "(off, (kind, name, body)) \<in> set ?ls" by force
    have "find (\<lambda>l. ?id l = (kind, name)) ?ls \<noteq> None" using off by (auto simp: find_None_iff sec_id_def)
    then obtain l where l: "find (\<lambda>l. ?id l = (kind, name)) ?ls = Some l" by blast
    then have "l \<in> set ?ls" "?id l = (kind, name)" by (auto simp: find_Some_iff)
    then have "l = (off, (kind, name, body))"
      using d off by (intro inj_onD [OF iffD1 [OF distinct_map, OF d, THEN conjunct2]]) (simp_all add: sec_id_def)
    with off l show ?thesis by (auto simp: fold L)
  qed
  show "fmlookup (fold put_dir_entry (map (entry_of X) ?ls) fmempty) (kind, name) = None" if "(kind, name) \<notin> sec_id ` set ss"
  proof -
    have "(kind, name) \<notin> set (map ?id ?ls)" using that unfolding ids set_map .
    then have "find (\<lambda>l. ?id l = (kind, name)) ?ls = None" unfolding find_None_iff set_map by (metis imageI)
    then show ?thesis by (simp add: fold L)
  qed
qed

section \<open>Columns of a file\<close>

text \<open>
  What both readers assemble: every column as it was planned, and the indexes of payloads and texts
  pointing at them in the file.
\<close>

definition any_text :: "Record list \<Rightarrow> bool" where
  "any_text rs = list_ex (\<lambda>r. rec_text r \<noteq> None) rs"

definition blob_at :: "byte list \<Rightarrow> nat \<Rightarrow> byte list list \<Rightarrow> bool" where
  "blob_at f base items \<longleftrightarrow> (\<exists>a b. f = a @ concat items @ b \<and> length a = base)"

definition key_section :: "Record list \<Rightarrow> KeysSection" where
  "key_section rs =
     \<lparr> ks_blob = concat (map (\<lambda>r. as_bytes (rec_key r)) rs),
       ks_offsets = run_offsets 0 (map (\<lambda>r. length (as_bytes (rec_key r))) rs) \<rparr>"

definition payload_index :: "Record list \<Rightarrow> nat \<Rightarrow> PayloadIndex" where
  "payload_index rs base = \<lparr> pi_abs_base = base, pi_rel = run_offsets 0 (map (\<lambda>r. length (rec_payload r)) rs) \<rparr>"

definition file_columns ::
  "unicode \<Rightarrow> ('x) seg_ext_scheme \<Rightarrow> byte list \<Rightarrow> bool \<Rightarrow> SegmentColumns \<Rightarrow> Record list \<Rightarrow> bool" where
  "file_columns U X f need c rs \<longleftrightarrow>
     sc_count c = length rs \<and> sc_keys c = key_section rs \<and> sc_timestamps c = map rec_timestamp rs \<and>
     (\<forall>k. fmlookup (sc_labels c) k =
        (if k \<in> set (label_names rs) then Some (label_column rs (label_plan rs k)) else None)) \<and>
     (\<forall>k. fmlookup (sc_numerics c) k = (if k \<in> set (numeric_names rs) then Some (numeric_column rs k) else None)) \<and>
     sc_blocks c = build_blocks rs (plan_labels rs) \<and>
     (\<exists>base. sc_payloads c = PayloadsFile (payload_index rs base) \<and> blob_at f base (map rec_payload rs)) \<and>
     (if any_text rs
      then \<exists>base. sc_texts c = Some (TextsFile (text_index X rs base)) \<and> blob_at f base (stored_texts X rs)
      else sc_texts c = None) \<and>
     tokens_ok U need (sc_tokens c) rs"

lemma payload_at_file:
  assumes "blob_at f base (map rec_payload rs)" and "i < length rs" and "sc_payloads c = PayloadsFile (payload_index rs base)"
  shows "payload_at (Some f) c i = Inr (rec_payload (rs ! i))"
proof -
  obtain a b where "f = a @ concat (map rec_payload rs) @ b" "length a = base" using assms(1) by (auto simp: blob_at_def)
  from blob_row(1) [OF _ this] assms(2,3) show ?thesis
    by (simp add: payload_at_def payload_index_def ok_or_def comp_def)
qed

lemma file_columns_ok:
  assumes X: "codec_rmp_ok X" and rs: "seg_records rs" and c: "file_columns U X f need c rs"
  shows "cols_ok U X (Some f) need c rs"
proof -
  have sorted: "sorted_wrt (<) (map rec_key rs)" and len: "length rs < 2 ^ 32" and ok: "\<forall>r \<in> set rs. record_ok r"
    using rs by (simp_all add: seg_records_def)
  have labels: "\<And>k. fmlookup (sc_labels c) k =
      (if k \<in> set (label_names rs) then Some (label_column rs (label_plan rs k)) else None)"
    and numerics: "\<And>k. fmlookup (sc_numerics c) k = (if k \<in> set (numeric_names rs) then Some (numeric_column rs k) else None)"
    using c by (simp_all add: file_columns_def)
  have key: "key_at c i = rec_key (rs ! i)" if "i < length rs" for i
    using str_slice_concat [of i "map rec_key rs"] ok that c
    by (simp add: key_at_def ks_key_at_def file_columns_def key_section_def comp_def record_ok_def)
  have texts: "texts_ok X (Some f) c rs"
  proof (cases "any_text rs")
    case False
    then show ?thesis using c by (auto simp: texts_ok_def file_columns_def any_text_def list_ex_iff text_at_def)
  next
    case True
    with c obtain base where t: "sc_texts c = Some (TextsFile (text_index X rs base))" "blob_at f base (stored_texts X rs)"
      by (auto simp: file_columns_def)
    obtain a b where "f = a @ concat (stored_texts X rs) @ b" "length a = base" using t(2) by (auto simp: blob_at_def)
    from text_at_file [OF X _ _ this t(1)] ok t(1) show ?thesis by (simp add: texts_ok_def)
  qed
  have "payloads_ok (Some f) c rs"
    using c payload_at_file by (fastforce simp: payloads_ok_def file_columns_def)
  moreover have "blocks_ok (sc_labels c) (sc_blocks c) rs"
    using blocks_ok_build [OF labels sorted len] c by (simp add: file_columns_def)
  ultimately show ?thesis
    using labels_ok_build [OF labels] numerics_ok_build [OF numerics] texts key len c
    by (simp add: cols_ok_def file_columns_def)
qed

text \<open>Reading every row of the whole file.\<close>

lemma whole_row_ok:
  assumes X: "codec_rmp_ok X" and rs: "seg_records rs" and c: "file_columns U X f need c rs"
    and pi: "sc_payloads c = PayloadsFile pi" and i: "i < length rs" and len: "length f < 2 ^ 64"
  shows "whole_row X f c pi i = Inr (rs ! i)"
proof -
  have ok: "record_ok (rs ! i)" using rs i by (simp add: seg_records_def)
  from c pi obtain base where p: "pi = payload_index rs base" "blob_at f base (map rec_payload rs)"
    by (auto simp: file_columns_def)
  obtain a b where f: "f = a @ concat (map rec_payload rs) @ b" "length a = base" using p(2) by (auto simp: blob_at_def)
  have payload: "seg_slice f (pi_abs_base pi + pi_rel pi ! i) (pi_rel pi ! (i + 1) - pi_rel pi ! i) = Inr (rec_payload (rs ! i))"
    using blob_row(2) [OF _ f len, of i] i by (simp add: p(1) payload_index_def comp_def)
  have "(case sc_texts c of
          Some (TextsFile ti) \<Rightarrow>
            if ti_present ti ! i then
              and_then (seg_slice f (ti_abs_base ti + ti_rel ti ! i) (ti_rel ti ! (i + 1) - ti_rel ti ! i)) (\<lambda>stored.
              and_then (decode_row_text X ti i stored) (\<lambda>t. Inr (Some t)))
            else Inr None
        | _ \<Rightarrow> Inr None) = Inr (rec_text (rs ! i))"
  proof (cases "any_text rs")
    case False
    then show ?thesis using c i by (auto simp: file_columns_def any_text_def list_ex_iff)
  next
    case True
    with c obtain base where t: "sc_texts c = Some (TextsFile (text_index X rs base))" "blob_at f base (stored_texts X rs)"
      by (auto simp: file_columns_def)
    obtain a b where f: "f = a @ concat (stored_texts X rs) @ b" "length a = base" using t(2) by (auto simp: blob_at_def)
    have i': "i < length (stored_texts X rs)" using i by (simp add: stored_texts_def)
    have row: "seg_slice f (ti_abs_base (text_index X rs base) + ti_rel (text_index X rs base) ! i)
        (ti_rel (text_index X rs base) ! (i + 1) - ti_rel (text_index X rs base) ! i) = Inr (stored_texts X rs ! i)"
      using blob_row(2) [OF i' f len] by (simp add: text_index_def)
    show ?thesis
    proof (cases "rec_text (rs ! i)")
      case None
      then show ?thesis using i by (simp add: t(1) text_index_def)
    next
      case (Some d)
      moreover have "ti_present (text_index X rs base) ! i" using i Some by (simp add: text_index_def)
      ultimately show ?thesis using row decode_stored_text(1) [OF X ok i Some, of base] unfolding t(1) by simp
    qed
  qed
  then show ?thesis
    unfolding whole_row_def payload by (simp add: build_record_ok [OF file_columns_ok [OF X rs c] i])
qed

section \<open>Decoding the whole file\<close>

definition all_sections :: "unicode \<Rightarrow> ('x) codec_ext_scheme \<Rightarrow> Record list \<Rightarrow> byte list \<Rightarrow> seg_section list" where
  "all_sections U X rs blocks = v2_sections U X rs @ [(K_BLOCKS, [], blocks)]"

lemmas kinds = K_KEYS_def K_TS_def K_LABEL_def K_NUMERIC_def K_PAYLOAD_def K_BLOCKS_def K_TEXT_def K_TOKENS_def

lemma decode_section_kinds:
  "decode_section X n K_KEYS name off body d =
     and_then (decode_strings body) (\<lambda>(blob, offsets). Inr (d\<lparr> de_keys := Some \<lparr> ks_blob = blob, ks_offsets = offsets \<rparr> \<rparr>))"
  "decode_section X n K_TS name off body d = and_then (decode_timestamps body n) (\<lambda>ts. Inr (d\<lparr> de_timestamps := Some ts \<rparr>))"
  "decode_section X n K_PAYLOAD name off body d =
     and_then (cur_many cur_u64 (n + 1) body) (\<lambda>(rel, _).
       Inr (d\<lparr> de_payloads := Some \<lparr> pi_abs_base = off + 4 + 8 * (n + 1), pi_rel = rel \<rparr> \<rparr>))"
  "decode_section X n K_BLOCKS name off body d =
     (case rmp_blocks_from_slice X body of
        Inl e \<Rightarrow> Inl (Corrupt ''segment'' (lit ''blocks: '' @ e)) | Inr bs \<Rightarrow> Inr (d\<lparr> de_blocks := Some bs \<rparr>))"
  "decode_section X n K_TEXT TEXT_V2_NAME off body d =
     and_then (decode_text_v2 body n (off + 4)) (\<lambda>ti. Inr (d\<lparr> de_texts := Some ti \<rparr>))"
  "decode_section X n K_TEXT [] off body d = Inr (d\<lparr> de_text_v1_pending := Some (body, off) \<rparr>)"
  "decode_section X n K_TOKENS name off body d = and_then (decode_tokens body n) (\<lambda>idx. Inr (d\<lparr> de_tokens := Some idx \<rparr>))"
  by (simp_all add: decode_section_def kinds TEXT_V2_NAME_def lit_def del: and_then_Inr_iff)

lemma decode_label_sections:
  assumes "\<forall>plan \<in> set plans. decode_label_column (encode_label_column rs plan) (length rs) = Inr (label_column rs plan)"
  shows "decode_located X (length rs) (located off (map (\<lambda>plan. (K_LABEL, lp_name plan, encode_label_column rs plan)) plans)) d =
           Inr (d\<lparr> de_labels := fold (\<lambda>plan. fmupd (lp_name plan) (label_column rs plan)) plans (de_labels d) \<rparr>)"
  using assms by (induction plans arbitrary: off d) (simp_all add: decode_section_def kinds)

lemma decode_numeric_sections:
  "decode_located X (length rs) (located off (map (\<lambda>name. (K_NUMERIC, name, encode_numeric_column rs name)) names)) d =
     Inr (d\<lparr> de_numerics := fold (\<lambda>name. fmupd name (numeric_column rs name)) names (de_numerics d) \<rparr>)"
  by (induction names arbitrary: off d) (simp_all add: decode_section_def kinds decode_encode_numeric)

lemma layout_member: "(kind, name, body) \<in> set ss \<Longrightarrow> length body \<le> length (layout X ss)"
  unfolding layout_def
  by (rule order_trans [OF _ length_concat_member [of "(kind, name, body)" ss "section_bytes_of X"]])
     (simp_all add: section_bytes_of_def)

lemma payload_offsets:
  assumes "length (encode_payloads rs) < 2 ^ 64"
  shows "cur_many cur_u64 (length rs + 1) (encode_payloads rs) =
           Inr (run_offsets 0 (map (\<lambda>r. length (rec_payload r)) rs), concat (map rec_payload rs))"
proof -
  have "sum_list (map (\<lambda>r. length (rec_payload r)) rs) = length (concat (map rec_payload rs))"
    by (simp add: length_concat comp_def)
  then show ?thesis
    using assms unfolding encode_payloads_def by (intro cur_offsets) simp_all
qed

lemma encode_payloads_eq:
  "encode_payloads rs = concat (map u64_le (run_offsets 0 (map (\<lambda>r. length (rec_payload r)) rs))) @ concat (map rec_payload rs)"
  "length (concat (map u64_le (run_offsets 0 (map (\<lambda>r. length (rec_payload r)) rs)))) = 8 * (length rs + 1)"
  by (simp_all add: encode_payloads_def length_concat_const [where k = 8])

text \<open>Where the blobs of the payload and the text section lie.\<close>

lemma payload_blob:
  assumes "section_at X f off (encode_payloads rs)"
  shows "blob_at f (off + 4 + 8 * (length rs + 1)) (map rec_payload rs)"
proof -
  obtain a b where "f = a @ u32_le (crc32_hash X (encode_payloads rs)) @ encode_payloads rs @ b" "length a = off"
    using assms by (auto simp: section_at_def)
  then have "f = (a @ u32_le (crc32_hash X (encode_payloads rs)) @ concat (map u64_le (run_offsets 0 (map (\<lambda>r. length (rec_payload r)) rs)))) @
      concat (map rec_payload rs) @ b"
    by (simp add: encode_payloads_def)
  then show ?thesis
    unfolding blob_at_def using \<open>length a = off\<close> encode_payloads_eq(2) [of rs]
    by (intro exI conjI) (assumption, simp add: add.assoc)
qed

lemma text_blob:
  assumes "section_at X f off (encode_texts X rs)"
  shows "blob_at f (off + 4 + 4 + ((length rs + 7) div 8 * 2 + 8 * (length rs + 1))) (stored_texts X rs)"
proof -
  let ?t = "encode_texts X rs"
  obtain a b where "f = a @ u32_le (crc32_hash X ?t) @ ?t @ b" and a: "length a = off"
    using assms by (auto simp: section_at_def)
  then have "f = (a @ u32_le (crc32_hash X ?t) @ u32_le TEXT_V2_VERSION @ text_header X rs) @ concat (stored_texts X rs) @ b"
    by (subst (asm) (2) encode_texts_eq) simp
  then show ?thesis
    unfolding blob_at_def using a length_text_header [of X rs]
    by (intro exI conjI) (assumption, simp add: add.assoc)
qed

section \<open>The encoded file\<close>

definition file_head :: "byte list" where
  "file_head = u32_le MAGIC @ u32_le VERSION_V2"

definition v2_file :: "unicode \<Rightarrow> ('x) codec_ext_scheme \<Rightarrow> Record list \<Rightarrow> byte list \<Rightarrow> byte list \<Rightarrow> byte list \<Rightarrow> bool" where
  "v2_file U X rs blocks dir f \<longleftrightarrow>
     rmp_blocks_to_vec X (build_blocks rs (plan_labels rs)) = Inr blocks \<and>
     rmp_dir_to_vec X \<lparr> sd_count = length rs, sd_entries = map (entry_of X) (located 8 (all_sections U X rs blocks)) \<rparr> = Inr dir \<and>
     f = (file_head @ layout X (all_sections U X rs blocks)) @ dir @
         u64_le (length (file_head @ layout X (all_sections U X rs blocks))) @ u32_le (crc32_hash X dir) @ u32_le MAGIC"

lemma length_file_head [simp]: "length file_head = 8"
  by (simp add: file_head_def)

lemma encode_v2_file:
  assumes "encode_v2 U X rs = Inr f"
  shows "\<exists>blocks dir. v2_file U X rs blocks dir f"
proof -
  obtain blocks where b: "rmp_blocks_to_vec X (build_blocks rs (plan_labels rs)) = Inr blocks"
    using assms by (auto simp: encode_v2_def split: sum.splits)
  from assms show ?thesis
    unfolding encode_v2_def b sum.case all_sections_def [symmetric] file_head_def [symmetric] fold_push_section length_file_head
    by (auto simp: v2_file_def b simp del: layout_simps split: sum.splits)
qed

lemma v2_file_header:
  assumes "v2_file U X rs blocks dir f"
  shows "seg_header f = Inr (MAGIC, VERSION_V2)" and "read_header f = Inr VERSION_V2"
proof -
  obtain rest where f: "f = u32_le MAGIC @ u32_le VERSION_V2 @ rest"
    using assms by (auto simp: v2_file_def file_head_def)
  have m: "of_le (u32_le MAGIC) = MAGIC" "of_le (u32_le VERSION_V2) = VERSION_V2"
    by (intro of_le_u32, simp add: MAGIC_def, intro of_le_u32, simp add: VERSION_V2_def)
  show "seg_header f = Inr (MAGIC, VERSION_V2)" by (simp add: f seg_header_def m)
  show "read_header f = Inr VERSION_V2" by (simp add: f read_header_def read_at_def m)
qed

lemma v2_sections_at:
  assumes "v2_file U X rs blocks dir f" and "(off, (kind, name, body)) \<in> set (located 8 (all_sections U X rs blocks))"
  shows "section_at X f off body"
  using located_at [where a = file_head and X = X and f = f and ss = "all_sections U X rs blocks", OF _ ] assms
  unfolding length_file_head by (force simp: v2_file_def)

lemma v2_footer:
  assumes "codec_rmp_ok X" and "v2_file U X rs blocks dir f" and "length f < 2 ^ 64"
  shows "decode_footer X f = Inr \<lparr> sd_count = length rs, sd_entries = map (entry_of X) (located 8 (all_sections U X rs blocks)) \<rparr>"
    and "read_footer X f = Inr \<lparr> sg_count = length rs,
           sg_entries = fold put_dir_entry (map (entry_of X) (located 8 (all_sections U X rs blocks))) fmempty \<rparr>"
  using footer_reads [OF assms(1), where f = f and dir = dir and out = "file_head @ layout X (all_sections U X rs blocks)"
      and d = "\<lparr> sd_count = length rs, sd_entries = map (entry_of X) (located 8 (all_sections U X rs blocks)) \<rparr>"]
    assms(2,3)
  by (simp_all add: v2_file_def)

text \<open>Every body is shorter than the file.\<close>

lemma v2_body_short:
  assumes "v2_file U X rs blocks dir f" and "(kind, name, body) \<in> set (all_sections U X rs blocks)"
  shows "length body \<le> length f"
  using layout_member [OF assms(2), of X] assms(1) by (simp add: v2_file_def)

lemma located_parts:
  "\<exists>o1 o2 o3 o4 o5. located 8 (all_sections U X rs blocks) =
     located 8 [(K_KEYS, [], encode_strings (map (\<lambda>r. as_bytes (rec_key r)) rs)),
                (K_TS, [], concat (map (\<lambda>r. i64_le (rec_timestamp r)) rs))] @
     located o1 (map (\<lambda>plan. (K_LABEL, lp_name plan, encode_label_column rs plan)) (plan_labels rs)) @
     located o2 (map (\<lambda>name. (K_NUMERIC, name, encode_numeric_column rs name)) (numeric_names rs)) @
     located o3 [(K_PAYLOAD, [], encode_payloads rs)] @
     located o4 (if any_text rs then
        [(K_TEXT, [], TEXT_POISON), (K_TEXT, TEXT_V2_NAME, encode_texts X rs),
         (K_TOKENS, [], encode_tokens (token_index_build U rs))] else []) @
     located o5 [(K_BLOCKS, [], blocks)]"
  unfolding all_sections_def v2_sections_def any_text_def located_append [where X = X] append_assoc
  by (intro exI) (rule refl)

text \<open>Every body of the file decodes to its column.\<close>

lemma v2_bodies:
  assumes X: "codec_rmp_ok X" and rs: "seg_records rs" and f: "v2_file U X rs blocks dir f" and len: "length f < 2 ^ 32"
  shows "decode_strings (encode_strings (map (\<lambda>r. as_bytes (rec_key r)) rs)) =
           Inr (ks_blob (key_section rs), ks_offsets (key_section rs))"
    and "decode_timestamps (concat (map (\<lambda>r. i64_le (rec_timestamp r)) rs)) (length rs) = Inr (map rec_timestamp rs)"
    and "\<forall>plan \<in> set (plan_labels rs). decode_label_column (encode_label_column rs plan) (length rs) = Inr (label_column rs plan)"
    and "cur_many cur_u64 (length rs + 1) (encode_payloads rs) =
           Inr (run_offsets 0 (map (\<lambda>r. length (rec_payload r)) rs), concat (map rec_payload rs))"
    and "any_text rs \<Longrightarrow> decode_text_v2 (encode_texts X rs) (length rs) base =
           Inr (text_index X rs (base + 4 + ((length rs + 7) div 8 * 2 + 8 * (length rs + 1))))"
    and "any_text rs \<Longrightarrow> unicode_str U \<Longrightarrow>
           \<exists>idx. decode_tokens (encode_tokens (token_index_build U rs)) (length rs) = Inr idx \<and> index_ok U idx rs"
    and "rmp_blocks_from_slice X blocks = Inr (build_blocks rs (plan_labels rs))"
proof -
  let ?ss = "all_sections U X rs blocks"
  have n: "length rs < 2 ^ 32" and ok: "\<forall>r \<in> set rs. record_ok r" using rs by (simp_all add: seg_records_def)
  have short: "length body < 2 ^ 32" if "(kind, name, body) \<in> set ?ss" for kind name body
    using v2_body_short [OF f that] len by simp
  have keys: "length (encode_strings (map (\<lambda>r. as_bytes (rec_key r)) rs)) < 2 ^ 32"
    by (rule short [of K_KEYS "[]"]) (simp add: all_sections_def v2_sections_def)
  have "decode_strings (encode_strings (map as_bytes (map rec_key rs))) =
      Inr (concat (map as_bytes (map rec_key rs)), run_offsets 0 (map length (map as_bytes (map rec_key rs))))"
    using keys n ok by (intro decode_encode_strings) (auto simp: record_ok_def encode_strings_def comp_def)
  then show "decode_strings (encode_strings (map (\<lambda>r. as_bytes (rec_key r)) rs)) =
      Inr (ks_blob (key_section rs), ks_offsets (key_section rs))"
    by (simp add: key_section_def comp_def)
  show "decode_timestamps (concat (map (\<lambda>r. i64_le (rec_timestamp r)) rs)) (length rs) = Inr (map rec_timestamp rs)"
    using ok by (intro decode_encode_timestamps) (simp add: record_ok_def)
  have "decode_label_column (encode_label_column rs plan) (length rs) = Inr (label_column rs plan)"
    if plan: "plan \<in> set (plan_labels rs)" for plan
  proof -
    from plan obtain name where p: "plan = label_plan rs name" by (auto simp: plan_labels_def)
    have "length (encode_label_column rs plan) < 2 ^ 32"
      by (rule short [of K_LABEL "lp_name plan"]) (use plan in \<open>auto simp: all_sections_def v2_sections_def\<close>)
    then show ?thesis unfolding p by (intro decode_encode_label ok n)
  qed
  then show "\<forall>plan \<in> set (plan_labels rs). decode_label_column (encode_label_column rs plan) (length rs) = Inr (label_column rs plan)"
    by blast
  have "length (encode_payloads rs) < 2 ^ 32"
    by (rule short [of K_PAYLOAD "[]"]) (simp add: all_sections_def v2_sections_def)
  then show "cur_many cur_u64 (length rs + 1) (encode_payloads rs) =
      Inr (run_offsets 0 (map (\<lambda>r. length (rec_payload r)) rs), concat (map rec_payload rs))"
    by (intro payload_offsets) simp
  show "decode_text_v2 (encode_texts X rs) (length rs) base =
      Inr (text_index X rs (base + 4 + ((length rs + 7) div 8 * 2 + 8 * (length rs + 1))))" if "any_text rs"
    by (rule decode_encode_texts, rule short [of K_TEXT TEXT_V2_NAME])
       (use that in \<open>simp add: all_sections_def v2_sections_def any_text_def\<close>)
  show "\<exists>idx. decode_tokens (encode_tokens (token_index_build U rs)) (length rs) = Inr idx \<and> index_ok U idx rs"
    if "any_text rs" "unicode_str U"
    by (rule decode_encode_tokens [OF that(2) ok n], rule short [of K_TOKENS "[]"])
       (use that(1) in \<open>simp add: all_sections_def v2_sections_def any_text_def\<close>)
  show "rmp_blocks_from_slice X blocks = Inr (build_blocks rs (plan_labels rs))"
    using X f by (simp add: codec_rmp_ok_def v2_file_def)
qed

lemma decode_v2_file:
  assumes X: "codec_rmp_ok X" and U: "unicode_str U" and rs: "seg_records rs" and f: "v2_file U X rs blocks dir f"
    and len: "length f < 2 ^ 32"
  shows "\<exists>c. decode_v2_columns X f = Inr c \<and> file_columns U X f need c rs"
proof -
  let ?n = "length rs"
  have len64: "length f < 2 ^ 64" using len by simp
  note B = v2_bodies [OF X rs f len]
  obtain o1 o2 o3 o4 o5 where parts: "located 8 (all_sections U X rs blocks) =
     located 8 [(K_KEYS, [], encode_strings (map (\<lambda>r. as_bytes (rec_key r)) rs)),
                (K_TS, [], concat (map (\<lambda>r. i64_le (rec_timestamp r)) rs))] @
     located o1 (map (\<lambda>plan. (K_LABEL, lp_name plan, encode_label_column rs plan)) (plan_labels rs)) @
     located o2 (map (\<lambda>name. (K_NUMERIC, name, encode_numeric_column rs name)) (numeric_names rs)) @
     located o3 [(K_PAYLOAD, [], encode_payloads rs)] @
     located o4 (if any_text rs then
        [(K_TEXT, [], TEXT_POISON), (K_TEXT, TEXT_V2_NAME, encode_texts X rs),
         (K_TOKENS, [], encode_tokens (token_index_build U rs))] else []) @
     located o5 [(K_BLOCKS, [], blocks)]"
    using located_parts [of U X rs blocks] by (elim exE) (rule that)
  have p: "blob_at f (o3 + 4 + 8 * (?n + 1)) (map rec_payload rs)"
    by (rule payload_blob, rule v2_sections_at [OF f, where kind = K_PAYLOAD and name = "[]"]) (simp add: parts)
  have t: "blob_at f (o4 + 4 + length TEXT_POISON + 4 + 4 + ((?n + 7) div 8 * 2 + 8 * (?n + 1))) (stored_texts X rs)" if "any_text rs"
    by (rule text_blob, rule v2_sections_at [OF f, where kind = K_TEXT and name = TEXT_V2_NAME]) (simp add: parts that)
  have at: "\<forall>(off, (kind, name, body)) \<in> set (located 8 (all_sections U X rs blocks)). section_at X f off body"
    using v2_sections_at [OF f] by blast
  have crc: "crc32_hash X b < 2 ^ 32" for b using X by (simp add: codec_rmp_ok_def)
  let ?labels = "fold (\<lambda>plan. fmupd (lp_name plan) (label_column rs plan)) (plan_labels rs) fmempty"
    and ?numerics = "fold (\<lambda>name. fmupd name (numeric_column rs name)) (numeric_names rs) fmempty"
  let ?d = "decoded_init\<lparr> de_keys := Some (key_section rs), de_timestamps := Some (map rec_timestamp rs),
      de_labels := ?labels, de_numerics := ?numerics, de_payloads := Some (payload_index rs (o3 + 4 + 8 * (?n + 1))) \<rparr>"
  have k: "\<lparr> ks_blob = ks_blob (key_section rs), ks_offsets = ks_offsets (key_section rs) \<rparr> = key_section rs" by simp
  have head: "decode_located X ?n (located 8 (all_sections U X rs blocks)) decoded_init =
      decode_located X ?n
        (located o4 (if any_text rs then
           [(K_TEXT, [], TEXT_POISON), (K_TEXT, TEXT_V2_NAME, encode_texts X rs),
            (K_TOKENS, [], encode_tokens (token_index_build U rs))] else []) @ located o5 [(K_BLOCKS, [], blocks)]) ?d"
    unfolding parts decode_located_append [where a = "located _ [_, _]"] decode_located_append [where a = "located o1 _"]
      decode_located_append [where a = "located o2 _"] decode_located_append [where a = "located o3 _"]
    by (simp only: located.simps decode_located.simps decode_section_kinds B(1,2,4) and_then.simps prod.case k
        decode_label_sections [OF B(3)] decode_numeric_sections payload_index_def decoded_init_def decoded.simps)
  have entries: "decode_entries X f ?n (map (entry_of X) (located 8 (all_sections U X rs blocks))) decoded_init =
      decode_located X ?n (located 8 (all_sections U X rs blocks)) decoded_init"
    by (rule decode_entries_located [OF crc len64 at])
  have cols: "decode_v2_columns X f = and_then (decode_located X ?n (located 8 (all_sections U X rs blocks)) decoded_init) (finish_columns ?n)"
    unfolding decode_v2_columns_def v2_footer(1) [OF X f len64] by (simp add: entries del: and_then_Inr_iff)
  show ?thesis
  proof (cases "any_text rs")
    case False
    then show ?thesis
      unfolding cols head using p
      by (auto simp: decode_section_kinds B(7) finish_columns_def decoded_init_def ok_or_def key_section_def file_columns_def
          plans_lookup numeric_names_lookup tokens_ok_def any_text_def list_ex_iff)
  next
    case True
    from B(6) [OF True U] obtain idx where idx: "decode_tokens (encode_tokens (token_index_build U rs)) ?n = Inr idx" "index_ok U idx rs"
      by blast
    show ?thesis
      unfolding cols head using p t [OF True] True
      by (auto simp: decode_section_kinds B(5,7) idx finish_columns_def decoded_init_def ok_or_def
          key_section_def file_columns_def plans_lookup numeric_names_lookup tokens_ok_def)
  qed
qed

lemma read_all_v2:
  assumes X: "codec_rmp_ok X" and U: "unicode_str U" and rs: "seg_records rs" and f: "v2_file U X rs blocks dir f"
    and len: "length f < 2 ^ 32"
  shows "read_all_records X f = Inr rs"
proof -
  obtain c where c: "decode_v2_columns X f = Inr c" "file_columns U X f True c rs" using decode_v2_file [OF X U rs f len] by blast
  then obtain pi where pi: "sc_payloads c = PayloadsFile pi" by (auto simp: file_columns_def)
  have "map_result (whole_row X f c pi) [0..<length rs] = Inr (map (\<lambda>i. rs ! i) [0..<length rs])"
    by (rule map_result_Inr) (use whole_row_ok [OF X rs c(2) pi] len in simp)
  then have rows: "map_result (whole_row X f c pi) [0..<sc_count c] = Inr rs"
    using c(2) by (simp add: map_nth file_columns_def)
  have v: "VERSION_V2 \<noteq> VERSION_V1" by (simp add: VERSION_V1_def VERSION_V2_def)
  show ?thesis
    unfolding read_all_records_def v2_file_header(1) [OF f]
    by (simp only: and_then.simps prod.case v if_False simp_thms if_True c(1) pi Payloads.case rows)
qed

section \<open>The section readers\<close>

lemma section_ids:
  "map sec_id (all_sections U X rs blocks) =
     [(K_KEYS, []), (K_TS, [])] @ map (Pair K_LABEL) (label_names rs) @ map (Pair K_NUMERIC) (numeric_names rs) @
     [(K_PAYLOAD, [])] @ (if any_text rs then [(K_TEXT, []), (K_TEXT, TEXT_V2_NAME), (K_TOKENS, [])] else []) @ [(K_BLOCKS, [])]"
  unfolding plan_names [symmetric]
  by (simp add: all_sections_def v2_sections_def sec_id_def comp_def any_text_def del: plan_names)

lemma distinct_sections: "distinct (map sec_id (all_sections U X rs blocks))"
  unfolding section_ids by (auto simp: kinds distinct_map inj_on_def TEXT_V2_NAME_def lit_def)

lemma set_section_ids: "sec_id ` set (all_sections U X rs blocks) = set (map sec_id (all_sections U X rs blocks))"
  by simp

definition file_dir :: "unicode \<Rightarrow> ('x) codec_ext_scheme \<Rightarrow> Record list \<Rightarrow> byte list \<Rightarrow> SegDir" where
  "file_dir U X rs blocks =
     \<lparr> sg_count = length rs, sg_entries = fold put_dir_entry (map (entry_of X) (located 8 (all_sections U X rs blocks))) fmempty \<rparr>"

lemma dir_section:
  assumes f: "v2_file U X rs blocks dir f" and s: "(kind, name, body) \<in> set (all_sections U X rs blocks)"
  obtains off where "fmlookup (sg_entries (file_dir U X rs blocks)) (kind, name) =
      Some \<lparr> dn_offset = off, dn_len = length body, dn_crc = crc32_hash X body \<rparr>"
    and "section_at X f off body"
  using dir_lookup(1) [OF distinct_sections s, of 8 X] v2_sections_at [OF f] by (auto simp: file_dir_def)

lemma dir_no_section:
  assumes "(kind, name) \<notin> sec_id ` set (all_sections U X rs blocks)"
  shows "fmlookup (sg_entries (file_dir U X rs blocks)) (kind, name) = None"
  using dir_lookup(2) [OF distinct_sections assms] by (simp add: file_dir_def)

lemma load_body_ok:
  assumes X: "codec_rmp_ok X" and f: "v2_file U X rs blocks dir f" and len: "length f < 2 ^ 64"
    and s: "(kind, name, body) \<in> set (all_sections U X rs blocks)"
  shows "load_body X f (file_dir U X rs blocks) kind name = Inr body"
proof -
  obtain off where "fmlookup (sg_entries (file_dir U X rs blocks)) (kind, name) =
      Some \<lparr> dn_offset = off, dn_len = length body, dn_crc = crc32_hash X body \<rparr>" "section_at X f off body"
    by (rule dir_section [OF f s])
  moreover have "crc32_hash X body < 2 ^ 32" using X by (simp add: codec_rmp_ok_def)
  ultimately show ?thesis
    using section_reads(4) [of X f off body kind] len by (simp add: load_body_def dir_entry_def ok_or_def del: and_then_Inr_iff)
qed

lemma load_named_ok:
  assumes "\<forall>n \<in> set ns. g n = Inr (v n)"
  shows "\<exists>m. load_named g ns = Inr m \<and> (\<forall>k. fmlookup m k = (if k \<in> set ns then Some (v k) else None))"
  using assms by (induction ns) auto

lemma dir_names_set: "n \<in> set (dir_names (file_dir U X rs blocks) kind) \<longleftrightarrow> (kind, n) \<in> sec_id ` set (all_sections U X rs blocks)"
proof -
  have "(kind, n) \<in> sec_id ` set (all_sections U X rs blocks) \<longleftrightarrow>
      fmlookup (sg_entries (file_dir U X rs blocks)) (kind, n) \<noteq> None"
  proof
    assume "(kind, n) \<in> sec_id ` set (all_sections U X rs blocks)"
    then obtain body where "(kind, n, body) \<in> set (all_sections U X rs blocks)" by (auto simp: sec_id_def)
    from dir_lookup(1) [OF distinct_sections this, of 8 X]
    show "fmlookup (sg_entries (file_dir U X rs blocks)) (kind, n) \<noteq> None" by (auto simp: file_dir_def)
  next
    assume "fmlookup (sg_entries (file_dir U X rs blocks)) (kind, n) \<noteq> None"
    with dir_no_section [of kind n U X rs blocks] show "(kind, n) \<in> sec_id ` set (all_sections U X rs blocks)" by auto
  qed
  moreover have "n \<in> set (dir_names d kind) \<longleftrightarrow> fmlookup (sg_entries d) (kind, n) \<noteq> None" for d
    by (auto simp: dir_names_def image_iff fmlookup_dom_iff)
  ultimately show ?thesis by blast
qed

lemma label_section_ids:
  "(K_LABEL, n) \<in> sec_id ` set (all_sections U X rs blocks) \<longleftrightarrow> n \<in> set (label_names rs)"
  "(K_NUMERIC, n) \<in> sec_id ` set (all_sections U X rs blocks) \<longleftrightarrow> n \<in> set (numeric_names rs)"
  unfolding set_section_ids section_ids by (auto simp: kinds)

lemma column_sections:
  "n \<in> set (label_names rs) \<Longrightarrow> (K_LABEL, n, encode_label_column rs (label_plan rs n)) \<in> set (all_sections U X rs blocks)"
  "n \<in> set (numeric_names rs) \<Longrightarrow> (K_NUMERIC, n, encode_numeric_column rs n) \<in> set (all_sections U X rs blocks)"
proof -
  let ?f = "\<lambda>plan. (K_LABEL, lp_name plan, encode_label_column rs plan)"
  show "(K_LABEL, n, encode_label_column rs (label_plan rs n)) \<in> set (all_sections U X rs blocks)" if "n \<in> set (label_names rs)"
  proof -
    have "?f (label_plan rs n) \<in> ?f ` set (plan_labels rs)" using that by (intro imageI) (simp add: plan_labels_def)
    then show ?thesis by (simp add: all_sections_def v2_sections_def label_plan_eq)
  qed
  show "(K_NUMERIC, n, encode_numeric_column rs n) \<in> set (all_sections U X rs blocks)" if "n \<in> set (numeric_names rs)"
    using that by (simp add: all_sections_def v2_sections_def)
qed

lemma section_prefix:
  assumes "section_at X f off body" and "n \<le> length body" and "length f < 2 ^ 64"
  shows "read_at f (off + 4) n = Inr (take n body)"
proof -
  obtain a b where f: "f = a @ u32_le (crc32_hash X body) @ body @ b" "length a = off"
    using assms(1) by (auto simp: section_at_def)
  have "take n (drop (off + 4) f) = take n (body @ b)" using f by simp
  then show ?thesis using f assms(2) by (simp add: read_at_def)
qed

lemma load_payload_index_ok:
  assumes X: "codec_rmp_ok X" and rs: "seg_records rs" and f: "v2_file U X rs blocks dir f" and len: "length f < 2 ^ 32"
  shows "\<exists>base. load_payload_index f (file_dir U X rs blocks) = Inr (payload_index rs base) \<and> blob_at f base (map rec_payload rs)"
proof -
  let ?b = "encode_payloads rs" and ?t = "8 * (length rs + 1)" and ?ls = "map (\<lambda>r. length (rec_payload r)) rs"
  have s: "(K_PAYLOAD, [], ?b) \<in> set (all_sections U X rs blocks)" by (simp add: all_sections_def v2_sections_def)
  obtain off where e: "fmlookup (sg_entries (file_dir U X rs blocks)) (K_PAYLOAD, []) =
      Some \<lparr> dn_offset = off, dn_len = length ?b, dn_crc = crc32_hash X ?b \<rparr>" and at: "section_at X f off ?b"
    by (rule dir_section [OF f s])
  let ?o = "concat (map u64_le (run_offsets 0 ?ls))"
  note eq = encode_payloads_eq [of rs]
  have short: "length ?b < 2 ^ 32" using v2_body_short [OF f s] len by simp
  have sum: "sum_list ?ls = length (concat (map rec_payload rs))" by (simp add: length_concat comp_def)
  have lb: "length ?b = ?t + length (concat (map rec_payload rs))" unfolding eq(1) length_append eq(2) ..
  have rd: "read_at f (off + 4) ?t = Inr ?o"
  proof -
    have "read_at f (off + 4) ?t = Inr (take ?t ?b)" using lb len by (intro section_prefix [OF at]) simp_all
    moreover have "take ?t ?b = ?o" unfolding eq(1) using eq(2) by simp
    ultimately show ?thesis by simp
  qed
  have offs: "cur_many cur_u64 (length rs + 1) (?o @ []) = Inr (run_offsets 0 ?ls, [])"
    using short lb sum by (intro cur_offsets) simp_all
  have chk: "check_offsets ''payload'' (run_offsets 0 ?ls) (length ?b - ?t) = Inr ()"
    using check_run_offsets [of "''payload''" ?ls] lb sum by simp
  have g: "\<not> 2 ^ 64 \<le> ?t" "\<not> length ?b < ?t" using short lb by simp_all
  have "load_payload_index f (file_dir U X rs blocks) = Inr (payload_index rs (off + 4 + ?t))"
    using offs
    by (simp only: load_payload_index_def dir_entry_def e ok_or_def option.case and_then.simps Let_def DirEntry.simps file_dir_def
        SegDir.simps g if_False rd append_Nil2 prod.case chk payload_index_def e [unfolded file_dir_def SegDir.simps])
  with payload_blob [OF at] show ?thesis by blast
qed

lemma load_text_index_ok:
  assumes X: "codec_rmp_ok X" and rs: "seg_records rs" and f: "v2_file U X rs blocks dir f" and len: "length f < 2 ^ 32"
  shows "if any_text rs
         then \<exists>base. load_text_index f (file_dir U X rs blocks) = Inr (Some (text_index X rs base)) \<and> blob_at f base (stored_texts X rs)
         else load_text_index f (file_dir U X rs blocks) = Inr None"
proof (cases "any_text rs")
  case False
  then have "(K_TEXT, n) \<notin> sec_id ` set (all_sections U X rs blocks)" for n
    unfolding set_section_ids section_ids by (auto simp: kinds)
  from dir_no_section [OF this] False show ?thesis by (simp add: load_text_index_def Let_def)
next
  case True
  let ?b = "encode_texts X rs" and ?h = "(length rs + 7) div 8 * 2 + 8 * (length rs + 1)"
  have s: "(K_TEXT, TEXT_V2_NAME, ?b) \<in> set (all_sections U X rs blocks)"
    using True by (simp add: all_sections_def v2_sections_def any_text_def)
  obtain off where e: "fmlookup (sg_entries (file_dir U X rs blocks)) (K_TEXT, TEXT_V2_NAME) =
      Some \<lparr> dn_offset = off, dn_len = length ?b, dn_crc = crc32_hash X ?b \<rparr>" and at: "section_at X f off ?b"
    by (rule dir_section [OF f s])
  have short: "length ?b < 2 ^ 32" using v2_body_short [OF f s] len by simp
  have lb: "length ?b = 4 + ?h + length (concat (stored_texts X rs))"
    unfolding encode_texts_eq length_append length_text_header by simp
  obtain a b where fa: "f = a @ u32_le (crc32_hash X ?b) @ ?b @ b" "length a = off" using at by (auto simp: section_at_def)
  have v: "read_at f (off + 4) 4 = Inr (u32_le TEXT_V2_VERSION)"
  proof -
    have "read_at f (off + 4) 4 = Inr (take 4 ?b)" using lb len by (intro section_prefix [OF at]) simp_all
    then show ?thesis by (simp add: encode_texts_eq)
  qed
  have h: "read_at f (off + 8) ?h = Inr (text_header X rs)"
  proof -
    have "f = (a @ u32_le (crc32_hash X ?b) @ u32_le TEXT_V2_VERSION) @ text_header X rs @ (concat (stored_texts X rs) @ b)"
      using fa(1) by (subst (asm) (2) encode_texts_eq) simp
    moreover have "length (a @ u32_le (crc32_hash X ?b) @ u32_le TEXT_V2_VERSION) = off + 8" using fa(2) by simp
    ultimately show ?thesis unfolding length_text_header [of X rs, symmetric] by (simp add: read_at_def)
  qed
  have ver: "of_le (u32_le TEXT_V2_VERSION) = TEXT_V2_VERSION" by (rule of_le_u32) (simp add: TEXT_V2_VERSION_def)
  have g: "\<not> 2 ^ 64 \<le> 8 * (length rs + 1)" "\<not> 2 ^ 64 \<le> ?h" "\<not> length ?b < 4 + ?h" using short lb by simp_all
  have bl: "length ?b - 4 - ?h = length (concat (stored_texts X rs))" using lb by simp
  have "length (concat (stored_texts X rs)) < 2 ^ 64" using short lb by simp
  note d = decode_text_header_v2 [OF this]
  have "load_text_index f (file_dir U X rs blocks) = Inr (Some (text_index X rs (off + 8 + ?h)))"
    by (simp only: load_text_index_def Let_def e [unfolded file_dir_def SegDir.simps] file_dir_def SegDir.simps option.case DirEntry.simps
        v and_then.simps ver simp_thms if_False g h bl d)
  moreover have "blob_at f (off + 8 + ?h) (stored_texts X rs)" using text_blob [OF at] by (simp add: add.assoc)
  ultimately show ?thesis using True by auto
qed

lemma load_tokens_ok:
  assumes X: "codec_rmp_ok X" and U: "unicode_str U" and rs: "seg_records rs" and f: "v2_file U X rs blocks dir f"
    and len: "length f < 2 ^ 32"
  shows "\<exists>tokens. load_tokens X f (file_dir U X rs blocks) = Inr tokens \<and> tokens_ok U need tokens rs"
proof (cases "any_text rs")
  case False
  then have "(K_TOKENS, []) \<notin> sec_id ` set (all_sections U X rs blocks)"
    unfolding set_section_ids section_ids by (auto simp: kinds)
  from dir_no_section [OF this] False show ?thesis
    by (auto simp: load_tokens_def tokens_ok_def any_text_def list_ex_iff)
next
  case True
  let ?b = "encode_tokens (token_index_build U rs)"
  have s: "(K_TOKENS, [], ?b) \<in> set (all_sections U X rs blocks)"
    using True by (simp add: all_sections_def v2_sections_def any_text_def)
  obtain off where e: "fmlookup (sg_entries (file_dir U X rs blocks)) (K_TOKENS, []) =
      Some \<lparr> dn_offset = off, dn_len = length ?b, dn_crc = crc32_hash X ?b \<rparr>" and at: "section_at X f off ?b"
    by (rule dir_section [OF f s])
  have "crc32_hash X ?b < 2 ^ 32" using X by (simp add: codec_rmp_ok_def)
  then have rd: "read_verified_body X f \<lparr> dn_offset = off, dn_len = length ?b, dn_crc = crc32_hash X ?b \<rparr> K_TOKENS = Inr ?b"
    using len by (intro section_reads(4) [OF at]) simp_all
  from v2_bodies(6) [OF X rs f len True U] obtain idx where "decode_tokens ?b (length rs) = Inr idx" "index_ok U idx rs" by blast
  with rd e show ?thesis by (auto simp: load_tokens_def file_dir_def tokens_ok_def)
qed

lemma load_keys_ok:
  assumes X: "codec_rmp_ok X" and rs: "seg_records rs" and f: "v2_file U X rs blocks dir f" and len: "length f < 2 ^ 32"
  shows "load_keys X f (file_dir U X rs blocks) = Inr (key_section rs)"
proof -
  have "load_body X f (file_dir U X rs blocks) K_KEYS [] = Inr (encode_strings (map (\<lambda>r. as_bytes (rec_key r)) rs))"
    using len by (intro load_body_ok [OF X f]) (simp_all add: all_sections_def v2_sections_def)
  then show ?thesis using v2_bodies(1) [OF X rs f len] by (simp add: load_keys_def key_section_def file_dir_def)
qed

lemma load_label_ok:
  assumes X: "codec_rmp_ok X" and rs: "seg_records rs" and f: "v2_file U X rs blocks dir f" and len: "length f < 2 ^ 32"
    and n: "n \<in> set (label_names rs)"
  shows "load_label X f (file_dir U X rs blocks) n = Inr (label_column rs (label_plan rs n))"
proof -
  have plan: "label_plan rs n \<in> set (plan_labels rs)" using n by (simp add: plan_labels_def)
  have "load_body X f (file_dir U X rs blocks) K_LABEL n = Inr (encode_label_column rs (label_plan rs n))"
    using len by (intro load_body_ok [OF X f] column_sections(1) [OF n]) simp
  then show ?thesis using v2_bodies(3) [OF X rs f len] plan by (simp add: load_label_def file_dir_def)
qed

lemma load_sections_ok:
  assumes X: "codec_rmp_ok X" and U: "unicode_str U" and rs: "seg_records rs" and f: "v2_file U X rs blocks dir f"
    and len: "length f < 2 ^ 32"
  shows "\<exists>c. load_sections X f (file_dir U X rs blocks) need = Inr c \<and> file_columns U X f need c rs"
proof -
  let ?d = "file_dir U X rs blocks"
  have len64: "length f < 2 ^ 64" using len by simp
  note B = v2_bodies [OF X rs f len] and L = load_body_ok [OF X f len64]
  have cnt: "sg_count ?d = length rs" by (simp add: file_dir_def)
  note keys = load_keys_ok [OF X rs f len]
  have "load_body X f ?d K_TS [] = Inr (concat (map (\<lambda>r. i64_le (rec_timestamp r)) rs))"
    "load_body X f ?d K_BLOCKS [] = Inr blocks"
    by (rule L, simp add: all_sections_def v2_sections_def)+
  then have ts: "load_timestamps X f ?d = Inr (map rec_timestamp rs)"
    and blocks: "load_blocks X f ?d = Inr (build_blocks rs (plan_labels rs))"
    using B(2,7) by (simp_all add: load_timestamps_def load_blocks_def cnt)
  have "load_label X f ?d n = Inr (label_column rs (label_plan rs n))" if "n \<in> set (label_names rs)" for n
    by (rule load_label_ok [OF X rs f len that])
  then have ll: "\<forall>n \<in> set (dir_label_names ?d). load_label X f ?d n = Inr (label_column rs (label_plan rs n))"
    by (simp add: dir_label_names_def dir_names_set label_section_ids)
  obtain labels where labels: "load_named (load_label X f ?d) (dir_label_names ?d) = Inr labels"
    "\<forall>k. fmlookup labels k = (if k \<in> set (label_names rs) then Some (label_column rs (label_plan rs k)) else None)"
    using load_named_ok [OF ll] by (auto simp: dir_label_names_def dir_names_set label_section_ids)
  have "load_numeric X f ?d n = Inr (numeric_column rs n)" if n: "n \<in> set (numeric_names rs)" for n
  proof -
    have "load_body X f ?d K_NUMERIC n = Inr (encode_numeric_column rs n)"
      by (rule L, rule column_sections(2) [OF n])
    then show ?thesis by (simp add: load_numeric_def cnt decode_encode_numeric)
  qed
  then have ln: "\<forall>n \<in> set (dir_numeric_names ?d). load_numeric X f ?d n = Inr (numeric_column rs n)"
    by (simp add: dir_numeric_names_def dir_names_set label_section_ids)
  obtain numerics where numerics: "load_named (load_numeric X f ?d) (dir_numeric_names ?d) = Inr numerics"
    "\<forall>k. fmlookup numerics k = (if k \<in> set (numeric_names rs) then Some (numeric_column rs k) else None)"
    using load_named_ok [OF ln] by (auto simp: dir_numeric_names_def dir_names_set label_section_ids)
  obtain pb where p: "load_payload_index f ?d = Inr (payload_index rs pb)" "blob_at f pb (map rec_payload rs)"
    using load_payload_index_ok [OF X rs f len] by blast
  obtain texts where t: "load_text_index f ?d = Inr texts"
    "if any_text rs then \<exists>base. texts = Some (text_index X rs base) \<and> blob_at f base (stored_texts X rs) else texts = None"
    using load_text_index_ok [OF X rs f len] by (auto split: if_splits)
  obtain tokens where tok: "(if need then load_tokens X f ?d else Inr None) = Inr tokens" "tokens_ok U need tokens rs"
    using load_tokens_ok [OF X U rs f len, of need] by (cases need) (auto simp: tokens_ok_def)
  let ?c = "assemble (length rs) (key_section rs) (map rec_timestamp rs) labels numerics (build_blocks rs (plan_labels rs))
      (payload_index rs pb) texts tokens"
  have "load_sections X f ?d need = Inr ?c"
    by (simp only: load_sections_def keys ts blocks p(1) t(1) tok(1) labels(1) numerics(1) and_then.simps cnt)
  moreover have "file_columns U X f need ?c rs"
    using labels(2) numerics(2) p(2) t(2) tok(2) by (auto simp: file_columns_def assemble_def)
  ultimately show ?thesis by blast
qed

lemma load_segment_v2:
  assumes X: "codec_rmp_ok X" and U: "unicode_str U" and rs: "seg_records rs" and f: "v2_file U X rs blocks dir f"
    and len: "length f < 2 ^ 32"
  shows "\<exists>c. load_segment U X f need = Inr (c, Some f) \<and> cols_ok U X (Some f) need c rs \<and> payload_needs_file c"
proof -
  have len64: "length f < 2 ^ 64" using len by simp
  obtain c where c: "load_sections X f (file_dir U X rs blocks) need = Inr c" "file_columns U X f need c rs"
    using load_sections_ok [OF X U rs f len] by blast
  have "read_footer X f = Inr (file_dir U X rs blocks)" unfolding file_dir_def by (rule v2_footer(2) [OF X f len64])
  with c(1) have "load_segment U X f need = Inr (c, Some f)"
    by (simp add: load_segment_def v2_file_header(2) [OF f] VERSION_V2_def)
  moreover have "payload_needs_file c" using c(2) by (auto simp: file_columns_def payload_needs_file_def)
  ultimately show ?thesis using file_columns_ok [OF X rs c(2)] by blast
qed

section \<open>Properties\<close>

text \<open>
  C4. A segment file reads back. The bytes \<open>encode_v2\<close> writes for key-sorted records are decoded by
  the whole-file reader (compaction, recovery of a segment) to those records; and the section
  readers (queries) load from them columns whose rows materialize to the records, texts inflated
  and labels through their dictionaries, and whose row selection -- dictionary codes, block index,
  lazily decoded posting lists, LIKE candidates -- is the naive scan. (The file is under 4 GiB: the
  posting offsets are stored in 32 bits.)
\<close>

theorem segment_file_roundtrip:
  assumes "codec_rmp_ok X" and "unicode_ok U" and "unicode_str U" and "seg_records rs"
    and "encode_v2 U X rs = Inr f" and "length f < 2 ^ 32"
  shows "read_all_records X f = Inr rs \<and>
         (\<exists>c. load_segment U X f True = Inr (c, Some f) \<and>
            (\<forall>i < length rs. materialize X (Some f) c i True = Inr (rs ! i)) \<and>
            (\<forall>spec. matching_rows U X (Some f) c spec = Inr (filter (\<lambda>i. matches U spec (rs ! i)) [0..<length rs])))"
proof -
  obtain blocks dir where v: "v2_file U X rs blocks dir f" using encode_v2_file [OF assms(5)] by blast
  note all = read_all_v2 [OF assms(1,3,4) v assms(6)]
  obtain c where c: "load_segment U X f True = Inr (c, Some f)" "cols_ok U X (Some f) True c rs"
    using load_segment_v2 [OF assms(1,3,4) v assms(6)] by blast
  have "materialize X (Some f) c i True = Inr (rs ! i)" if "i < length rs" for i
    using materialize_ok [OF c(2) that, of True] by simp
  moreover have "matching_rows U X (Some f) c spec = Inr (filter (\<lambda>i. matches U spec (rs ! i)) [0..<length rs])" for spec
    by (rule matching_rows_eq [OF assms(2) c(2)]) simp
  ultimately show ?thesis using all c(1) by blast
qed

text \<open>Serialisers that know one directory and one block index.\<close>

definition plain_rows :: "Record list" where
  "plain_rows = [sample_record [97], sample_record [98]]"

definition plain_blocks :: "BlockMeta list" where
  "plain_blocks = build_blocks plain_rows (plan_labels plain_rows)"

definition plain_seg_ext :: seg_ext where
  "plain_seg_ext = sample_seg_ext\<lparr> crc32_hash := (\<lambda>_. 0), flate_deflate := Cons 0, flate_inflate := (\<lambda>b. if b = [] then None else Some (tl b)) \<rparr>"

definition plain_dir :: SectionDir where
  "plain_dir =
     \<lparr> sd_count = length plain_rows,
       sd_entries = snd (fold (push_section plain_seg_ext) (v2_sections ascii_unicode plain_seg_ext plain_rows @ [(K_BLOCKS, [], [1])])
                           (u32_le MAGIC @ u32_le VERSION_V2, [])) \<rparr>"

definition plain_codec :: codec_ext where
  "plain_codec = seg_ext.extend plain_seg_ext
     \<lparr> rmp_blocks_to_vec = (\<lambda>b. if b = plain_blocks then Inr [1] else Inl []),
       rmp_blocks_from_slice = (\<lambda>b. if b = [1] then Inr plain_blocks else Inl []),
       rmp_dir_to_vec = (\<lambda>d. if d = plain_dir then Inr [2] else Inl []),
       rmp_dir_from_slice = (\<lambda>b. if b = [2] then Inr plain_dir else Inl []),
       rmp_records_from_slice = (\<lambda>b. Inl []) \<rparr>"

lemma plain_codec_ok: "codec_rmp_ok plain_codec"
  by (auto simp: codec_rmp_ok_def plain_codec_def plain_seg_ext_def sample_seg_ext_def seg_ext.defs split: if_splits)

lemma plain_sections:
  "v2_sections U X plain_rows =
     [(K_KEYS, [], encode_strings [as_bytes [97], as_bytes [98]]), (K_TS, [], i64_le 5 @ i64_le 5),
      (K_PAYLOAD, [], encode_payloads plain_rows)]"
  by (simp add: v2_sections_def plain_rows_def sample_record_def plan_labels_def label_names_def numeric_names_def btree_set_def
      bt_keys_def)

lemma plain_encoded: "\<exists>f. encode_v2 ascii_unicode plain_codec plain_rows = Inr f \<and> length f < 2 ^ 32"
proof -
  let ?ss = "v2_sections ascii_unicode plain_codec plain_rows @ [(K_BLOCKS, [], [1])]"
  have crc: "crc32_hash plain_codec = crc32_hash plain_seg_ext"
    by (simp add: plain_codec_def plain_seg_ext_def sample_seg_ext_def seg_ext.defs)
  then have push: "push_section plain_codec = push_section plain_seg_ext"
    by (intro ext) (simp add: push_section_def split: prod.split)
  have ss: "?ss = v2_sections ascii_unicode plain_seg_ext plain_rows @ [(K_BLOCKS, [], [1])]" by (simp only: plain_sections)
  let ?st = "fold (push_section plain_codec) ?ss (u32_le MAGIC @ u32_le VERSION_V2, [])"
  have dir: "rmp_dir_to_vec plain_codec \<lparr> sd_count = length plain_rows, sd_entries = snd ?st \<rparr> = Inr [2]"
    unfolding push ss by (simp add: plain_codec_def seg_ext.defs plain_dir_def)
  have blocks: "rmp_blocks_to_vec plain_codec (build_blocks plain_rows (plan_labels plain_rows)) = Inr [1]"
    by (simp add: plain_codec_def seg_ext.defs plain_blocks_def)
  have enc: "encode_v2 ascii_unicode plain_codec plain_rows =
      Inr (fst ?st @ [2] @ u64_le (length (fst ?st)) @ u32_le (crc32_hash plain_codec [2]) @ u32_le MAGIC)"
    unfolding encode_v2_def blocks sum.case using dir by (simp add: case_prod_beta del: fold_append)
  have "length (fst ?st) < 200"
    unfolding fold_push_section plain_sections
    by (simp add: encode_strings_def encode_payloads_def plain_rows_def sample_record_def as_bytes_def utf8_values_def utf8_char_def)
  with enc show ?thesis by simp
qed

theorem segment_file_roundtrip_witness:
  "\<exists>f c. encode_v2 ascii_unicode plain_codec plain_rows = Inr f \<and> read_all_records plain_codec f = Inr plain_rows \<and>
     load_segment ascii_unicode plain_codec f True = Inr (c, Some f) \<and>
     materialize plain_codec (Some f) c 1 True = Inr (sample_record [98])"
proof -
  obtain f where f: "encode_v2 ascii_unicode plain_codec plain_rows = Inr f" "length f < 2 ^ 32" using plain_encoded by blast
  have "unicode_str ascii_unicode"
    by (auto simp: unicode_str_def ascii_unicode_def str_ok_def list_all_iff is_scalar_def to_ascii_lower_def)
  moreover have "seg_records plain_rows"
    by (simp add: seg_records_def plain_rows_def sample_record_def record_ok_def str_ok_def is_scalar_def i64_ok_def i64_MIN_def i64_MAX_def)
  ultimately obtain c where "read_all_records plain_codec f = Inr plain_rows" "load_segment ascii_unicode plain_codec f True = Inr (c, Some f)"
    and m: "\<forall>i < length plain_rows. materialize plain_codec (Some f) c i True = Inr (plain_rows ! i)"
    using segment_file_roundtrip [OF plain_codec_ok ascii_unicode_ok _ _ f] by blast
  moreover have "materialize plain_codec (Some f) c 1 True = Inr (sample_record [98])"
    using m [rule_format, of 1] by (simp add: plain_rows_def)
  ultimately show ?thesis using f(1) by blast
qed

end
