(* ===== verification/Compaction.thy ===== *)
theory Compaction
  imports Engine_Fold Retention
begin

text \<open>
  The decisions of compaction (\<^verbatim>\<open>src/src/actors.rs\<close>): which run of segments to merge,
  the merge itself, the split of its result into size-capped segments and the recency slots those
  take. The file operations around them are in the theory \<open>Maintenance\<close>.
\<close>

section \<open>Choosing a run\<close>

definition run_size :: "SegmentMeta \<Rightarrow> nat" where
  "run_size m = max (zm_count (sm_zone m)) 1"

text \<open>How many of the following segments stay within one size tier.\<close>

fun tier_extend :: "nat \<Rightarrow> nat \<Rightarrow> SegmentMeta list \<Rightarrow> nat" where
  "tier_extend mn mx [] = 0"
| "tier_extend mn mx (m # ms) =
     (let s = run_size m; nmn = min mn s; nmx = max mx s
      in if 4 * nmn \<le> nmx then 0 else Suc (tier_extend nmn nmx ms))"

lemma tier_extend_le: "tier_extend mn mx ms \<le> length ms"
  by (induction ms arbitrary: mn mx) (auto simp: Let_def)

function tier_runs :: "nat \<Rightarrow> nat \<Rightarrow> (nat \<times> nat) option \<Rightarrow> SegmentMeta list \<Rightarrow> (nat \<times> nat) option" where
  "tier_runs min_len i best [] = best"
| "tier_runs min_len i best (m # ms) =
     (let len = Suc (tier_extend (run_size m) (run_size m) ms);
          better = (min_len \<le> len \<and> (case best of None \<Rightarrow> True | Some (_, bl) \<Rightarrow> bl < len))
      in tier_runs min_len (i + len) (if better then Some (i, len) else best) (drop len (m # ms)))"
  by pat_completeness auto
termination
  by (relation "measure (\<lambda>(_, _, _, ms). length ms)") auto

definition longest_tier_run :: "SegmentMeta list \<Rightarrow> nat \<Rightarrow> SegmentMeta list option" where
  "longest_tier_run window min_len =
     map_option (\<lambda>(s, l). take l (drop s window)) (tier_runs min_len 0 None window)"

text \<open>Maximal windows of consecutive mergeable segments.\<close>

fun windows_of :: "(SegmentMeta \<Rightarrow> bool) \<Rightarrow> SegmentMeta list \<Rightarrow> SegmentMeta list \<Rightarrow> SegmentMeta list list" where
  "windows_of P cur [] = (if cur = [] then [] else [cur])"
| "windows_of P cur (m # ms) =
     (if P m then windows_of P (cur @ [m]) ms
      else if cur \<noteq> [] then cur # windows_of P [] ms
      else windows_of P [] ms)"

definition mergeable :: "GirderConfig \<Rightarrow> SegmentMeta \<Rightarrow> bool" where
  "mergeable cfg m \<longleftrightarrow>
     sm_tier m = Hot \<and> zm_count (sm_zone m) < max (gc_max_segment_records cfg) 1 \<and>
     sm_bytes m < max (gc_max_segment_bytes cfg div 2) 1"

definition better_run :: "nat \<Rightarrow> SegmentMeta list \<Rightarrow> SegmentMeta list option \<Rightarrow> SegmentMeta list option" where
  "better_run min_len w best =
     (case longest_tier_run w min_len of
        None \<Rightarrow> best
      | Some run \<Rightarrow>
          (case best of
             None \<Rightarrow> Some run
           | Some b \<Rightarrow> if length b < length run then Some run else best))"

text \<open>\<^verbatim>\<open>max_by_key\<close> returns the last of several largest.\<close>

definition last_longest :: "SegmentMeta list list \<Rightarrow> SegmentMeta list option" where
  "last_longest ws =
     fold (\<lambda>w b. case b of None \<Rightarrow> Some w | Some x \<Rightarrow> if length x \<le> length w then Some w else b) ws None"

definition choose_run :: "GirderConfig \<Rightarrow> SegmentMeta list \<Rightarrow> SegmentMeta list option" where
  "choose_run cfg segments =
     (let min_seg = max (gc_compact_min_segments cfg) 1;
          effective_min =
            (if gc_retention_nanos cfg \<noteq> None \<or> gc_retention cfg \<noteq> [] then min_seg else max min_seg 2);
          windows = windows_of (mergeable cfg) [] (sort_key sm_id segments);
          hot_count = sum_list (map length windows);
          best = fold (better_run effective_min) windows None
      in if best = None \<and> 4 * min_seg < hot_count
         then last_longest (filter (\<lambda>w. 2 \<le> length w) windows)
         else best)"

section \<open>Merging and splitting\<close>

text \<open>One record onto what was merged so far; recovery and the groomer use the same step.\<close>

definition merge_record :: "Record \<Rightarrow> source \<Rightarrow> source" where
  "merge_record r merged =
     (if is_delta r then fmupd (rec_key r) (merge_delta (fmlookup merged (rec_key r)) r) merged
      else fmupd (rec_key r) r merged)"

definition merge_records :: "Record list \<Rightarrow> source" where
  "merge_records rs = fold merge_record rs fmempty"

definition retain_policy :: "RetentionPolicy \<Rightarrow> int \<Rightarrow> source \<Rightarrow> source" where
  "retain_policy policy now merged =
     fmfilter (\<lambda>k. case fmlookup merged k of None \<Rightarrow> False | Some r \<Rightarrow> retained policy now k r) merged"

definition retention_policy :: "GirderConfig \<Rightarrow> RetentionPolicy" where
  "retention_policy cfg = compile (gc_retention cfg) (gc_retention_nanos cfg)"

definition record_bytes :: "Record \<Rightarrow> nat" where
  "record_bytes r = length (rec_payload r) + length (as_bytes (rec_key r)) + 32"

text \<open>\<open>cur\<close> is the chunk from \<^verbatim>\<open>start\<close> to the current row, \<open>b\<close> its bytes.\<close>

fun split_loop :: "nat \<Rightarrow> nat \<Rightarrow> Record list \<Rightarrow> nat \<Rightarrow> Record list \<Rightarrow> Record list list" where
  "split_loop mr mb cur b [] = [cur]"
| "split_loop mr mb cur b (r # rs) =
     (let rb = record_bytes r in
      if cur \<noteq> [] \<and> (mr \<le> length cur \<or> mb < b + rb) then cur # split_loop mr mb [r] rb rs
      else split_loop mr mb (cur @ [r]) (b + rb) rs)"

definition split_chunks :: "Record list \<Rightarrow> nat \<Rightarrow> nat \<Rightarrow> Record list list" where
  "split_chunks records max_records max_bytes =
     (if records = [] then [] else split_loop (max max_records 1) max_bytes [] 0 records)"

text \<open>What a run is rewritten to, given the records of its segments oldest first.\<close>

definition compact_records :: "GirderConfig \<Rightarrow> int \<Rightarrow> rstr option \<Rightarrow> Record list list \<Rightarrow> Record list list" where
  "compact_records cfg now purge inputs =
     (let merged = merge_records (concat inputs);
          policy = retention_policy cfg;
          kept = (if policy_is_empty policy then merged else retain_policy policy now merged);
          purged = (case purge of None \<Rightarrow> kept | Some key \<Rightarrow> fmdrop key kept)
      in split_chunks (bt_values purged) (gc_max_segment_records cfg) (gc_max_segment_bytes cfg))"

section \<open>Runs are contiguous\<close>

lemma tier_runs_bounds:
  "tier_runs min_len i best ms = Some (s, l) \<Longrightarrow>
     best = Some (s, l) \<or> i \<le> s \<and> s + l \<le> i + length ms \<and> 0 < l"
proof (induction min_len i best ms rule: tier_runs.induct)
  case (2 min_len i best m ms)
  define len where "len = Suc (tier_extend (run_size m) (run_size m) ms)"
  have len: "len \<le> length (m # ms)" "0 < len" using tier_extend_le [of "run_size m" "run_size m" ms] by (simp_all add: len_def)
  note IH = 2(1) [OF refl refl, folded len_def] and eq = 2(2) [unfolded tier_runs.simps Let_def, folded len_def]
  from IH [OF eq] len show ?case by (auto split: if_splits)
qed simp

definition contiguous_in :: "'a list \<Rightarrow> 'a list \<Rightarrow> bool" where
  "contiguous_in xs ys \<longleftrightarrow> (\<exists>a b. ys = a @ xs @ b)"

lemma contiguous_trans: "contiguous_in xs ys \<Longrightarrow> contiguous_in ys zs \<Longrightarrow> contiguous_in xs zs"
  unfolding contiguous_in_def by (metis append.assoc)

lemma longest_tier_run_contiguous:
  assumes "longest_tier_run w n = Some run"
  shows "contiguous_in run w \<and> run \<noteq> []"
proof -
  from assms obtain s l where sl: "tier_runs n 0 None w = Some (s, l)" and run: "run = take l (drop s w)"
    by (auto simp: longest_tier_run_def)
  from tier_runs_bounds [OF sl] have b: "s + l \<le> length w" "0 < l" by auto
  have "w = take s w @ run @ drop (s + l) w" by (simp add: run flip: take_add append_assoc)
  with b show ?thesis unfolding contiguous_in_def by (auto simp: run)
qed

lemma windows_of_contiguous:
  "w \<in> set (windows_of P cur ms) \<Longrightarrow> list_all P cur \<Longrightarrow>
     contiguous_in w (cur @ ms) \<and> list_all P w \<and> w \<noteq> []"
proof (induction P cur ms rule: windows_of.induct)
  case (1 P cur)
  moreover have "contiguous_in cur cur" unfolding contiguous_in_def by (metis append_Nil append_Nil2)
  ultimately show ?case by (auto split: if_splits)
next
  case (2 P cur m ms)
  have shift: "contiguous_in w (cur @ m # ms)" if "contiguous_in w ([] @ ms)" for w
    using that unfolding contiguous_in_def by (metis append.assoc append_Cons append_Nil)
  show ?case
  proof (cases "P m")
    case True
    then show ?thesis using 2 by simp
  next
    case False
    then have "w \<in> set (windows_of P [] ms) \<or> cur \<noteq> [] \<and> w = cur" using 2(4) by (auto split: if_splits)
    then show ?thesis
    proof
      assume w: "w \<in> set (windows_of P [] ms)"
      then have "contiguous_in w ([] @ ms) \<and> list_all P w \<and> w \<noteq> []"
        using 2(2,3) False by (cases "cur = []") simp_all
      with shift show ?thesis by blast
    next
      assume "cur \<noteq> [] \<and> w = cur"
      moreover have "contiguous_in cur (cur @ m # ms)" unfolding contiguous_in_def by (metis append_Nil)
      ultimately show ?thesis using 2(5) by simp
    qed
  qed
qed

lemma fold_better_run:
  assumes "fold (better_run n) ws best = Some run"
  shows "best = Some run \<or> (\<exists>w \<in> set ws. longest_tier_run w n = Some run)"
  using assms
proof (induction ws arbitrary: best)
  case (Cons w ws)
  from Cons.IH Cons.prems have "better_run n w best = Some run \<or> (\<exists>w \<in> set ws. longest_tier_run w n = Some run)" by simp
  then show ?case by (auto simp: better_run_def split: option.splits if_splits)
qed simp

lemma last_longest_member: "last_longest ws = Some w \<Longrightarrow> w \<in> set ws"
proof -
  have "fold (\<lambda>w b. case b of None \<Rightarrow> Some w | Some x \<Rightarrow> if length x \<le> length w then Some w else b) ws b = Some w \<Longrightarrow>
      b = Some w \<or> w \<in> set ws" for b
    by (induction ws arbitrary: b) (auto split: option.splits if_splits)
  from this [of None] show "last_longest ws = Some w \<Longrightarrow> w \<in> set ws" by (simp add: last_longest_def)
qed

lemma choose_run_contiguous:
  assumes "choose_run cfg segments = Some run"
  shows "contiguous_in run (sort_key sm_id segments) \<and> list_all (mergeable cfg) run \<and> run \<noteq> []"
proof -
  let ?W = "windows_of (mergeable cfg) [] (sort_key sm_id segments)"
  obtain n where "fold (better_run n) ?W None = Some run \<or> last_longest (filter (\<lambda>w. 2 \<le> length w) ?W) = Some run"
    using assms by (simp add: choose_run_def Let_def split: if_splits) blast+
  then have "(\<exists>w n. w \<in> set ?W \<and> longest_tier_run w n = Some run) \<or> run \<in> set ?W"
    using fold_better_run [of n ?W None run] last_longest_member [of "filter (\<lambda>w. 2 \<le> length w) ?W" run] by auto
  then show ?thesis
  proof
    assume "run \<in> set ?W"
    from windows_of_contiguous [OF this] show ?thesis by simp
  next
    assume "\<exists>w n. w \<in> set ?W \<and> longest_tier_run w n = Some run"
    then obtain w n where w: "w \<in> set ?W" "longest_tier_run w n = Some run" by blast
    note c = windows_of_contiguous [OF w(1), simplified] and r = longest_tier_run_contiguous [OF w(2)]
    have "list_all (mergeable cfg) run" using c r by (auto simp: contiguous_in_def)
    with c r contiguous_trans show ?thesis by blast
  qed
qed

section \<open>Chunks\<close>

lemma split_loop_concat: "concat (split_loop mr mb cur b rs) = cur @ rs"
  by (induction mr mb cur b rs rule: split_loop.induct) (auto simp: Let_def)

lemma split_loop_nonempty:
  "cur \<noteq> [] \<or> rs \<noteq> [] \<Longrightarrow> [] \<notin> set (split_loop mr mb cur b rs)"
  by (induction mr mb cur b rs rule: split_loop.induct) (auto simp: Let_def)

lemma split_loop_cap:
  assumes "0 < mr" and "length cur \<le> mr" and "b = sum_list (map record_bytes cur)" and "length cur \<le> 1 \<or> b \<le> mb"
  shows "\<forall>c \<in> set (split_loop mr mb cur b rs).
           length c \<le> mr \<and> (length c \<le> 1 \<or> sum_list (map record_bytes c) \<le> mb)"
  using assms
proof (induction mr mb cur b rs rule: split_loop.induct)
  case (2 mr mb cur b r rs)
  show ?case
  proof (cases "cur \<noteq> [] \<and> (mr \<le> length cur \<or> mb < b + record_bytes r)")
    case True
    with 2 show ?thesis by (simp add: Let_def)
  next
    case False
    then have "\<forall>c \<in> set (split_loop mr mb (cur @ [r]) (b + record_bytes r) rs).
        length c \<le> mr \<and> (length c \<le> 1 \<or> sum_list (map record_bytes c) \<le> mb)"
      using 2(2) [OF refl] 2(3-6) by (cases cur) simp_all
    then show ?thesis unfolding split_loop.simps Let_def if_not_P [OF False] .
  qed
qed simp

lemma split_chunks_concat: "concat (split_chunks rs mr mb) = rs"
  by (simp add: split_chunks_def split_loop_concat)

lemma split_chunks_nonempty: "[] \<notin> set (split_chunks rs mr mb)"
  by (simp add: split_chunks_def split_loop_nonempty)


section \<open>The merge keeps the newest versions\<close>

definition merge_step :: "Record option \<Rightarrow> Record \<Rightarrow> Record option" where
  "merge_step b v = Some (if is_delta v then merge_delta b v else v)"

lemma merge_records_lookup:
  "fmlookup (fold merge_record rs m) k = foldl merge_step (fmlookup m k) (filter (\<lambda>r. rec_key r = k) rs)"
  by (induction rs arbitrary: m) (simp_all add: merge_record_def merge_step_def)

lemma merge_plain:
  assumes "\<forall>v \<in> set vs. \<not> is_delta v"
  shows "foldl merge_step None (rev vs) = (case vs of [] \<Rightarrow> None | v # _ \<Rightarrow> Some v)"
  using assms by (cases vs) (simp_all add: merge_step_def)

lemma filter_key_rev_sources:
  "list_all keyed R \<Longrightarrow> filter (\<lambda>r. rec_key r = k) (concat (map bt_values (rev R))) = rev (versions R k)"
  by (induction R) (simp_all add: filter_key_values split: option.splits)

text \<open>Merging sources oldest first gives, for a key without increments, its newest version.\<close>

lemma merge_records_latest:
  assumes "list_all keyed R" and "\<forall>v \<in> set (versions R k). \<not> is_delta v"
  shows "fmlookup (merge_records (concat (map bt_values (rev R)))) k = fmlookup (latest R) k"
  using assms by (simp add: merge_records_def merge_records_lookup filter_key_rev_sources merge_plain versions_latest)

lemma merge_record_keyed:
  assumes "keyed m"
  shows "keyed (merge_record r m)"
proof -
  have upd: "keyed (fmupd (rec_key r) x m)" if "rec_key x = rec_key r" for x
    using assms that by (simp add: keyed_def)
  have "rec_key (merge_delta (fmlookup m (rec_key r)) r) = rec_key r"
    by (rule merge_delta_key) (use assms in \<open>simp add: keyed_def\<close>)
  with upd show ?thesis by (simp add: merge_record_def)
qed

lemma merge_records_keyed: "keyed (merge_records rs)"
proof -
  have "keyed (fold merge_record rs m)" if "keyed m" for m
    using that by (induction rs arbitrary: m) (simp_all add: merge_record_keyed)
  moreover have "keyed fmempty" by (simp add: keyed_def)
  ultimately show ?thesis unfolding merge_records_def by blast
qed

lemma fold_run_base:
  assumes "\<not> is_delta v"
  shows "fold_run p (v # vs) = fold_run p [v]"
proof (cases p)
  case None
  then show ?thesis using assms by (simp add: feed_version_def)
next
  case (Some q)
  with assms show ?thesis by (simp add: feed_version_def Let_def is_delta_merge_Some)
qed

lemma fold_run_base_done: "\<not> is_delta v \<Longrightarrow> \<exists>r. fold_run p [v] = Inr r"
  by (cases p) (simp_all add: feed_version_def Let_def is_delta_merge_Some)

text \<open>
  A block of sources may be replaced by one that holds, for a key without increments in the block,
  just its newest version there: the key reads the same.
\<close>

lemma folded_replace:
  assumes "\<forall>v \<in> set (versions R k). \<not> is_delta v"
    and "versions Q k = (case fmlookup (latest R) k of None \<Rightarrow> [] | Some r \<Rightarrow> [r])"
  shows "folded (versions (A @ Q @ B) k) = folded (versions (A @ R @ B) k)"
proof (cases "versions R k")
  case Nil
  with assms(2) show ?thesis by (simp add: versions_append versions_latest)
next
  case (Cons v vs)
  then have v: "\<not> is_delta v" and Q: "versions Q k = [v]" using assms by (simp_all add: versions_latest)
  have "fold_run p (v # vs @ ws) = fold_run p (v # ws)" for p ws
    using fold_run_base [OF v, of p "vs @ ws"] fold_run_base [OF v, of p ws] by simp
  then show ?thesis
    unfolding folded_def versions_append Q Cons by (simp add: fold_run_append split: sum.splits)
qed

section \<open>The chunks as sources\<close>

lemma versions_disjoint:
  assumes "distinct (map rec_key (concat chunks))" and "\<forall>c \<in> set chunks. sorted_wrt (<) (map rec_key c)"
  shows "versions (map seg_map chunks) k = filter (\<lambda>r. rec_key r = k) (concat chunks)"
  using assms
  by (induction chunks) (simp_all add: filter_key_seg split: option.splits)

lemma filter_one:
  assumes "distinct (map rec_key rs)"
  shows "filter (\<lambda>r. rec_key r = k) (rev rs) = filter (\<lambda>r. rec_key r = k) rs"
proof -
  have "length (filter (\<lambda>r. rec_key r = k) rs) \<le> 1"
  proof -
    let ?F = "filter (\<lambda>r. rec_key r = k) rs"
    have "distinct (map rec_key ?F)" using assms by (rule distinct_map_filter)
    moreover have "set (map rec_key ?F) \<subseteq> {k}" by auto
    ultimately have "length (map rec_key ?F) \<le> card {k}" by (metis card_mono distinct_card finite.emptyI finite_insert)
    then show ?thesis by simp
  qed
  then show ?thesis by (cases "filter (\<lambda>r. rec_key r = k) rs" rule: rev_cases) (auto simp: rev_filter [symmetric])
qed

lemma sorted_chunks:
  assumes "sorted_wrt R (concat xss)" and "c \<in> set xss"
  shows "sorted_wrt R c"
  using assms by (induction xss) (auto simp: sorted_wrt_append)

text \<open>Chunks of a keyed map, newest slot first, hold each key once.\<close>

lemma versions_chunks:
  assumes "keyed M" and "concat chunks = bt_values M"
  shows "versions (map seg_map (rev chunks)) k = (case fmlookup M k of None \<Rightarrow> [] | Some r \<Rightarrow> [r])"
proof -
  have keys: "map rec_key (bt_values M) = bt_keys M"
    using assms(1) unfolding bt_values_def bt_keys_def map_map comp_def
    by (intro map_cong) (auto simp: keyed_def)
  have "sorted_wrt (<) (map rec_key (concat chunks))" unfolding assms(2) keys by simp
  then have sorted: "sorted_wrt (\<lambda>a b. rec_key a < rec_key b) (concat chunks)" by (simp add: sorted_wrt_map)
  have d: "distinct (map rec_key (concat chunks))" unfolding assms(2) keys by simp
  have s: "\<forall>c \<in> set (rev chunks). sorted_wrt (<) (map rec_key c)"
    using sorted_chunks [OF sorted] by (simp add: sorted_wrt_map)
  have rev: "mset (concat (rev chunks)) = mset (concat chunks)" by (induction chunks) simp_all
  have "distinct (map rec_key (concat (rev chunks)))"
    using d by (metis mset_map mset_eq_imp_distinct_iff rev)
  from versions_disjoint [OF this s]
  have "versions (map seg_map (rev chunks)) k = filter (\<lambda>r. rec_key r = k) (concat (rev chunks))" .
  also have "\<dots> = (case fmlookup M k of None \<Rightarrow> [] | Some r \<Rightarrow> [r])"
  proof (rule filter_key_one)
    show "distinct (map rec_key (concat (rev chunks)))" by fact
    show "r \<in> set (concat (rev chunks)) \<and> rec_key r = k \<longleftrightarrow> fmlookup M k = Some r" for r
      using mset_eq_setD [OF rev] assms keyed_values [OF assms(1), of r]
      by (auto simp: keyed_def)
  qed
  finally show ?thesis .
qed

section \<open>Where the comments promise more\<close>

text \<open>
  The scan for the longest run restarts where a run broke, so it can miss a longer run that starts
  inside the broken one: of segments with 1, 3, 4, 4 and 4 records it finds no run of four, although
  the last four are one size tier.
\<close>

definition counted :: "nat \<Rightarrow> SegmentMeta" where
  "counted n =
     \<lparr> sm_id = 0, sm_file = [], sm_tier = Hot, sm_zone = (zone_build [])\<lparr> zm_count := n \<rparr>, sm_bytes = 0, sm_created = 0 \<rparr>"

lemma longest_tier_run_misses_longer:
  "longest_tier_run (map counted [1, 3, 4, 4, 4]) 4 = None \<and>
   longest_tier_run (map counted [3, 4, 4, 4]) 4 = Some (map counted [3, 4, 4, 4])"
  by (simp add: longest_tier_run_def counted_def run_size_def)

text \<open>
  Two inputs that each fit a segment can split into three: the rows of one fall between the rows of
  the other.
\<close>

definition sized :: "nat \<Rightarrow> nat \<Rightarrow> Record" where
  "sized k n =
     \<lparr> rec_key = [k], rec_timestamp = 0, rec_labels = fmempty, rec_numerics = fmempty, rec_payload = replicate n 0, rec_text = None \<rparr>"

lemma split_exceeds_inputs:
  "sum_list (map record_bytes [sized 1 7, sized 3 17]) \<le> 95 \<and> sum_list (map record_bytes [sized 2 27, sized 4 1]) \<le> 95 \<and>
   length (split_chunks [sized 1 7, sized 2 27, sized 3 17, sized 4 1] 100 95) = 3"
  by (simp add: record_bytes_def sized_def split_chunks_def as_bytes_def utf8_values_def utf8_char_def Let_def)

end
