(* ===== verification/Store.thy ===== *)
theory Store
  imports Compaction Section_Cache Blob_Store
begin

text \<open>
  The engine as a whole (\<^verbatim>\<open>src/src/engine.rs\<close>, the writer of
  \<^verbatim>\<open>src/src/actors.rs\<close>): the shared state, the logs and files on disk, the remote store,
  and the operations that change them. An operation is a function from the state to a result and
  the new state, so that what was done before an error stays done. Whether a file operation fails
  is decided by the environment, by the number of operations before it.
\<close>

section \<open>Environment\<close>

text \<open>
  \<^verbatim>\<open>ObjectStore\<close> is a trait whose implementations are injected: its four methods over a
  state of its own.
\<close>

record 'o object_store =
  os_put :: "rstr \<Rightarrow> byte list \<Rightarrow> 'o \<Rightarrow> unit result \<times> 'o"
  os_get :: "rstr \<Rightarrow> 'o \<Rightarrow> byte list option result"
  os_delete :: "rstr \<Rightarrow> 'o \<Rightarrow> unit result \<times> 'o"
  os_list :: "rstr \<Rightarrow> 'o \<Rightarrow> rstr list result"

text \<open>
  \<open>en_io n\<close> is the fate of the \<open>n\<close>-th file operation: done, or failed, a write then after that many
  bytes; \<open>en_wal_io n\<close> that of a log operation; \<open>en_mtime\<close> gives the modification times the pull
  cache is pruned by and \<open>en_now\<close> the clock.
\<close>

record ('x, 'o) env =
  en_unicode :: unicode
  en_ext :: "'x man_ext_scheme"
  en_objects :: "'o object_store option"
  en_io :: "nat \<Rightarrow> (io_kind \<times> nat) option"
  en_wal_io :: "nat \<Rightarrow> wal_io"
  en_mtime :: "path \<Rightarrow> int"
  en_now :: int

section \<open>State and actions\<close>

text \<open>
  Logs are the files \<^verbatim>\<open>wal-{seq:016}.log\<close> by their sequence number; \<open>so_log\<close> is the number of
  the one the writer holds open (its field \<^verbatim>\<open>wal\<close>) and \<open>so_wal_seq\<close> the number it counts;
  \<open>so_disk\<close> holds every other file; \<open>so_io\<close> counts the file operations so far.
\<close>

record 'o Store =
  so_engine :: EngineInner
  so_disk :: fsys
  so_logs :: "(nat, Wal) fmap"
  so_wal_seq :: nat
  so_log :: nat
  so_remote :: 'o
  so_cache :: SegmentCache
  so_cursor :: nat
  so_ticks :: nat
  so_io :: nat

type_synonym ('o, 'a) act = "'o Store \<Rightarrow> 'a result \<times> 'o Store"

definition ret :: "'a \<Rightarrow> ('o, 'a) act" where
  "ret x s = (Inr x, s)"

definition fail :: "girder_error \<Rightarrow> ('o, 'a) act" where
  "fail e s = (Inl e, s)"

definition bind_act :: "('o, 'a) act \<Rightarrow> ('a \<Rightarrow> ('o, 'b) act) \<Rightarrow> ('o, 'b) act" where
  "bind_act m f s = (case m s of (Inl e, s') \<Rightarrow> (Inl e, s') | (Inr x, s') \<Rightarrow> f x s')"

definition of_result :: "'a result \<Rightarrow> ('o, 'a) act" where
  "of_result r s = (r, s)"

text \<open>\<^verbatim>\<open>.ok()\<close> on a result that is dropped.\<close>

definition ignore_err :: "('o, unit) act \<Rightarrow> ('o, unit) act" where
  "ignore_err m s = (Inr (), snd (m s))"

definition get_state :: "('o Store \<Rightarrow> 'a) \<Rightarrow> ('o, 'a) act" where
  "get_state f s = (Inr (f s), s)"

definition put_state :: "('o Store \<Rightarrow> 'o Store) \<Rightarrow> ('o, unit) act" where
  "put_state f s = (Inr (), f s)"

definition set_manifest :: "(Manifest \<Rightarrow> Manifest) \<Rightarrow> 'o Store \<Rightarrow> 'o Store" where
  "set_manifest f s = s\<lparr> so_engine := (so_engine s)\<lparr> ei_manifest := f (ei_manifest (so_engine s)) \<rparr> \<rparr>"

abbreviation so_manifest :: "'o Store \<Rightarrow> Manifest" where
  "so_manifest s \<equiv> ei_manifest (so_engine s)"

abbreviation so_config :: "'o Store \<Rightarrow> GirderConfig" where
  "so_config s \<equiv> ei_config (so_engine s)"

text \<open>One file operation: it may fail, and a rename or removal of a missing file does.\<close>

definition op_possible :: "fs_op \<Rightarrow> fsys \<Rightarrow> bool" where
  "op_possible op d =
     (case op of FsRename p q \<Rightarrow> fmlookup d p \<noteq> None | FsRemove p \<Rightarrow> fmlookup d p \<noteq> None
      | FsSync p \<Rightarrow> fmlookup d p \<noteq> None | FsWrite p bs \<Rightarrow> True)"

definition perform :: "('x, 'o) env \<Rightarrow> fs_op \<Rightarrow> ('o, unit) act" where
  "perform E op s =
     (let s1 = s\<lparr> so_io := so_io s + 1 \<rparr> in
      case en_io E (so_io s) of
        Some (k, n) \<Rightarrow>
          (Inl (Io k),
           case op of FsWrite p bs \<Rightarrow> s1\<lparr> so_disk := fmupd p (take n bs) (so_disk s) \<rparr> | _ \<Rightarrow> s1)
      | None \<Rightarrow>
          if op_possible op (so_disk s) then (Inr (), s1\<lparr> so_disk := fs_step op (so_disk s) \<rparr>)
          else (Inl (Io NotFound), s1))"

fun perform_all :: "('x, 'o) env \<Rightarrow> fs_op list \<Rightarrow> ('o, unit) act" where
  "perform_all E [] s = ret () s"
| "perform_all E (op # ops) s = bind_act (perform E op) (\<lambda>_. perform_all E ops) s"

definition read_path :: "('x, 'o) env \<Rightarrow> path \<Rightarrow> ('o, byte list) act" where
  "read_path E p s =
     (let s1 = s\<lparr> so_io := so_io s + 1 \<rparr> in
      case en_io E (so_io s) of
        Some (k, _) \<Rightarrow> (Inl (Io k), s1)
      | None \<Rightarrow> (case fs_read (so_disk s) p of Inl k \<Rightarrow> (Inl (Io k), s1) | Inr bs \<Rightarrow> (Inr bs, s1)))"

text \<open>\<^verbatim>\<open>std::fs::metadata(path).map(|m| m.len()).unwrap_or(0)\<close>.\<close>

definition file_len :: "path \<Rightarrow> 'o Store \<Rightarrow> nat" where
  "file_len p s = (case fmlookup (so_disk s) p of None \<Rightarrow> 0 | Some bs \<Rightarrow> length bs)"

section \<open>Segments and manifest on disk\<close>

definition store_manifest :: "('x, 'o) env \<Rightarrow> ('o, unit) act" where
  "store_manifest E s =
     bind_act (of_result (manifest_store (en_ext E) (gc_hot_dir (so_config s)) (so_manifest s))) (perform_all E) s"

definition alloc_seq :: "('o, nat) act" where
  "alloc_seq s =
     (Inr (mf_next_segment_id (so_manifest s)),
      set_manifest (\<lambda>m. m\<lparr> mf_next_segment_id := mf_next_segment_id m + 1 \<rparr>) s)"

text \<open>\<^verbatim>\<open>Path::with_extension\<close> on the last component.\<close>

definition with_extension :: "rstr \<Rightarrow> path \<Rightarrow> path" where
  "with_extension ext p =
     (let name = last p; stem = rev (tl (dropWhile (\<lambda>c. c \<noteq> 46) (rev name)))
      in butlast p @ [(if stem = [] then name else stem) @ lit ''.'' @ ext])"

definition write_sorted :: "('x, 'o) env \<Rightarrow> path \<Rightarrow> Record list \<Rightarrow> ('o, ZoneMap) act" where
  "write_sorted E p records =
     bind_act (of_result (encode_v2 (en_unicode E) (en_ext E) records)) (\<lambda>out.
       let tmp = with_extension (lit ''tmp'') p in
       bind_act (perform_all E [FsWrite tmp out, FsSync tmp, FsRename tmp p]) (\<lambda>_.
         ret (zone_build records)))"

definition read_all :: "('x, 'o) env \<Rightarrow> path \<Rightarrow> ('o, Record list) act" where
  "read_all E p = bind_act (read_path E p) (\<lambda>bytes. of_result (read_all_records (en_ext E) bytes))"

definition drop_segment_file :: "('x, 'o) env \<Rightarrow> SegmentMeta \<Rightarrow> ('o, unit) act" where
  "drop_segment_file E m s =
     (let hot = gc_hot_dir (so_config s) in
      case sm_tier m of
        Remote \<Rightarrow>
          bind_act
            (case en_objects E of
               None \<Rightarrow> ret ()
             | Some os \<Rightarrow> (\<lambda>s. case os_delete os (sm_file m) (so_remote s) of (r, o') \<Rightarrow> (r, s\<lparr> so_remote := o' \<rparr>)))
            (\<lambda>_. ignore_err (perform E (FsRemove (hot @ [PULL_SUBDIR, sm_file m])))) s
      | _ \<Rightarrow> ignore_err (perform E (FsRemove (segment_path hot (gc_cold_dir (so_config s)) m))) s)"

section \<open>Opening a segment\<close>

text \<open>Pull-cache entries oldest first, until the incoming object fits the budget.\<close>

fun prune_loop :: "('x, 'o) env \<Rightarrow> nat \<Rightarrow> nat \<Rightarrow> nat \<Rightarrow> nat \<Rightarrow> (nat \<times> path) list \<Rightarrow> ('o, unit) act" where
  "prune_loop E budget resident incoming freed [] s = ret () s"
| "prune_loop E budget resident incoming freed ((len, p) # es) s =
     (if (resident - freed) + incoming \<le> budget then ret () s
      else bind_act (ignore_err (perform E (FsRemove p)))
             (\<lambda>_. prune_loop E budget resident incoming (freed + len) es) s)"

definition prune_pull_cache :: "('x, 'o) env \<Rightarrow> path \<Rightarrow> rstr \<Rightarrow> nat \<Rightarrow> ('o, unit) act" where
  "prune_pull_cache E pull_dir keep incoming s =
     (let entries = filter (\<lambda>p. length p = length pull_dir + 1 \<and> prefix pull_dir p \<and> last p \<noteq> keep) (bt_keys (so_disk s));
          sized = map (\<lambda>p. (file_len p s, p)) (sort_key (en_mtime E) entries);
          resident = sum_list (map fst sized)
      in prune_loop E (gc_pull_cache_bytes (so_config s)) resident incoming 0 sized s)"

definition open_remote_segment :: "('x, 'o) env \<Rightarrow> SegmentMeta \<Rightarrow> ('o, byte list) act" where
  "open_remote_segment E m s =
     (let pull_dir = gc_hot_dir (so_config s) @ [PULL_SUBDIR]; p = pull_dir @ [sm_file m] in
      case read_path E p s of
        (Inr bytes, s1) \<Rightarrow> (Inr bytes, s1)
      | (Inl _, s1) \<Rightarrow>
          (case en_objects E of
             None \<Rightarrow>
               (Inl (Corrupt ''manifest'' (lit ''remote segment '' @ sm_file m @ lit '' but no object store injected'')), s1)
           | Some os \<Rightarrow>
               (case os_get os (sm_file m) (so_remote s1) of
                  Inl e \<Rightarrow> (Inl e, s1)
                | Inr None \<Rightarrow> (Inl (Corrupt ''segment'' (lit ''remote object '' @ sm_file m @ lit '' is missing'')), s1)
                | Inr (Some bytes) \<Rightarrow>
                    bind_act (prune_pull_cache E pull_dir (sm_file m) (length bytes)) (\<lambda>_.
                      let tmp = pull_dir @ [sm_file m @ lit ''.tmp''] in
                      bind_act (perform_all E [FsWrite tmp bytes, FsRename tmp p]) (\<lambda>_. read_path E p)) s1)))"

definition open_segment_file :: "('x, 'o) env \<Rightarrow> SegmentMeta \<Rightarrow> ('o, byte list) act" where
  "open_segment_file E m s =
     (if sm_tier m = Remote then open_remote_segment E m s
      else
        (let hot = gc_hot_dir (so_config s); cold = gc_cold_dir (so_config s) in
         case read_path E (segment_path hot cold m) s of
           (Inl (Io NotFound), s1) \<Rightarrow>
             read_path E (if sm_tier m = Hot then cold @ [sm_file m] else hot @ [sm_file m]) s1
         | r \<Rightarrow> r))"

section \<open>The writer\<close>

datatype WriterMsg = Append "Record list" | Incr Record | Freeze | Sync

text \<open>
  The memtable is taken and the number raised before the next log is opened; the memtable joins the
  frozen ones after. When the log cannot be opened the writer keeps the old one.
\<close>

definition open_log :: "('x, 'o) env \<Rightarrow> nat \<Rightarrow> ('o, unit) act" where
  "open_log E seq s =
     (let bytes = (case fmlookup (so_logs s) seq of None \<Rightarrow> [] | Some w \<Rightarrow> wal_file w);
          s1 = s\<lparr> so_io := so_io s + 1 \<rparr>
      in case wal_open (en_wal_io E (so_io s)) bytes (gc_fsync (so_config s)) of
           (Inl e, left) \<Rightarrow>
             (Inl e, s1\<lparr> so_logs := fmupd seq \<lparr> wal_file = left, wal_synced = 0, wal_policy = gc_fsync (so_config s),
                                              wal_since_sync = 0, wal_appended = 0 \<rparr> (so_logs s) \<rparr>)
         | (Inr w, _) \<Rightarrow> (Inr (), s1\<lparr> so_logs := fmupd seq w (so_logs s), so_log := seq \<rparr>))"

definition writer_freeze :: "('x, 'o) env \<Rightarrow> ('o, nat option) act" where
  "writer_freeze E s =
     (let t = ei_memtable (so_engine s); frozen_seq = so_wal_seq s in
      if mt_is_empty t then (Inr None, s)
      else
        bind_act (open_log E (frozen_seq + 1)) (\<lambda>_ s1.
          (Inr (Some frozen_seq),
           s1\<lparr> so_engine := (so_engine s1)\<lparr> ei_frozen := ei_frozen (so_engine s1) @ [(frozen_seq, t)] \<rparr> \<rparr>))
          (s\<lparr> so_engine := (so_engine s)\<lparr> ei_memtable := mt_default \<rparr>, so_wal_seq := frozen_seq + 1 \<rparr>))"

definition log_batch :: "('x, 'o) env \<Rightarrow> Record list \<Rightarrow> ('o, unit) act" where
  "log_batch E records s =
     (case fmlookup (so_logs s) (so_log s) of
        None \<Rightarrow> (Inl ShutDown, s)
      | Some w \<Rightarrow>
          (case append_batch (en_ext E) (en_wal_io E (so_io s)) w records of
             (r, w') \<Rightarrow> (r, s\<lparr> so_logs := fmupd (so_log s) w' (so_logs s), so_io := so_io s + 1 \<rparr>)))"

definition freeze_if_full :: "('x, 'o) env \<Rightarrow> ('o, nat option) act" where
  "freeze_if_full E s =
     (if gc_memtable_max_records (so_config s) \<le> mt_len (ei_memtable (so_engine s)) then writer_freeze E s
      else (Inr None, s))"

definition set_memtable :: "(MemTable \<Rightarrow> MemTable) \<Rightarrow> 'o Store \<Rightarrow> 'o Store" where
  "set_memtable f s = s\<lparr> so_engine := (so_engine s)\<lparr> ei_memtable := f (ei_memtable (so_engine s)) \<rparr> \<rparr>"

definition writer_call :: "('x, 'o) env \<Rightarrow> WriterMsg \<Rightarrow> ('o, nat option) act" where
  "writer_call E msg =
     (case msg of
        Append records \<Rightarrow>
          bind_act (log_batch E records) (\<lambda>_.
          bind_act (put_state (set_memtable (\<lambda>t. foldl (mt_insert (en_unicode E)) t records))) (\<lambda>_.
            freeze_if_full E))
      | Incr r \<Rightarrow>
          bind_act (log_batch E [r]) (\<lambda>_.
          bind_act (put_state (set_memtable (\<lambda>t. insert_delta (en_unicode E) t r))) (\<lambda>_.
            freeze_if_full E))
      | Freeze \<Rightarrow> writer_freeze E
      | Sync \<Rightarrow>
          (\<lambda>s. case fmlookup (so_logs s) (so_log s) of
                 None \<Rightarrow> (Inl ShutDown, s)
               | Some w \<Rightarrow>
                   (case wal_sync (en_wal_io E (so_io s)) w of
                      (Inl e, w') \<Rightarrow> (Inl e, s\<lparr> so_logs := fmupd (so_log s) w' (so_logs s), so_io := so_io s + 1 \<rparr>)
                    | (Inr _, w') \<Rightarrow>
                        (Inr None, s\<lparr> so_logs := fmupd (so_log s) w' (so_logs s), so_io := so_io s + 1 \<rparr>))))"

section \<open>Flush\<close>

text \<open>The log is removed once the manifest lists the segment; a failed removal is ignored.\<close>

definition remove_log :: "('x, 'o) env \<Rightarrow> nat \<Rightarrow> ('o, unit) act" where
  "remove_log E seq s =
     (let s1 = s\<lparr> so_io := so_io s + 1 \<rparr> in
      case en_io E (so_io s) of
        Some _ \<Rightarrow> (Inr (), s1)
      | None \<Rightarrow> (Inr (), s1\<lparr> so_logs := fmdrop seq (so_logs s) \<rparr>))"

definition flush_one :: "('x, 'o) env \<Rightarrow> FrozenMemtable \<Rightarrow> ('o, unit) act" where
  "flush_one E fz s =
     (case fz of (wal_seq, t) \<Rightarrow>
        bind_act alloc_seq (\<lambda>seq.
          let p = gc_hot_dir (so_config s) @ [seg_file seq] in
          bind_act (write_sorted E p (mt_values t)) (\<lambda>zone.
          bind_act (get_state (file_len p)) (\<lambda>bytes.
          bind_act
            (put_state (set_manifest (\<lambda>m. m\<lparr> mf_segments := mf_segments m @
               [\<lparr> sm_id = seq, sm_file = seg_file seq, sm_tier = Hot, sm_zone = zone, sm_bytes = bytes,
                  sm_created = en_now E \<rparr>] \<rparr>))) (\<lambda>_.
          bind_act (store_manifest E) (\<lambda>_.
          bind_act (remove_log E wal_seq) (\<lambda>_.
            put_state (\<lambda>s. s\<lparr> so_engine := (so_engine s)\<lparr> ei_frozen := tl (ei_frozen (so_engine s)) \<rparr> \<rparr>))))))) s)"

fun flush_each :: "('x, 'o) env \<Rightarrow> FrozenMemtable list \<Rightarrow> nat \<Rightarrow> ('o, nat) act" where
  "flush_each E [] n s = ret n s"
| "flush_each E (fz # fzs) n s = bind_act (flush_one E fz) (\<lambda>_. flush_each E fzs (n + 1)) s"

definition flush_pending :: "('x, 'o) env \<Rightarrow> ('o, nat) act" where
  "flush_pending E s = flush_each E (ei_frozen (so_engine s)) 0 s"

section \<open>The public write operations\<close>

text \<open>
  A write that froze the memtable also sends the maintenance actor a message to flush; that is a
  step of its own. Errors of the actors reach the caller as text; the model keeps the value.
\<close>

definition put_batch :: "('x, 'o) env \<Rightarrow> Record list \<Rightarrow> ('o, unit) act" where
  "put_batch E records = bind_act (writer_call E (Append records)) (\<lambda>_. ret ())"

definition engine_put :: "('x, 'o) env \<Rightarrow> Record \<Rightarrow> ('o, unit) act" where
  "engine_put E r = put_batch E [r]"

definition engine_delete :: "('x, 'o) env \<Rightarrow> rstr \<Rightarrow> int \<Rightarrow> ('o, unit) act" where
  "engine_delete E key timestamp = engine_put E (tombstone key timestamp)"

definition opener_of :: "('x, 'o) env \<Rightarrow> 'o Store \<Rightarrow> opener" where
  "opener_of E s m = fst (open_segment_file E m s)"

definition delta_record :: "rstr \<Rightarrow> int \<Rightarrow> (rstr, f64) bmap \<Rightarrow> Record" where
  "delta_record key timestamp deltas =
     set_delta \<lparr> rec_key = key, rec_timestamp = timestamp, rec_labels = fmempty, rec_numerics = deltas,
                 rec_payload = [], rec_text = None \<rparr>"

definition engine_incr ::
  "('x, 'o) env \<Rightarrow> rstr \<Rightarrow> int \<Rightarrow> (rstr, f64) bmap \<Rightarrow> ('o, (rstr, f64) bmap) act" where
  "engine_incr E key timestamp deltas =
     bind_act (writer_call E (Incr (delta_record key timestamp deltas))) (\<lambda>_ s.
       (case engine_get (en_unicode E) (en_ext E) (\<lambda>_. (opener_of E s, so_engine s)) key of
          Inl e \<Rightarrow> (Inl e, s)
        | Inr None \<Rightarrow> (Inr fmempty, s)
        | Inr (Some r) \<Rightarrow> (Inr (rec_numerics r), s)))"

definition engine_flush :: "('x, 'o) env \<Rightarrow> ('o, unit) act" where
  "engine_flush E = bind_act (writer_call E Freeze) (\<lambda>_. bind_act (flush_pending E) (\<lambda>_. ret ()))"

definition engine_close :: "('x, 'o) env \<Rightarrow> ('o, unit) act" where
  "engine_close E =
     bind_act (engine_flush E) (\<lambda>_. ignore_err (bind_act (writer_call E Sync) (\<lambda>_. ret ())))"

section \<open>Opening\<close>

text \<open>Objects no live remote entry names are deleted; local copies of remote segments too.\<close>

fun delete_orphans :: "'o object_store \<Rightarrow> rstr fset \<Rightarrow> rstr list \<Rightarrow> ('o, unit) act" where
  "delete_orphans os live [] s = ret () s"
| "delete_orphans os live (key # ks) s =
     (if key |\<in>| live then delete_orphans os live ks s
      else
        (case os_delete os key (so_remote s) of
           (Inl e, o') \<Rightarrow> (Inl e, s\<lparr> so_remote := o' \<rparr>)
         | (Inr _, o') \<Rightarrow> delete_orphans os live ks (s\<lparr> so_remote := o' \<rparr>)))"

fun reap_local :: "('x, 'o) env \<Rightarrow> SegmentMeta list \<Rightarrow> ('o, unit) act" where
  "reap_local E [] s = ret () s"
| "reap_local E (m # ms) s =
     bind_act (ignore_err (perform E (FsRemove (gc_hot_dir (so_config s) @ [sm_file m])))) (\<lambda>_.
     bind_act (ignore_err (perform E (FsRemove (gc_cold_dir (so_config s) @ [sm_file m])))) (\<lambda>_.
       reap_local E ms)) s"

definition reconcile_remote :: "('x, 'o) env \<Rightarrow> ('o, unit) act" where
  "reconcile_remote E s =
     (case en_objects E of
        None \<Rightarrow> ret () s
      | Some os \<Rightarrow>
          (let remote = filter (\<lambda>m. sm_tier m = Remote) (mf_segments (so_manifest s)) in
           case os_list os SEGMENT_KEY_PREFIX (so_remote s) of
             Inl e \<Rightarrow> (Inl e, s)
           | Inr keys \<Rightarrow>
               bind_act (delete_orphans os (fset_of_list (map sm_file remote)) keys) (\<lambda>_. reap_local E remote) s))"

fun replay_logs :: "('x) man_ext_scheme \<Rightarrow> Wal list \<Rightarrow> Record list result" where
  "replay_logs X [] = Inr []"
| "replay_logs X (w # ws) =
     and_then (replay X (Some (wal_file w))) (\<lambda>rs. and_then (replay_logs X ws) (\<lambda>rest. Inr (rs @ rest)))"

fun remove_logs :: "('x, 'o) env \<Rightarrow> nat list \<Rightarrow> ('o, unit) act" where
  "remove_logs E [] s = ret () s"
| "remove_logs E (seq # seqs) s = bind_act (remove_log E seq) (\<lambda>_. remove_logs E seqs) s"

text \<open>
  What opening finds: the files and logs a previous process left. Every log is replayed, oldest
  first, and what they hold is written again through the new log and flushed before the old ones
  go. (What the actor runtime does when the writer cannot open its log is outside the model; here
  opening fails.)
\<close>

definition open_inner :: "('x, 'o) env \<Rightarrow> GirderConfig \<Rightarrow> fsys \<Rightarrow> (nat, Wal) fmap \<Rightarrow> 'o \<Rightarrow> unit result \<times> 'o Store" where
  "open_inner E cfg disk logs remote =
     (let s0 = \<lparr> so_engine = \<lparr> ei_config = cfg, ei_memtable = mt_default, ei_frozen = [], ei_manifest = manifest_default \<rparr>,
                 so_disk = disk, so_logs = logs, so_wal_seq = 0, so_log = 0, so_remote = remote,
                 so_cache = cache_new (gc_cache_bytes cfg), so_cursor = 0, so_ticks = 0, so_io = 0 \<rparr>;
          seqs = bt_keys logs;
          next_wal_seq = (if seqs = [] then 0 else last seqs + 1)
      in bind_act (of_result (manifest_load (en_ext E) (fs_read disk (manifest_path (gc_hot_dir cfg))))) (\<lambda>m.
         bind_act (put_state (set_manifest (\<lambda>_. m))) (\<lambda>_.
         bind_act (reconcile_remote E) (\<lambda>_.
         bind_act (of_result (replay_logs (en_ext E) (bt_values logs))) (\<lambda>replayed.
         let recovered = merge_records replayed in
         bind_act (put_state (\<lambda>s. s\<lparr> so_wal_seq := next_wal_seq \<rparr>)) (\<lambda>_.
         bind_act (open_log E next_wal_seq) (\<lambda>_.
           if recovered = fmempty then ret ()
           else
             bind_act (put_batch E (bt_values recovered)) (\<lambda>_.
             bind_act (engine_flush E) (\<lambda>_.
               remove_logs E seqs)))))))) s0)"

end
