(* ===== verification/Maintenance.thy ===== *)
theory Maintenance
  imports Store
begin

text \<open>
  The maintenance actor (\<^verbatim>\<open>src/src/actors.rs\<close>): compaction, purge, reclamation of sealed
  segments, retention grooming, format migration and tiering, as actions on the store.
\<close>

section \<open>Compaction\<close>

definition seg_path :: "'o Store \<Rightarrow> SegmentMeta \<Rightarrow> path" where
  "seg_path s m = segment_path (gc_hot_dir (so_config s)) (gc_cold_dir (so_config s)) m"

fun read_inputs :: "('x, 'o) env \<Rightarrow> SegmentMeta list \<Rightarrow> ('o, Record list list) act" where
  "read_inputs E [] s = ret [] s"
| "read_inputs E (m # ms) s =
     bind_act (read_all E (seg_path s m)) (\<lambda>rs. bind_act (read_inputs E ms) (\<lambda>rest. ret (rs # rest))) s"

text \<open>The slot of a chunk: one of the run's own, or a fresh one when they are used up.\<close>

definition chunk_id :: "nat list \<Rightarrow> nat \<Rightarrow> ('o, nat) act" where
  "chunk_id reuse i = (if i < length reuse then ret (reuse ! i) else alloc_seq)"

fun write_chunks :: "('x, 'o) env \<Rightarrow> int \<Rightarrow> nat list \<Rightarrow> nat \<Rightarrow> Record list list \<Rightarrow> ('o, SegmentMeta list) act" where
  "write_chunks E created reuse i [] s = ret [] s"
| "write_chunks E created reuse i (c # cs) s =
     bind_act (chunk_id reuse i) (\<lambda>ident.
     bind_act alloc_seq (\<lambda>seq.
       let p = gc_hot_dir (so_config s) @ [seg_file seq] in
       bind_act (write_sorted E p c) (\<lambda>zone.
       bind_act (get_state (file_len p)) (\<lambda>bytes.
       bind_act (write_chunks E created reuse (i + 1) cs) (\<lambda>rest.
         ret (\<lparr> sm_id = ident, sm_file = seg_file seq, sm_tier = Hot, sm_zone = zone, sm_bytes = bytes,
                sm_created = created \<rparr> # rest)))))) s"

definition swap_run :: "nat list \<Rightarrow> SegmentMeta list \<Rightarrow> Manifest \<Rightarrow> Manifest" where
  "swap_run ids outputs m =
     m\<lparr> mf_segments := filter (\<lambda>x. sm_id x \<notin> set ids) (mf_segments m) @ outputs \<rparr>"

definition invalidate_cache :: "SegmentMeta \<Rightarrow> 'o Store \<Rightarrow> 'o Store" where
  "invalidate_cache m s = s\<lparr> so_cache := invalidate (cache_key m) (so_cache s) \<rparr>"

fun drop_inputs :: "('x, 'o) env \<Rightarrow> SegmentMeta list \<Rightarrow> ('o, unit) act" where
  "drop_inputs E [] s = ret () s"
| "drop_inputs E (m # ms) s =
     bind_act (ignore_err (drop_segment_file E m)) (\<lambda>_.
     bind_act (put_state (invalidate_cache m)) (\<lambda>_. drop_inputs E ms)) s"

definition compact_run :: "('x, 'o) env \<Rightarrow> SegmentMeta list \<Rightarrow> rstr option \<Rightarrow> ('o, nat) act" where
  "compact_run E run purge =
     bind_act (read_inputs E (sort_key sm_id run)) (\<lambda>inputs.
     bind_act (get_state so_config) (\<lambda>cfg.
       let chunks = compact_records cfg (en_now E) purge inputs;
           reuse = sort (map sm_id run);
           created = (if run = [] then en_now E else Min (set (map sm_created run)))
       in bind_act (write_chunks E created reuse (length reuse - length chunks) chunks) (\<lambda>outputs.
          bind_act (put_state (set_manifest (swap_run (map sm_id run) outputs))) (\<lambda>_.
          bind_act (store_manifest E) (\<lambda>_.
          bind_act (drop_inputs E run) (\<lambda>_. ret 1))))))"

definition compact :: "('x, 'o) env \<Rightarrow> ('o, nat) act" where
  "compact E s =
     (case choose_run (so_config s) (mf_segments (so_manifest s)) of
        None \<Rightarrow> ret 0 s
      | Some run \<Rightarrow> compact_run E run None s)"

fun refuse_deltas :: "('x, 'o) env \<Rightarrow> rstr \<Rightarrow> SegmentMeta list \<Rightarrow> ('o, unit) act" where
  "refuse_deltas E key [] s = ret () s"
| "refuse_deltas E key (m # ms) s =
     bind_act (read_all E (seg_path s m)) (\<lambda>rs.
       if list_ex (\<lambda>r. rec_key r = key \<and> is_delta r) rs
       then fail (Config (lit ''purge_key refuses counter (delta-flagged) keys''))
       else refuse_deltas E key ms) s"

definition purge_run :: "rstr \<Rightarrow> SegmentMeta list \<Rightarrow> SegmentMeta list" where
  "purge_run key segments =
     filter (\<lambda>m. zm_min_key (sm_zone m) \<le> key \<and> key \<le> zm_max_key (sm_zone m)) segments"

definition purge_key :: "('x, 'o) env \<Rightarrow> rstr \<Rightarrow> ('o, nat) act" where
  "purge_key E key s =
     (let run = purge_run key (mf_segments (so_manifest s)) in
      if run = [] then ret 0 s
      else bind_act (refuse_deltas E key run) (\<lambda>_. compact_run E run (Some key)) s)"

definition engine_purge_key :: "('x, 'o) env \<Rightarrow> rstr \<Rightarrow> ('o, unit) act" where
  "engine_purge_key E key =
     bind_act (engine_flush E) (\<lambda>_. bind_act (purge_key E key) (\<lambda>_. ret ()))"

section \<open>Replacing one segment\<close>

text \<open>
  Reclamation, grooming and migration write the new version of one segment into its own slot, or
  drop it from the manifest.
\<close>

definition replace_segment ::
  "('x, 'o) env \<Rightarrow> SegmentMeta \<Rightarrow> path \<Rightarrow> Tier \<Rightarrow> Record list \<Rightarrow> ('o, unit) act" where
  "replace_segment E m dir tier records =
     bind_act alloc_seq (\<lambda>seq.
       let p = dir @ [seg_file seq] in
       bind_act (write_sorted E p records) (\<lambda>zone.
       bind_act (get_state (file_len p)) (\<lambda>bytes.
       bind_act
         (put_state (set_manifest (swap_run [sm_id m]
            [\<lparr> sm_id = sm_id m, sm_file = seg_file seq, sm_tier = tier, sm_zone = zone, sm_bytes = bytes,
               sm_created = sm_created m \<rparr>]))) (\<lambda>_.
         store_manifest E))))"

definition unlist_segment :: "('x, 'o) env \<Rightarrow> SegmentMeta \<Rightarrow> ('o, unit) act" where
  "unlist_segment E m = bind_act (put_state (set_manifest (swap_run [sm_id m] []))) (\<lambda>_. store_manifest E)"

definition forget_file :: "('x, 'o) env \<Rightarrow> path \<Rightarrow> SegmentMeta \<Rightarrow> ('o, unit) act" where
  "forget_file E p m =
     bind_act (ignore_err (perform E (FsRemove p))) (\<lambda>_. put_state (invalidate_cache m))"

section \<open>Reclaiming sealed segments\<close>

definition label_is_one :: "LabelColumn \<Rightarrow> nat \<Rightarrow> bool" where
  "label_is_one col j =
     (case col of
        LabelDict dict _ codes \<Rightarrow> codes ! j \<noteq> 0 \<and> dict ! (codes ! j - 1) = lit ''1''
      | LabelPlain vs \<Rightarrow> vs ! j = Some (lit ''1''))"

definition is_sealed :: "GirderConfig \<Rightarrow> SegmentMeta \<Rightarrow> bool" where
  "is_sealed cfg m \<longleftrightarrow>
     sm_tier m = Hot \<and>
     (max (gc_max_segment_records cfg) 1 \<le> zm_count (sm_zone m) \<or> max (gc_max_segment_bytes cfg div 2) 1 \<le> sm_bytes m)"

definition zone_overlap :: "SegmentMeta \<Rightarrow> SegmentMeta \<Rightarrow> bool" where
  "zone_overlap m pick \<longleftrightarrow>
     zm_min_key (sm_zone m) \<le> zm_max_key (sm_zone pick) \<and> zm_min_key (sm_zone pick) \<le> zm_max_key (sm_zone m)"

definition newer_overlaps :: "SegmentMeta list \<Rightarrow> SegmentMeta \<Rightarrow> SegmentMeta list" where
  "newer_overlaps segments pick = filter (\<lambda>m. sm_id pick < sm_id m \<and> zone_overlap m pick) segments"

definition older_overlaps :: "SegmentMeta list \<Rightarrow> SegmentMeta \<Rightarrow> SegmentMeta list" where
  "older_overlaps segments pick =
     (if zone_may_have pick TOMBSTONE_LABEL
      then filter (\<lambda>m. sm_id m < sm_id pick \<and> zone_overlap m pick) segments else [])"

text \<open>Rotation order: the sealed segments above the cursor, then the others.\<close>

definition reclaim_pick :: "GirderConfig \<Rightarrow> nat \<Rightarrow> SegmentMeta list \<Rightarrow> SegmentMeta option" where
  "reclaim_pick cfg cursor segments =
     (let sealed = sort_key sm_id (filter (is_sealed cfg) segments)
      in find (\<lambda>m. newer_overlaps segments m \<noteq> [] \<or> zone_may_have m TOMBSTONE_LABEL)
           (filter (\<lambda>m. cursor < sm_id m) sealed @ filter (\<lambda>m. \<not> cursor < sm_id m) sealed))"

text \<open>
  Evidence from one newer segment for every row of the candidate: whether it holds the key with a
  record that is no increment, and whether with an increment.
\<close>

definition shadow_row :: "KeysSection \<Rightarrow> (nat \<Rightarrow> bool) \<Rightarrow> rstr \<Rightarrow> bool \<times> bool \<Rightarrow> bool \<times> bool" where
  "shadow_row nkeys row_is_delta key b =
     (case b of (sh, delta_over) \<Rightarrow>
        if sh \<and> delta_over then b
        else
          (case ks_find nkeys key of
             None \<Rightarrow> b
           | Some j \<Rightarrow> if row_is_delta j then (sh, True) else (True, delta_over)))"

fun shadow_evidence ::
  "('x, 'o) env \<Rightarrow> KeysSection \<Rightarrow> SegmentMeta list \<Rightarrow> (bool \<times> bool) list \<Rightarrow> ('o, (bool \<times> bool) list) act" where
  "shadow_evidence E keys [] acc s = ret acc s"
| "shadow_evidence E keys (m # ms) acc s =
     bind_act (read_path E (seg_path s m)) (\<lambda>f.
     bind_act (of_result (read_header f)) (\<lambda>version.
       if version \<noteq> 2 then shadow_evidence E keys ms acc
       else
         bind_act (of_result (read_footer (en_ext E) f)) (\<lambda>dir.
         bind_act (of_result (load_keys (en_ext E) f dir)) (\<lambda>nkeys.
         bind_act
           (if zone_may_have m DELTA_LABEL
            then of_result (and_then (load_label (en_ext E) f dir DELTA_LABEL) (\<lambda>col. Inr (Some col)))
            else ret None) (\<lambda>delta_col.
           shadow_evidence E keys ms
             (map (\<lambda>i. shadow_row nkeys (\<lambda>j. case delta_col of None \<Rightarrow> False | Some col \<Rightarrow> label_is_one col j)
                         (ks_key_at keys i) (acc ! i)) [0..<length acc])))))) s"

definition in_zone :: "SegmentMeta \<Rightarrow> rstr \<Rightarrow> bool" where
  "in_zone m k \<longleftrightarrow> zm_min_key (sm_zone m) \<le> k \<and> k \<le> zm_max_key (sm_zone m)"

text \<open>Rows of the candidate whose key an older segment holds, or may hold.\<close>

fun below_evidence ::
  "('x, 'o) env \<Rightarrow> KeysSection \<Rightarrow> bool list \<Rightarrow> SegmentMeta list \<Rightarrow> bool list \<Rightarrow> ('o, bool list) act" where
  "below_evidence E keys tomb [] below s = ret below s"
| "below_evidence E keys tomb (m # ms) below s =
     (let needs = (\<lambda>i. tomb ! i \<and> \<not> below ! i \<and> in_zone m (ks_key_at keys i)) in
      if \<not> list_ex needs [0..<length below] then below_evidence E keys tomb ms below s
      else
        bind_act (read_path E (seg_path s m)) (\<lambda>f.
        bind_act (of_result (read_header f)) (\<lambda>version.
          if version \<noteq> 2
          then below_evidence E keys tomb ms (map (\<lambda>i. below ! i \<or> needs i) [0..<length below])
          else
            bind_act (of_result (read_footer (en_ext E) f)) (\<lambda>odir.
            bind_act (of_result (load_keys (en_ext E) f odir)) (\<lambda>okeys.
              below_evidence E keys tomb ms
                (map (\<lambda>i. below ! i \<or> needs i \<and> ks_find okeys (ks_key_at keys i) \<noteq> None) [0..<length below]))))) s)"

definition tomb_rows ::
  "('x, 'o) env \<Rightarrow> SegmentMeta \<Rightarrow> byte list \<Rightarrow> SegDir \<Rightarrow> nat \<Rightarrow> ('o, bool list) act" where
  "tomb_rows E cand f dir rows =
     (if zone_may_have cand TOMBSTONE_LABEL
      then
        bind_act (of_result (load_label (en_ext E) f dir TOMBSTONE_LABEL)) (\<lambda>col.
          ret (map (label_is_one col) [0..<rows]))
      else ret (replicate rows False))"

definition dead_rows :: "(bool \<times> bool) list \<Rightarrow> bool list \<Rightarrow> bool list \<Rightarrow> bool list" where
  "dead_rows shadow tomb below =
     map (\<lambda>i. case shadow ! i of (sh, delta_over) \<Rightarrow>
            sh \<and> \<not> delta_over \<or> tomb ! i \<and> \<not> delta_over \<and> \<not> below ! i) [0..<length shadow]"

definition reclaim_rewrite :: "('x, 'o) env \<Rightarrow> SegmentMeta \<Rightarrow> KeysSection \<Rightarrow> bool list \<Rightarrow> ('o, nat) act" where
  "reclaim_rewrite E cand keys dead s =
     (let p = seg_path s cand;
          dead_keys = map (ks_key_at keys) (filter (\<lambda>i. dead ! i) [0..<length dead])
      in bind_act (read_all E p) (\<lambda>rs.
           let survivors = filter (\<lambda>r. rec_key r \<notin> set dead_keys) rs in
           if survivors = [] then
             bind_act (unlist_segment E cand) (\<lambda>_.
             bind_act (ignore_err (drop_segment_file E cand)) (\<lambda>_.
             bind_act (put_state (invalidate_cache cand)) (\<lambda>_. ret 1)))
           else
             bind_act (replace_segment E cand (gc_hot_dir (so_config s)) Hot survivors) (\<lambda>_.
             bind_act (forget_file E p cand) (\<lambda>_. ret 1))) s)"

definition reclaim_audit :: "('x, 'o) env \<Rightarrow> SegmentMeta \<Rightarrow> SegmentMeta list \<Rightarrow> SegmentMeta list \<Rightarrow> ('o, nat) act" where
  "reclaim_audit E cand newer older s =
     bind_act (read_path E (seg_path s cand)) (\<lambda>f.
     bind_act (of_result (read_header f)) (\<lambda>version.
       if version \<noteq> 2 then ret 0
       else
         bind_act (of_result (read_footer (en_ext E) f)) (\<lambda>dir.
         bind_act (of_result (load_keys (en_ext E) f dir)) (\<lambda>keys.
           let rows = ks_count keys in
           if rows = 0 then ret 0
           else
             bind_act (shadow_evidence E keys newer (replicate rows (False, False))) (\<lambda>shadow.
             bind_act (tomb_rows E cand f dir rows) (\<lambda>tomb.
             bind_act
               (if list_ex (\<lambda>t. t) tomb then below_evidence E keys tomb older (replicate rows False)
                else ret (replicate rows False)) (\<lambda>below.
               let dead = dead_rows shadow tomb below in
               if length (filter (\<lambda>d. d) dead) * 2 < rows then ret 0
               else reclaim_rewrite E cand keys dead))))))) s"

definition reclaim_sealed :: "('x, 'o) env \<Rightarrow> ('o, nat) act" where
  "reclaim_sealed E s =
     (let segments = mf_segments (so_manifest s) in
      case reclaim_pick (so_config s) (so_cursor s) segments of
        None \<Rightarrow> ret 0 s
      | Some cand \<Rightarrow>
          reclaim_audit E cand (newer_overlaps segments cand) (older_overlaps segments cand)
            (s\<lparr> so_cursor := sm_id cand \<rparr>))"

section \<open>Retention grooming\<close>

definition delta_ranges :: "EngineInner \<Rightarrow> (rstr \<times> rstr) list" where
  "delta_ranges e =
     map (\<lambda>m. (zm_min_key (sm_zone m), zm_max_key (sm_zone m)))
       (filter (\<lambda>m. zone_may_have m DELTA_LABEL) (mf_segments (ei_manifest e))) @
     List.map_filter mt_delta_range (ei_memtable e # map snd (ei_frozen e))"

definition groom_candidate :: "RetentionPolicy \<Rightarrow> int \<Rightarrow> (rstr \<times> rstr) list \<Rightarrow> SegmentMeta \<Rightarrow> bool" where
  "groom_candidate policy now ranges m \<longleftrightarrow>
     (let z = sm_zone m in
      \<not> list_ex (\<lambda>(lo, hi). lo \<le> zm_max_key z \<and> zm_min_key z \<le> hi) ranges \<and>
      covers_range policy (zm_min_key z) (zm_max_key z) \<and>
      (case max_ttl_in_range policy (zm_min_key z) (zm_max_key z) of
         None \<Rightarrow> False
       | Some max_ttl \<Rightarrow>
           (let cutoff = saturating_sub now max_ttl
            in zm_max_ts z < cutoff \<or> sm_tier m = Hot \<and> zm_min_ts z < cutoff)))"

definition all_expired :: "RetentionPolicy \<Rightarrow> int \<Rightarrow> SegmentMeta \<Rightarrow> bool" where
  "all_expired policy now m \<longleftrightarrow>
     (case max_ttl_in_range policy (zm_min_key (sm_zone m)) (zm_max_key (sm_zone m)) of
        None \<Rightarrow> False
      | Some max_ttl \<Rightarrow> zm_max_ts (sm_zone m) < saturating_sub now max_ttl)"

definition groom_one :: "('x, 'o) env \<Rightarrow> RetentionPolicy \<Rightarrow> SegmentMeta \<Rightarrow> ('o, nat) act" where
  "groom_one E policy m s =
     (let p = seg_path s m in
      if all_expired policy (en_now E) m then
        bind_act (unlist_segment E m) (\<lambda>_. bind_act (forget_file E p m) (\<lambda>_. ret 1)) s
      else
        bind_act (read_all E p) (\<lambda>rs.
          let kept = retain_policy policy (en_now E) (merge_records rs) in
          if fcard (fmdom kept) = zm_count (sm_zone m) then ret 0
          else if kept = fmempty then
            bind_act (unlist_segment E m) (\<lambda>_. bind_act (forget_file E p m) (\<lambda>_. ret 1))
          else
            bind_act (replace_segment E m (gc_hot_dir (so_config s)) Hot (bt_values kept)) (\<lambda>_.
            bind_act (forget_file E p m) (\<lambda>_. ret 1))) s)"

fun groom_each :: "('x, 'o) env \<Rightarrow> RetentionPolicy \<Rightarrow> SegmentMeta list \<Rightarrow> nat \<Rightarrow> ('o, nat) act" where
  "groom_each E policy [] n s = ret n s"
| "groom_each E policy (m # ms) n s = bind_act (groom_one E policy m) (\<lambda>k. groom_each E policy ms (n + k)) s"

definition groom :: "('x, 'o) env \<Rightarrow> ('o, nat) act" where
  "groom E s =
     (let policy = retention_policy (so_config s) in
      if policy_is_empty policy then ret 0 s
      else
        groom_each E policy
          (filter (groom_candidate policy (en_now E) (delta_ranges (so_engine s))) (mf_segments (so_manifest s))) 0 s)"

section \<open>Format migration\<close>

definition file_version :: "('x, 'o) env \<Rightarrow> path \<Rightarrow> ('o, nat) act" where
  "file_version E p = bind_act (read_path E p) (\<lambda>f. of_result (read_header f))"

definition CURRENT_SEGMENT_VERSION :: nat where
  "CURRENT_SEGMENT_VERSION = VERSION_V2"

fun migrate_first :: "('x, 'o) env \<Rightarrow> SegmentMeta list \<Rightarrow> ('o, nat) act" where
  "migrate_first E [] s = ret 0 s"
| "migrate_first E (m # ms) s =
     (let p = seg_path s m in
      case file_version E p s of
        (Inl _, s1) \<Rightarrow> migrate_first E ms s1
      | (Inr version, s1) \<Rightarrow>
          if CURRENT_SEGMENT_VERSION \<le> version then migrate_first E ms s1
          else
            bind_act (read_all E p) (\<lambda>rs.
              case sm_tier m of
                Remote \<Rightarrow> bind_act alloc_seq (\<lambda>_. migrate_first E ms)
              | tier \<Rightarrow>
                  bind_act
                    (replace_segment E m (if tier = Hot then gc_hot_dir (so_config s) else gc_cold_dir (so_config s)) tier rs)
                    (\<lambda>_. bind_act (forget_file E p m) (\<lambda>_. ret 1))) s1)"

definition migrate :: "('x, 'o) env \<Rightarrow> ('o, nat) act" where
  "migrate E s = migrate_first E (sort_key sm_id (mf_segments (so_manifest s))) s"

section \<open>Tiering\<close>

fun tier_first :: "nat \<Rightarrow> Tier \<Rightarrow> SegmentMeta list \<Rightarrow> SegmentMeta list" where
  "tier_first ident tier [] = []"
| "tier_first ident tier (m # ms) =
     (if sm_id m = ident then m\<lparr> sm_tier := tier \<rparr> # ms else m # tier_first ident tier ms)"

definition set_tier :: "nat \<Rightarrow> Tier \<Rightarrow> Manifest \<Rightarrow> Manifest" where
  "set_tier ident tier m = m\<lparr> mf_segments := tier_first ident tier (mf_segments m) \<rparr>"

text \<open>Rename, or -- when that fails, across file systems -- copy and remove.\<close>

definition move_file :: "('x, 'o) env \<Rightarrow> path \<Rightarrow> path \<Rightarrow> ('o, unit) act" where
  "move_file E p q s =
     (case perform E (FsRename p q) s of
        (Inr _, s1) \<Rightarrow> (Inr (), s1)
      | (Inl _, s1) \<Rightarrow>
          bind_act (read_path E p) (\<lambda>bytes. perform_all E [FsWrite q bytes, FsRemove p]) s1)"

fun tier_cold :: "('x, 'o) env \<Rightarrow> SegmentMeta list \<Rightarrow> nat \<Rightarrow> ('o, nat) act" where
  "tier_cold E [] n s = ret n s"
| "tier_cold E (m # ms) n s =
     bind_act (move_file E (gc_hot_dir (so_config s) @ [sm_file m]) (gc_cold_dir (so_config s) @ [sm_file m])) (\<lambda>_.
     bind_act (put_state (set_manifest (set_tier (sm_id m) Cold))) (\<lambda>_.
     bind_act (store_manifest E) (\<lambda>_. tier_cold E ms (n + 1)))) s"

text \<open>Put the object, flip the manifest, then delete the local copy.\<close>

definition remote_one :: "('x, 'o) env \<Rightarrow> 'o object_store \<Rightarrow> SegmentMeta \<Rightarrow> ('o, unit) act" where
  "remote_one E os m s =
     (let local = gc_cold_dir (so_config s) @ [sm_file m] in
      bind_act (read_path E local) (\<lambda>bytes.
      bind_act (\<lambda>s. case os_put os (sm_file m) bytes (so_remote s) of (r, o') \<Rightarrow> (r, s\<lparr> so_remote := o' \<rparr>)) (\<lambda>_.
      bind_act (put_state (set_manifest (set_tier (sm_id m) Remote))) (\<lambda>_.
      bind_act (store_manifest E) (\<lambda>_.
        ignore_err (perform E (FsRemove local)))))) s)"

fun remote_each :: "('x, 'o) env \<Rightarrow> 'o object_store \<Rightarrow> SegmentMeta list \<Rightarrow> nat \<Rightarrow> ('o, nat) act" where
  "remote_each E os [] n s = ret n s"
| "remote_each E os (m # ms) n s = bind_act (remote_one E os m) (\<lambda>_. remote_each E os ms (n + 1)) s"

definition tier_to_remote :: "('x, 'o) env \<Rightarrow> nat fset \<Rightarrow> ('o, nat) act" where
  "tier_to_remote E already_cold s =
     (case en_objects E of
        None \<Rightarrow> ret 0 s
      | Some os \<Rightarrow>
          remote_each E os
            (filter (\<lambda>m. sm_tier m = Cold \<and> sm_id m |\<in>| already_cold \<and>
                         sm_created m < en_now E - gc_remote_ttl_nanos (so_config s)) (mf_segments (so_manifest s))) 0 s)"

definition tier :: "('x, 'o) env \<Rightarrow> ('o, nat) act" where
  "tier E s =
     (let segments = mf_segments (so_manifest s);
          already_cold = fset_of_list (map sm_id (filter (\<lambda>m. sm_tier m = Cold) segments));
          to_cold = filter (\<lambda>m. sm_tier m = Hot \<and> sm_created m < en_now E - gc_hot_ttl_nanos (so_config s)) segments
      in bind_act (tier_cold E to_cold 0) (\<lambda>moved.
         bind_act (tier_to_remote E already_cold) (\<lambda>more. ret (moved + more))) s)"

section \<open>One tick\<close>

fun ignore_all :: "('x, 'o) env \<Rightarrow> fs_op list \<Rightarrow> ('o, unit) act" where
  "ignore_all E [] s = ret () s"
| "ignore_all E (op # ops) s = bind_act (ignore_err (perform E op)) (\<lambda>_. ignore_all E ops) s"

definition sweep_if_due :: "('x, 'o) env \<Rightarrow> ('o, unit) act" where
  "sweep_if_due E s =
     (let t = so_ticks s; s1 = s\<lparr> so_ticks := t + 1 \<rparr> in
      if t mod max (gc_blob_sweep_every_n_ticks (so_config s)) 1 = 0
      then ignore_all E (sweep_blob_orphans (gc_hot_dir (so_config s)) (so_manifest s) (so_disk s)) s1
      else ret () s1)"

datatype MaintCall = FlushPending | Tick | PurgeKey rstr

definition maint_run :: "('x, 'o) env \<Rightarrow> MaintCall \<Rightarrow> ('o, nat) act" where
  "maint_run E msg =
     (case msg of
        FlushPending \<Rightarrow> flush_pending E
      | PurgeKey key \<Rightarrow> purge_key E key
      | Tick \<Rightarrow>
          bind_act (flush_pending E) (\<lambda>flushed.
          bind_act (compact E) (\<lambda>_.
          bind_act (reclaim_sealed E) (\<lambda>_.
          bind_act (tier E) (\<lambda>_.
          bind_act (groom E) (\<lambda>_.
          bind_act (migrate E) (\<lambda>_.
          bind_act (sweep_if_due E) (\<lambda>_. ret flushed))))))))"

definition engine_maintain :: "('x, 'o) env \<Rightarrow> ('o, unit) act" where
  "engine_maintain E = bind_act (maint_run E Tick) (\<lambda>_. ret ())"

end
