(* ===== verification/Durability.thy ===== *)
theory Durability
  imports Maintenance
begin

text \<open>
  What survives a crash of the whole engine: every state the writer and the flusher reach keeps its
  memtables in its logs, so replaying what a crash leaves of the logs gives every acknowledged
  write back.
\<close>

section \<open>Steps of the engine\<close>

text \<open>
  Acknowledged writes, freezes and flushes; the outcome of the file operations is the
  environment's. A batch holds ordinary records (the reserved label is the engine's own).
\<close>

inductive store_step :: "unicode \<Rightarrow> 'x man_ext_scheme \<Rightarrow> 'o Store \<Rightarrow> 'o Store \<Rightarrow> bool"
  for U :: unicode and X :: "'x man_ext_scheme" where
  step_append:
    "en_unicode E = U \<Longrightarrow> en_ext E = X \<Longrightarrow> list_all (loggable X) rs \<Longrightarrow> length rs < 2 ^ 32 \<Longrightarrow>
     list_all (\<lambda>r. \<not> is_delta r) rs \<Longrightarrow> writer_call E (Append rs) s = (Inr x, s') \<Longrightarrow> store_step U X s s'"
| step_incr:
    "en_unicode E = U \<Longrightarrow> en_ext E = X \<Longrightarrow> d = delta_record key ts deltas \<Longrightarrow> loggable X d \<Longrightarrow>
     writer_call E (Incr d) s = (Inr x, s') \<Longrightarrow> store_step U X s s'"
| step_freeze:
    "en_unicode E = U \<Longrightarrow> en_ext E = X \<Longrightarrow> writer_call E Freeze s = (Inr x, s') \<Longrightarrow> store_step U X s s'"
| step_flush:
    "en_unicode E = U \<Longrightarrow> en_ext E = X \<Longrightarrow> en_io E = (\<lambda>_. None) \<Longrightarrow> ei_frozen (so_engine s) = fz # rest \<Longrightarrow>
     flush_one E fz s = (Inr u, s') \<Longrightarrow> store_step U X s s'"

inductive reachable :: "unicode \<Rightarrow> 'x man_ext_scheme \<Rightarrow> 'o Store \<Rightarrow> 'o Store \<Rightarrow> bool"
  for U :: unicode and X :: "'x man_ext_scheme" and s0 :: "'o Store" where
  reach_start: "reachable U X s0 s0"
| reach_step: "reachable U X s0 s \<Longrightarrow> store_step U X s s' \<Longrightarrow> reachable U X s0 s'"

section \<open>The invariant\<close>

text \<open>Increments never carry the tombstone label.\<close>

definition plain_delta :: "Record \<Rightarrow> bool" where
  "plain_delta r \<longleftrightarrow> \<not> (is_delta r \<and> is_tombstone r)"

lemma delta_record_facts [simp]: "is_delta (delta_record k ts ds)" "\<not> is_tombstone (delta_record k ts ds)"
  by (simp_all add: delta_record_def is_tombstone_def set_delta_def) (simp add: is_delta_def)

text \<open>A log that is complete on disk and whose replay gives the content of a memtable.\<close>

definition covers_table :: "('x) wal_ext_scheme \<Rightarrow> Wal option \<Rightarrow> MemTable \<Rightarrow> bool" where
  "covers_table X w t \<longleftrightarrow> (\<exists>v rs. w = Some v \<and> wal_durable X v rs \<and> list_all plain_delta rs \<and> mt_records t = merge_records rs)"

definition log_seqs :: "'o Store \<Rightarrow> nat list" where
  "log_seqs s = map fst (ei_frozen (so_engine s)) @ [so_wal_seq s]"

definition logged :: "unicode \<Rightarrow> ('x) wal_ext_scheme \<Rightarrow> 'o Store \<Rightarrow> bool" where
  "logged U X s \<longleftrightarrow>
     gc_fsync (so_config s) = Always \<and> so_log s = so_wal_seq s \<and> sorted_wrt (<) (log_seqs s) \<and>
     fset (fmdom (so_logs s)) = set (log_seqs s) \<and>
     covers_table X (fmlookup (so_logs s) (so_wal_seq s)) (ei_memtable (so_engine s)) \<and>
     (\<forall>(seq, t) \<in> set (ei_frozen (so_engine s)). covers_table X (fmlookup (so_logs s) seq) t) \<and>
     (\<forall>t \<in> set (mem_tables (so_engine s)). mt_inv U t)"

lemma bind_act_Inr:
  "bind_act m f s = (Inr y, s') \<longleftrightarrow> (\<exists>x s1. m s = (Inr x, s1) \<and> f x s1 = (Inr y, s'))"
  by (auto simp: bind_act_def split: prod.splits sum.splits)

lemma mt_insert_merge: "\<not> is_delta r \<Longrightarrow> mt_records (mt_insert U t r) = merge_record r (mt_records t)"
  by (simp add: merge_record_def)

lemma mt_inserts_merge:
  "list_all (\<lambda>r. \<not> is_delta r) rs \<Longrightarrow>
     mt_records (foldl (mt_insert U) t rs) = fold merge_record rs (mt_records t)"
  by (induction rs arbitrary: t) (simp_all add: merge_record_def)

lemma insert_delta_merge:
  assumes "mt_inv U t" and "is_delta d"
  shows "mt_records (insert_delta U t d) = merge_record d (mt_records t)"
proof -
  have "rec_key (merge_delta (fmlookup (mt_records t) (rec_key d)) d) = rec_key d"
    by (rule merge_delta_key) (use assms(1) in \<open>simp add: mt_inv_def mt_keyed_def\<close>)
  with assms(2) show ?thesis by (simp add: insert_delta_def merge_record_def)
qed

lemma mt_inv_inserts: "mt_inv U t \<Longrightarrow> mt_inv U (foldl (mt_insert U) t rs)"
  by (induction rs arbitrary: t) (simp_all add: mt_inv_insert)

text \<open>Logging a batch extends the open log, which stays complete.\<close>

lemma log_batch_covers:
  assumes inv: "logged U X s" and new: "list_all (loggable X) rs" "length rs < 2 ^ 32" "list_all plain_delta rs"
    and E: "en_ext E = X" and log: "log_batch E rs s = (Inr x, s1)"
    and t': "mt_records t' = fold merge_record rs (mt_records (ei_memtable (so_engine s)))" "mt_inv U t'"
  shows "logged U X (set_memtable (\<lambda>_. t') s1)"
proof -
  from inv obtain w old where w: "fmlookup (so_logs s) (so_wal_seq s) = Some w" and dur: "wal_durable X w old"
    and plain: "list_all plain_delta old" and rec: "mt_records (ei_memtable (so_engine s)) = merge_records old"
    by (auto simp: logged_def covers_table_def)
  obtain w' where app: "append_batch X (en_wal_io E (so_io s)) w rs = (Inr x, w')"
    and s1: "s1 = s\<lparr> so_logs := fmupd (so_wal_seq s) w' (so_logs s), so_io := so_io s + 1 \<rparr>"
    using log inv w E by (auto simp: log_batch_def logged_def split: prod.splits)
  have "wal_acked X w rs w'" using app new by (auto simp: wal_acked_def)
  with dur have "wal_durable X w' (old @ rs)" by (rule walog.acked_extends)
  moreover have "mt_records t' = merge_records (old @ rs)" by (simp add: t' rec merge_records_def)
  ultimately have cov: "covers_table X (Some w') t'"
    using plain new(3) unfolding covers_table_def by (intro exI [of _ w'] exI [of _ "old @ rs"]) simp
  have dom: "fset (fmdom (so_logs s1)) = fset (fmdom (so_logs s))" using w by (auto simp: s1 intro: fmdomI)
  have fz: "covers_table X (fmlookup (so_logs s1) seq) t" if "(seq, t) \<in> set (ei_frozen (so_engine s))" for seq t
  proof -
    have "seq \<noteq> so_wal_seq s" using inv that by (auto simp: logged_def log_seqs_def sorted_wrt_append)
    with inv that show ?thesis by (auto simp: logged_def s1)
  qed
  show ?thesis
    using inv cov dom fz t'(2)
    by (auto simp: logged_def set_memtable_def s1 log_seqs_def mem_tables_def)
qed

lemma covers_empty:
  assumes "rmp_ok X" and "wal_open io [] Always = (Inr w, bs)"
  shows "covers_table X (Some w) mt_default"
  using assms
  by (auto simp: covers_table_def wal_open_def write_all_def wal_durable_def wal_log_def Let_def merge_records_def
      mt_default_def split: option.splits intro!: exI [of _ "[]"])

lemma freeze_logged:
  assumes X: "rmp_ok X" and inv: "logged U X s" and fr: "writer_freeze E s = (Inr x, s')"
  shows "logged U X s'"
proof (cases "mt_is_empty (ei_memtable (so_engine s))")
  case True
  with fr inv show ?thesis by (simp add: writer_freeze_def Let_def)
next
  case False
  let ?n = "so_wal_seq s + 1" and ?t = "ei_memtable (so_engine s)"
  let ?s0 = "s\<lparr> so_engine := (so_engine s)\<lparr> ei_memtable := mt_default \<rparr>, so_wal_seq := ?n \<rparr>"
  have "?n \<notin> set (log_seqs s)" using inv by (auto simp: logged_def log_seqs_def sorted_wrt_append)
  then have new: "fmlookup (so_logs s) ?n = None" using inv by (auto simp: logged_def fmlookup_dom_iff)
  obtain s1 where op: "open_log E ?n ?s0 = (Inr (), s1)"
    and s': "s' = s1\<lparr> so_engine := (so_engine s1)\<lparr> ei_frozen := ei_frozen (so_engine s1) @ [(so_wal_seq s, ?t)] \<rparr> \<rparr>"
    using fr False by (auto simp: writer_freeze_def Let_def bind_act_Inr)
  from op obtain w bs where w: "wal_open (en_wal_io E (so_io s)) [] Always = (Inr w, bs)"
    and s1: "s1 = ?s0\<lparr> so_io := so_io s + 1, so_logs := fmupd ?n w (so_logs s), so_log := ?n \<rparr>"
    using new inv by (auto simp: open_log_def Let_def logged_def split: prod.splits sum.splits)
  have "covers_table X (Some w) mt_default" by (rule covers_empty [OF X w])
  moreover have "covers_table X (fmlookup (fmupd ?n w (so_logs s)) seq) t"
    if "(seq, t) \<in> set (ei_frozen (so_engine s) @ [(so_wal_seq s, ?t)])" for seq t
  proof -
    have "seq \<noteq> ?n" using inv that by (auto simp: logged_def log_seqs_def sorted_wrt_append)
    with inv that show ?thesis by (auto simp: logged_def)
  qed
  ultimately show ?thesis
    using inv unfolding s' s1
    by (auto simp: logged_def log_seqs_def sorted_wrt_append mem_tables_def)
qed


section \<open>What file operations leave alone\<close>

definition same_core :: "'o Store \<Rightarrow> 'o Store \<Rightarrow> bool" where
  "same_core s s' \<longleftrightarrow> s' = s\<lparr> so_disk := so_disk s', so_io := so_io s' \<rparr>"

lemma same_core_refl [simp]: "same_core s s"
  by (simp add: same_core_def)

lemma same_core_trans: "same_core a b \<Longrightarrow> same_core b c \<Longrightarrow> same_core a c"
  unfolding same_core_def by (metis Store.surjective Store.update_convs(2,10) Store.select_convs)

lemma same_core_sel:
  assumes "same_core s s'"
  shows "so_engine s' = so_engine s" "so_logs s' = so_logs s" "so_wal_seq s' = so_wal_seq s" "so_log s' = so_log s"
    "so_remote s' = so_remote s" "so_cache s' = so_cache s" "so_cursor s' = so_cursor s" "so_ticks s' = so_ticks s"
  by (subst assms [unfolded same_core_def], simp)+

lemma perform_core: "perform E op s = (r, s') \<Longrightarrow> same_core s s'"
  by (auto simp: perform_def same_core_def Let_def split: option.splits if_splits fs_op.splits)

lemma perform_all_core: "perform_all E ops s = (r, s') \<Longrightarrow> same_core s s'"
proof (induction ops arbitrary: s)
  case (Cons op ops)
  obtain r1 s1 where p: "perform E op s = (r1, s1)" by fastforce
  note c = perform_core [OF p]
  show ?case
  proof (cases r1)
    case (Inl e)
    with Cons.prems p c show ?thesis by (simp add: bind_act_def)
  next
    case (Inr u)
    with Cons.prems p have "perform_all E ops s1 = (r, s')" by (simp add: bind_act_def)
    from same_core_trans [OF c Cons.IH [OF this]] show ?thesis .
  qed
qed (simp add: ret_def)

lemma store_manifest_core: "store_manifest E s = (r, s') \<Longrightarrow> same_core s s'"
  by (auto simp: store_manifest_def bind_act_def of_result_def split: sum.splits dest: perform_all_core)

lemma write_sorted_core: "write_sorted E p rs s = (r, s') \<Longrightarrow> same_core s s'"
  by (auto simp: write_sorted_def bind_act_def of_result_def ret_def Let_def simp del: perform_all.simps
      split: sum.splits prod.splits dest: perform_all_core)

lemma write_sorted_zone: "write_sorted E p rs s = (Inr z, s') \<Longrightarrow> z = zone_build rs"
  by (auto simp: write_sorted_def bind_act_Inr ret_def Let_def simp del: perform_all.simps)


text \<open>What a successful flush of one memtable changes.\<close>

definition flushed_meta :: "('x, 'o) env \<Rightarrow> 'o Store \<Rightarrow> MemTable \<Rightarrow> nat \<Rightarrow> SegmentMeta" where
  "flushed_meta E s t bytes =
     \<lparr> sm_id = mf_next_segment_id (so_manifest s), sm_file = seg_file (mf_next_segment_id (so_manifest s)),
       sm_tier = Hot, sm_zone = zone_build (mt_values t), sm_bytes = bytes, sm_created = en_now E \<rparr>"

definition flushed_engine :: "('x, 'o) env \<Rightarrow> 'o Store \<Rightarrow> MemTable \<Rightarrow> nat \<Rightarrow> EngineInner" where
  "flushed_engine E s t bytes =
     (so_engine s)\<lparr> ei_frozen := tl (ei_frozen (so_engine s)),
       ei_manifest := (so_manifest s)\<lparr> mf_next_segment_id := mf_next_segment_id (so_manifest s) + 1,
         mf_segments := mf_segments (so_manifest s) @ [flushed_meta E s t bytes] \<rparr> \<rparr>"

lemma flush_one_result:
  assumes "flush_one E (wal_seq, t) s = (Inr u, s')"
  shows "\<exists>bytes. so_engine s' = flushed_engine E s t bytes \<and>
           so_wal_seq s' = so_wal_seq s \<and> so_log s' = so_log s \<and>
           (so_logs s' = so_logs s \<or> so_logs s' = fmdrop wal_seq (so_logs s)) \<and>
           (en_io E = (\<lambda>_. None) \<longrightarrow> so_logs s' = fmdrop wal_seq (so_logs s))"
proof -
  let ?seq = "mf_next_segment_id (so_manifest s)"
  let ?p = "gc_hot_dir (so_config s) @ [seg_file ?seq]"
  let ?s1 = "set_manifest (\<lambda>m. m\<lparr> mf_next_segment_id := mf_next_segment_id m + 1 \<rparr>) s"
  from assms obtain zone s2 s3 s4 where
    w: "write_sorted E ?p (mt_values t) ?s1 = (Inr zone, s2)"
    and st: "store_manifest E (set_manifest (\<lambda>m. m\<lparr> mf_segments := mf_segments m @
          [\<lparr> sm_id = ?seq, sm_file = seg_file ?seq, sm_tier = Hot, sm_zone = zone, sm_bytes = file_len ?p s2,
             sm_created = en_now E \<rparr>] \<rparr>) s2) = (Inr (), s3)"
    and rm: "remove_log E wal_seq s3 = (Inr (), s4)"
    and s': "s' = s4\<lparr> so_engine := (so_engine s4)\<lparr> ei_frozen := tl (ei_frozen (so_engine s4)) \<rparr> \<rparr>"
    by (auto simp: flush_one_def bind_act_Inr alloc_seq_def get_state_def put_state_def Let_def)
  note z = write_sorted_zone [OF w] and c2 = same_core_sel [OF write_sorted_core [OF w]]
    and c3 = same_core_sel [OF store_manifest_core [OF st]]
  have "so_engine s4 = so_engine s3" "so_wal_seq s4 = so_wal_seq s3" "so_log s4 = so_log s3"
    "so_logs s4 = so_logs s3 \<or> so_logs s4 = fmdrop wal_seq (so_logs s3)"
    "en_io E = (\<lambda>_. None) \<longrightarrow> so_logs s4 = fmdrop wal_seq (so_logs s3)"
    using rm by (auto simp: remove_log_def Let_def split: option.splits)
  then show ?thesis
    unfolding s' by (intro exI [of _ "file_len ?p s2"])
      (auto simp: c2 c3 z set_manifest_def flushed_engine_def flushed_meta_def)
qed

lemma flush_logged:
  assumes inv: "logged U X s" and fz: "ei_frozen (so_engine s) = (wal_seq, t) # rest"
    and io: "en_io E = (\<lambda>_. None)" and fl: "flush_one E (wal_seq, t) s = (Inr u, s')"
  shows "logged U X s'"
proof -
  from flush_one_result [OF fl] io obtain bytes where
    e: "so_engine s' = flushed_engine E s t bytes" and q: "so_wal_seq s' = so_wal_seq s" "so_log s' = so_log s"
    and l: "so_logs s' = fmdrop wal_seq (so_logs s)"
    by blast
  have sorted: "sorted_wrt (<) (wal_seq # map fst rest @ [so_wal_seq s])"
    using inv fz by (simp add: logged_def log_seqs_def)
  then have "wal_seq \<notin> set (map fst rest @ [so_wal_seq s])" by auto
  moreover have "fset (fmdom (so_logs s)) = insert wal_seq (set (map fst rest @ [so_wal_seq s]))"
    using inv fz by (simp add: logged_def log_seqs_def)
  ultimately have dom: "fset (fmdom (so_logs s')) = set (map fst rest @ [so_wal_seq s])"
    by (auto simp: l)
  have ne: "seq \<noteq> wal_seq" if "(seq, x) \<in> set rest" for seq x using that sorted by force
  have ne': "so_wal_seq s \<noteq> wal_seq" using sorted by auto
  show ?thesis
    using inv fz dom sorted ne ne'
    by (auto simp: logged_def log_seqs_def e q l flushed_engine_def mem_tables_def)
qed

lemma logged_step:
  assumes X: "rmp_ok X" and inv: "logged U X s" and step: "store_step U X s s'"
  shows "logged U X s'"
  using step
proof cases
  case (step_append E rs x)
  then obtain y s1 where lb: "log_batch E rs s = (Inr y, s1)"
    and fr: "freeze_if_full E (set_memtable (\<lambda>t. foldl (mt_insert U) t rs) s1) = (Inr x, s')"
    by (auto simp: writer_call_def bind_act_Inr put_state_def)
  have e: "so_engine s1 = so_engine s" using lb by (auto simp: log_batch_def split: option.splits prod.splits)
  let ?t = "foldl (mt_insert U) (ei_memtable (so_engine s)) rs"
  have "logged U X (set_memtable (\<lambda>_. ?t) s1)"
    by (rule log_batch_covers [OF inv _ _ _ _ lb]) (use step_append inv in
        \<open>auto simp: mt_inserts_merge logged_def mem_tables_def plain_delta_def list_all_iff intro: mt_inv_inserts\<close>)
  then have "logged U X (set_memtable (\<lambda>t. foldl (mt_insert U) t rs) s1)" by (simp add: set_memtable_def e)
  with fr show ?thesis by (auto simp: freeze_if_full_def split: if_splits intro: freeze_logged [OF X])
next
  case (step_incr E d key ts deltas x)
  then obtain y s1 where lb: "log_batch E [d] s = (Inr y, s1)"
    and fr: "freeze_if_full E (set_memtable (\<lambda>t. insert_delta U t d) s1) = (Inr x, s')"
    by (auto simp: writer_call_def bind_act_Inr put_state_def)
  have e: "so_engine s1 = so_engine s" using lb by (auto simp: log_batch_def split: option.splits prod.splits)
  have t: "mt_inv U (ei_memtable (so_engine s))" using inv by (simp add: logged_def mem_tables_def)
  have "logged U X (set_memtable (\<lambda>_. insert_delta U (ei_memtable (so_engine s)) d) s1)"
    by (rule log_batch_covers [OF inv _ _ _ _ lb])
       (use step_incr t in \<open>auto simp: insert_delta_merge plain_delta_def intro: mt_inv_insert_delta\<close>)
  then have "logged U X (set_memtable (\<lambda>t. insert_delta U t d) s1)" by (simp add: set_memtable_def e)
  with fr show ?thesis by (auto simp: freeze_if_full_def split: if_splits intro: freeze_logged [OF X])
next
  case (step_freeze E x)
  then show ?thesis using freeze_logged [OF X inv] by (simp add: writer_call_def)
next
  case (step_flush E fz rest u)
  obtain q t where "fz = (q, t)" by fastforce
  with step_flush flush_logged [OF inv] show ?thesis by auto
qed


lemma logged_reachable: "reachable U X s0 s \<Longrightarrow> rmp_ok X \<Longrightarrow> logged U X s0 \<Longrightarrow> logged U X s"
  by (induction rule: reachable.induct) (auto intro: logged_step)

section \<open>Recovery\<close>

text \<open>What a crash leaves of the logs.\<close>

definition logs_crash :: "(nat, Wal) fmap \<Rightarrow> (nat, Wal) fmap \<Rightarrow> bool" where
  "logs_crash logs logs' \<longleftrightarrow>
     fmdom logs' = fmdom logs \<and>
     (\<forall>seq w w'. fmlookup logs seq = Some w \<longrightarrow> fmlookup logs' seq = Some w' \<longrightarrow> crash_image w (wal_file w'))"

text \<open>
  Folding a log onto older state: either it is only increments, and alone folds to an increment,
  or the older state does not matter.
\<close>

lemma merge_step_simps:
  "is_delta v \<Longrightarrow> merge_step b v = Some (merge_delta b v)" "\<not> is_delta v \<Longrightarrow> merge_step b v = Some v"
  by (simp_all add: merge_step_def)

lemma merge_onto:
  assumes "list_all plain_delta vs"
  shows "foldl merge_step b vs = foldl merge_step None vs \<or>
         list_all is_delta vs \<and> (vs = [] \<or> (\<exists>r. foldl merge_step None vs = Some r \<and> is_delta r \<and> \<not> is_tombstone r))"
  using assms
proof (induction vs rule: rev_induct)
  case (snoc v vs)
  then have IH: "foldl merge_step b vs = foldl merge_step None vs \<or>
      list_all is_delta vs \<and> (vs = [] \<or> (\<exists>r. foldl merge_step None vs = Some r \<and> is_delta r \<and> \<not> is_tombstone r))" by simp
  show ?case
  proof (cases "is_delta v")
    case False
    then show ?thesis by (simp add: merge_step_simps)
  next
    case True
    then have nt: "\<not> is_tombstone v" using snoc.prems by (simp add: plain_delta_def)
    from IH show ?thesis
    proof
      assume "foldl merge_step b vs = foldl merge_step None vs"
      then show ?thesis by simp
    next
      assume d: "list_all is_delta vs \<and>
          (vs = [] \<or> (\<exists>r. foldl merge_step None vs = Some r \<and> is_delta r \<and> \<not> is_tombstone r))"
      then have "\<exists>r. foldl merge_step None (vs @ [v]) = Some r \<and> is_delta r \<and> \<not> is_tombstone r"
        using True nt by (auto simp: merge_step_simps is_delta_merge_Some is_tombstone_merge_Some)
      with d True show ?thesis by simp
    qed
  qed
qed simp

lemma merge_onto_base:
  assumes "list_all plain_delta vs" and "\<forall>r. foldl merge_step None vs = Some r \<longrightarrow> \<not> is_delta r"
  shows "foldl merge_step b vs = (case foldl merge_step None vs of None \<Rightarrow> b | Some r \<Rightarrow> Some r)"
proof -
  have ne: "vs = [] \<or> (\<exists>r. foldl merge_step c vs = Some r)" for c
    by (cases vs rule: rev_cases) (simp_all add: merge_step_def)
  from merge_onto [OF assms(1), of b] show ?thesis
    using assms(2) ne [of None] ne [of b] by (auto split: option.splits)
qed

text \<open>Logs folded one after the other give, for a key without pending increments, the newest table's record.\<close>

lemma merge_logs_latest:
  assumes "\<forall>(rs, t) \<in> set ps. mt_records t = merge_records rs \<and> list_all plain_delta rs"
    and "\<forall>(rs, t) \<in> set ps. \<forall>r. fmlookup (mt_records t) k = Some r \<longrightarrow> \<not> is_delta r"
  shows "foldl merge_step None (filter (\<lambda>r. rec_key r = k) (concat (map fst ps))) =
           fmlookup (latest (rev (map (\<lambda>p. mt_records (snd p)) ps))) k"
  using assms
proof (induction ps rule: rev_induct)
  case (snoc p ps)
  obtain rs t where p: "p = (rs, t)" by fastforce
  let ?vs = "filter (\<lambda>r. rec_key r = k) rs"
  have own: "foldl merge_step None ?vs = fmlookup (mt_records t) k"
    using snoc.prems(1) by (simp add: p merge_records_def merge_records_lookup)
  have "list_all plain_delta ?vs" using snoc.prems(1) by (auto simp: p list_all_iff)
  moreover have "\<forall>r. foldl merge_step None ?vs = Some r \<longrightarrow> \<not> is_delta r"
    unfolding own using snoc.prems(2) by (simp add: p)
  ultimately have "foldl merge_step b ?vs = (case fmlookup (mt_records t) k of None \<Rightarrow> b | Some r \<Rightarrow> Some r)" for b
    unfolding own [symmetric] by (rule merge_onto_base)
  moreover have "foldl merge_step None (filter (\<lambda>r. rec_key r = k) (concat (map fst ps))) =
      fmlookup (latest (rev (map (\<lambda>p. mt_records (snd p)) ps))) k"
    by (rule snoc.IH) (use snoc.prems in auto)
  ultimately show ?case by (simp add: p fmlookup_dom_iff split: option.splits)
qed simp

lemma bt_values_keys: "bt_values m = map (\<lambda>k. the (fmlookup m k)) (bt_keys m)"
  unfolding bt_values_def bt_keys_def map_map comp_def by (intro map_cong) auto

lemma sorted_keys_unique:
  assumes "sorted_wrt (<) xs" and "fset (fmdom m) = set xs"
  shows "bt_keys m = xs"
  using assms by (simp add: bt_keys_eq sorted_list_of_fset.rep_eq strict_sorted_iff sorted_list_of_set.idem_if_sorted_distinct)

lemma replay_logs_eq:
  "list_all2 (\<lambda>w rs. replay X (Some (wal_file w)) = Inr rs) ws rss \<Longrightarrow> replay_logs X ws = Inr (concat rss)"
  by (induction rule: list_all2_induct) simp_all

text \<open>The records of each surviving log, with the memtable it covers.\<close>

lemma recovered_logs:
  assumes inv: "logged U X s" and crash: "logs_crash (so_logs s) logs'"
  obtains ps where "replay_logs X (bt_values logs') = Inr (concat (map fst ps))"
    and "map snd ps = rev (mem_tables (so_engine s))"
    and "\<forall>(rs, t) \<in> set ps. mt_records t = merge_records rs \<and> list_all plain_delta rs"
proof -
  let ?tabs = "ei_frozen (so_engine s) @ [(so_wal_seq s, ei_memtable (so_engine s))]"
  have seqs: "log_seqs s = map fst ?tabs" by (simp add: log_seqs_def)
  have cov: "\<exists>rs. replay X (Some (wal_file (the (fmlookup logs' (fst p))))) = Inr rs \<and>
      mt_records (snd p) = merge_records rs \<and> list_all plain_delta rs" if "p \<in> set ?tabs" for p
  proof -
    have "covers_table X (fmlookup (so_logs s) (fst p)) (snd p)" using inv that by (auto simp: logged_def)
    then obtain w rs where w: "fmlookup (so_logs s) (fst p) = Some w" and d: "wal_durable X w rs"
      and r: "list_all plain_delta rs" "mt_records (snd p) = merge_records rs" by (auto simp: covers_table_def)
    then have "fst p |\<in>| fmdom logs'" using crash by (auto simp: logs_crash_def intro: fmdomI)
    then obtain w' where "fmlookup logs' (fst p) = Some w'" by (auto simp: fmlookup_dom_iff)
    moreover from this have "crash_image w (wal_file w')" using crash w by (auto simp: logs_crash_def)
    from walog.image_recovers [OF d this] have "replay X (Some (wal_file w')) = Inr rs"
      by (simp add: wal_recover_def split: sum.splits)
    ultimately show ?thesis using r by simp
  qed
  then obtain f where f: "\<And>p. p \<in> set ?tabs \<Longrightarrow> replay X (Some (wal_file (the (fmlookup logs' (fst p))))) = Inr (f p) \<and>
      mt_records (snd p) = merge_records (f p) \<and> list_all plain_delta (f p)" by metis
  let ?ps = "map (\<lambda>p. (f p, snd p)) ?tabs"
  have "bt_keys logs' = log_seqs s"
    by (rule sorted_keys_unique) (use inv crash in \<open>simp_all add: logged_def logs_crash_def\<close>)
  then have "bt_values logs' = map (\<lambda>p. the (fmlookup logs' (fst p))) ?tabs"
    by (simp add: bt_values_keys seqs comp_def)
  moreover have "list_all2 (\<lambda>w rs. replay X (Some (wal_file w)) = Inr rs)
      (map (\<lambda>p. the (fmlookup logs' (fst p))) ?tabs) (map fst ?ps)"
    unfolding map_map list.rel_map by (rule list.rel_refl_strong) (use f in simp)
  then have "replay_logs X (map (\<lambda>p. the (fmlookup logs' (fst p))) ?tabs) = Inr (concat (map fst ?ps))"
    by (rule replay_logs_eq)
  ultimately have "replay_logs X (bt_values logs') = Inr (concat (map fst ?ps))" by (simp only:)
  moreover have "map snd ?ps = rev (mem_tables (so_engine s))" by (simp add: mem_tables_def rev_map comp_def)
  moreover have "\<forall>(rs, t) \<in> set ?ps. mt_records t = merge_records rs \<and> list_all plain_delta rs" using f by auto
  ultimately show thesis using that by blast
qed


text \<open>Opening an empty directory.\<close>

lemma open_fresh_logged:
  assumes X: "rmp_ok (en_ext E)" and "open_inner E cfg fmempty fmempty remote = (Inr (), s0)"
    and "gc_fsync cfg = Always" and "en_objects E = None"
  shows "logged (en_unicode E) (en_ext E) s0"
proof -
  have keys: "bt_keys (fmempty :: (nat, Wal) fmap) = []" and vals: "bt_values (fmempty :: (nat, Wal) fmap) = []"
    by (simp_all add: bt_keys_eq bt_values_keys sorted_list_of_fset.rep_eq)
  from assms(2) obtain w bs where w: "wal_open (en_wal_io E 0) [] Always = (Inr w, bs)"
    and s0: "so_engine s0 = \<lparr> ei_config = cfg, ei_memtable = mt_default, ei_frozen = [], ei_manifest = manifest_default \<rparr>"
      "so_logs s0 = fmupd 0 w fmempty" "so_log s0 = 0" "so_wal_seq s0 = 0"
    using assms(3,4)
    by (auto simp: open_inner_def Let_def bind_act_Inr of_result_def put_state_def reconcile_remote_def ret_def
        keys vals merge_records_def open_log_def set_manifest_def fs_read_def manifest_load_def
        split: prod.splits sum.splits)
  from covers_empty [OF X w] show ?thesis
    by (simp add: logged_def s0 log_seqs_def mem_tables_def assms(3))
qed

section \<open>Properties\<close>


text \<open>An engine that took one write.\<close>

definition sample_store_ext :: man_ext where
  "sample_store_ext =
     sample_man_ext\<lparr> rmp_to_vec := rmp_to_vec sample_ext, rmp_from_slice := rmp_from_slice sample_ext,
                     crc32_hash := crc32_hash sample_ext \<rparr>"

definition sample_env :: "(unit, unit) env" where
  "sample_env =
     \<lparr> en_unicode = ascii_unicode, en_ext = sample_store_ext, en_objects = None, en_io = (\<lambda>_. None),
       en_wal_io = (\<lambda>_. io_fine), en_mtime = (\<lambda>_. 0), en_now = 0 \<rparr>"

definition sample_config :: GirderConfig where
  "sample_config = (config_at [lit ''d''])\<lparr> gc_fsync := Always \<rparr>"

definition sample_opened :: "unit Store" where
  "sample_opened =
     \<lparr> so_engine = \<lparr> ei_config = sample_config, ei_memtable = mt_default, ei_frozen = [], ei_manifest = manifest_default \<rparr>,
       so_disk = fmempty, so_logs = fmupd 0 sample_wal fmempty, so_wal_seq = 0, so_log = 0, so_remote = (),
       so_cache = cache_new (gc_cache_bytes sample_config), so_cursor = 0, so_ticks = 0, so_io = 1 \<rparr>"

lemma sample_store_ext_ok: "rmp_ok sample_store_ext" "loggable sample_store_ext (sample_record [97])"
  using sample_ext_ok sample_loggable(1) by (simp_all add: rmp_ok_def loggable_def sample_store_ext_def)

lemma sample_open_inner: "open_inner sample_env sample_config fmempty fmempty () = (Inr (), sample_opened)"
proof -
  have "bt_keys (fmempty :: (nat, Wal) fmap) = []" "bt_values (fmempty :: (nat, Wal) fmap) = []"
    by (simp_all add: bt_keys_eq bt_values_keys sorted_list_of_fset.rep_eq)
  then show ?thesis
    by (simp add: open_inner_def Let_def bind_act_def of_result_def put_state_def reconcile_remote_def ret_def sample_env_def
        merge_records_def open_log_def set_manifest_def fs_read_def manifest_load_def sample_wal_open sample_config_def
        sample_opened_def config_at_def)
qed

lemma sample_written:
  obtains s w where "writer_call sample_env (Append [sample_record [97]]) sample_opened = (Inr None, s)"
    and "so_logs s = fmupd 0 w fmempty" and "wal_synced w = length (wal_file w)"
    and "so_engine s = (so_engine sample_opened)\<lparr> ei_memtable := mt_insert ascii_unicode mt_default (sample_record [97]) \<rparr>"
proof -
  obtain w where
    "append_batch sample_store_ext io_fine sample_wal [sample_record [97]] = (Inr (), w)" "wal_synced w = length (wal_file w)"
    using sample_store_ext_ok(2)
    by (simp add: append_batch_def encode_frames_loggable write_all_def io_fine_def Let_def sync_due_def
        wal_sync_def sync_data_def sample_wal_def)
  moreover have "mt_len (mt_insert ascii_unicode mt_default (sample_record [97])) = 1"
    by (simp add: mt_len_def mt_default_def fcard_finsert_disjoint)
  ultimately show thesis
    by (intro that [of "sample_opened\<lparr> so_engine := (so_engine sample_opened)\<lparr> ei_memtable :=
          mt_insert ascii_unicode mt_default (sample_record [97]) \<rparr>, so_logs := fmupd 0 w fmempty, so_io := 2 \<rparr>" w])
       (simp_all add: writer_call_def bind_act_def log_batch_def sample_opened_def sample_env_def put_state_def
        set_memtable_def freeze_if_full_def sample_config_def config_at_def)
qed


text \<open>
  C30. A freeze that fails hides acknowledged writes. When the next log cannot be opened, the memtable
  is already taken and never reaches the frozen ones: every write it held is gone from the state the
  reads see (only the log keeps it, until it is replayed at the next open), and the writer's number
  has left the log it still writes to.
\<close>

theorem freeze_failure_hides_writes:
  assumes "writer_freeze E s = (Inl e, s')"
  shows "\<not> mt_is_empty (ei_memtable (so_engine s)) \<and> ei_memtable (so_engine s') = mt_default \<and>
         ei_frozen (so_engine s') = ei_frozen (so_engine s) \<and> so_manifest s' = so_manifest s \<and>
         so_log s' = so_log s \<and> so_wal_seq s' = so_wal_seq s + 1"
proof -
  have "so_engine s2 = so_engine s1 \<and> so_wal_seq s2 = so_wal_seq s1 \<and> so_log s2 = so_log s1"
    if "open_log E n s1 = (Inl x, s2)" for n s1 x s2
    using that by (auto simp: open_log_def Let_def split: prod.splits sum.splits)
  then show ?thesis
    using assms by (fastforce simp: writer_freeze_def bind_act_def Let_def split: if_splits prod.splits sum.splits)
qed

theorem freeze_failure_hides_writes_witness:
  "\<exists>e s'. writer_freeze (sample_env\<lparr> en_wal_io := (\<lambda>_. \<lparr> io_write = Some 0, io_sync = True \<rparr>) \<rparr>)
       (set_memtable (\<lambda>t. mt_insert ascii_unicode t (sample_record [97])) sample_opened) = (Inl e, s') \<and>
     ei_memtable (so_engine s') = mt_default \<and> ei_frozen (so_engine s') = []"
proof -
  let ?E = "sample_env\<lparr> en_wal_io := (\<lambda>_. \<lparr> io_write = Some 0, io_sync = True \<rparr>) \<rparr>"
  let ?s = "set_memtable (\<lambda>t. mt_insert ascii_unicode t (sample_record [97])) sample_opened"
  have "\<exists>e s'. writer_freeze ?E ?s = (Inl e, s')"
    by (simp add: writer_freeze_def Let_def bind_act_def open_log_def wal_open_def write_all_def sample_opened_def set_memtable_def
        mt_is_empty_def mt_default_def sample_record_def)
  then obtain e s' where f: "writer_freeze ?E ?s = (Inl e, s')" by blast
  have "ei_frozen (so_engine ?s) = []" by (simp add: sample_opened_def set_memtable_def)
  with f freeze_failure_hides_writes [OF f] show ?thesis by auto
qed

end
