(* ===== verification/Store_Reads.thy ===== *)
theory Store_Reads
  imports Durability
begin

text \<open>
  Background work does not change what is read: freezing, flushing and compacting leave the visible
  record of every key as it was (a compaction folds increments in another order, so for keys with
  increments in the run only up to rounding, see \<open>merge_delta_grouping\<close>).
\<close>

section \<open>Freeze and flush\<close>

lemma newest_first_append:
  assumes "\<forall>x \<in> set ms. sm_id x < sm_id m"
  shows "newest_first (ms @ [m]) = m # newest_first ms"
proof -
  have "insort_key (\<lambda>m. - int (sm_id m)) m (sort_key (\<lambda>m. - int (sm_id m)) ms) = m # sort_key (\<lambda>m. - int (sm_id m)) ms"
    by (rule insort_is_Cons) (use assms in \<open>auto intro: less_imp_le\<close>)
  moreover have "sort_key f (xs @ [x]) = insort_key f x (sort_key f xs)" if "\<forall>y \<in> set xs. f x < f y" for f :: "SegmentMeta \<Rightarrow> int" and x xs
    using that
  proof (induction xs)
    case (Cons y ys)
    then have xy: "f x < f y" by simp
    have "insort_key f y (insort_key f x zs) = insort_key f x (insort_key f y zs)" for zs
      using xy by (induction zs) auto
    with Cons show ?case by simp
  qed simp
  ultimately show ?thesis using assms by (simp add: newest_first_def)
qed

lemma seg_map_values:
  assumes "mt_inv U t"
  shows "seg_map (mt_values t) = mt_records t"
proof (rule fmap_ext)
  fix k
  have s: "sorted_wrt (<) (map rec_key (mt_values t))" by (simp add: mt_values_keys [OF assms])
  show "fmlookup (seg_map (mt_values t)) k = fmlookup (mt_records t) k"
    using filter_key_seg [OF s, of k] filter_key_values [OF keyed_mt_records [OF assms], of k]
    by (auto simp: mt_values_def split: option.splits)
qed

text \<open>
  The manifest's own invariant: recency slots are taken once and lie below the counter, files are
  named by numbers the counter has passed, each by its own.
\<close>

definition manifest_ok :: "Manifest \<Rightarrow> bool" where
  "manifest_ok m \<longleftrightarrow>
     distinct (map sm_id (mf_segments m)) \<and> distinct (map sm_file (mf_segments m)) \<and>
     (\<forall>x \<in> set (mf_segments m). sm_id x < mf_next_segment_id m \<and> sm_file x \<in> seg_file ` {..<mf_next_segment_id m})"

lemma seg_file_inj [simp]: "seg_file a = seg_file b \<longleftrightarrow> a = b"
proof
  assume "seg_file a = seg_file b"
  then have "dec_pad 16 a = dec_pad 16 b" by (simp add: seg_file_def)
  then have "parse_digits (dec_pad 16 a) = parse_digits (dec_pad 16 b)" by simp
  then show "a = b" by (simp add: dec_pad_def parse_digits_zeros parse_digits_dec)
qed simp

lemma flush_sources:
  assumes fl: "flush_one E (q, t) s = (Inr u, s')" and fz: "ei_frozen (so_engine s) = (q, t) # rest"
    and ids: "manifest_ok (so_manifest s)" and t: "mt_inv U t"
  shows "\<exists>m. mf_segments (so_manifest s') = mf_segments (so_manifest s) @ [m] \<and>
           sources (so_engine s') (segs(m := mt_values t)) = sources (so_engine s) segs"
proof -
  from flush_one_result [OF fl] obtain bytes where e: "so_engine s' = flushed_engine E s t bytes" by blast
  let ?m = "flushed_meta E s t bytes" and ?L = "mf_segments (so_manifest s)"
  have below: "\<forall>x \<in> set ?L. sm_id x < sm_id ?m" using ids by (simp add: manifest_ok_def flushed_meta_def)
  then have "?m \<notin> set ?L" by blast
  then have same: "map (\<lambda>m. seg_map ((segs(?m := mt_values t)) m)) (newest_first ?L) = map (\<lambda>m. seg_map (segs m)) (newest_first ?L)"
    by (intro map_cong) auto
  have "sources (so_engine s') (segs(?m := mt_values t)) = sources (so_engine s) segs"
    using fz same
    by (simp add: sources_def e flushed_engine_def mem_tables_def newest_first_append [OF below] seg_map_values [OF t])
  then show ?thesis using e by (auto simp: flushed_engine_def)
qed

lemma freeze_versions:
  assumes "writer_freeze E s = (Inr x, s')"
  shows "versions (sources (so_engine s') segs) k = versions (sources (so_engine s) segs) k"
proof (cases "mt_is_empty (ei_memtable (so_engine s))")
  case True
  with assms show ?thesis by (simp add: writer_freeze_def Let_def)
next
  case False
  with assms obtain s1 where
    "open_log E (so_wal_seq s + 1) (s\<lparr> so_engine := (so_engine s)\<lparr> ei_memtable := mt_default \<rparr>, so_wal_seq := so_wal_seq s + 1 \<rparr>) = (Inr (), s1)"
    and s': "s' = s1\<lparr> so_engine := (so_engine s1)\<lparr> ei_frozen := ei_frozen (so_engine s1) @ [(so_wal_seq s, ei_memtable (so_engine s))] \<rparr> \<rparr>"
    by (auto simp: writer_freeze_def Let_def bind_act_Inr)
  then have "so_engine s1 = (so_engine s)\<lparr> ei_memtable := mt_default \<rparr>"
    by (auto simp: open_log_def Let_def split: prod.splits sum.splits)
  then show ?thesis by (simp add: s' sources_def mem_tables_def mt_default_def)
qed

section \<open>Compaction\<close>

lemma newest_first_desc:
  assumes "sorted_wrt (\<lambda>a b. sm_id b < sm_id a) L" and "mset L = mset ms"
  shows "newest_first ms = L"
proof -
  have "distinct (map sm_id L)" using assms(1) by (induction L) auto
  then have inj: "inj_on (\<lambda>m. - int (sm_id m)) (set ms)"
    using mset_eq_setD [OF assms(2)] by (auto simp: distinct_map inj_on_def)
  have "sorted (map (\<lambda>m. - int (sm_id m)) L)"
    using assms(1) by (simp add: sorted_map) (erule sorted_wrt_mono_rel [rotated], simp)
  with inj assms(2) show ?thesis
    unfolding newest_first_def by (intro sort_key_inj_key_eq) simp_all
qed

lemma newest_first_rev:
  assumes "distinct (map sm_id ms)"
  shows "newest_first ms = rev (sort_key sm_id ms)"
proof (rule newest_first_desc)
  have "sorted_wrt (<) (map sm_id (sort_key sm_id ms))"
    using assms by (simp add: strict_sorted_iff distinct_map)
  then show "sorted_wrt (\<lambda>a b. sm_id b < sm_id a) (rev (sort_key sm_id ms))" by (simp add: sorted_wrt_rev sorted_wrt_map)
qed simp

text \<open>
  The swap: a run that is contiguous in the order of ids, replaced by segments in ids of its own,
  keeps its place among the others.
\<close>

lemma swap_order:
  assumes d: "distinct (map sm_id ms)" and run: "sort_key sm_id ms = a @ run @ b"
    and outs: "sorted_wrt (<) (map sm_id outs)" "set (map sm_id outs) \<subseteq> set (map sm_id run)"
  shows "newest_first (filter (\<lambda>m. sm_id m \<notin> set (map sm_id run)) ms @ outs) = rev b @ rev outs @ rev a"
proof (rule newest_first_desc)
  have "sorted_wrt (<) (map sm_id (a @ run @ b))"
    using d unfolding run [symmetric] by (simp add: strict_sorted_iff distinct_map)
  then have s: "sorted_wrt (<) (map sm_id a)" "sorted_wrt (<) (map sm_id b)"
    and ar: "\<forall>x \<in> set a. \<forall>y \<in> set run. sm_id x < sm_id y" and rb: "\<forall>x \<in> set run. \<forall>y \<in> set b. sm_id x < sm_id y"
    and ab: "\<forall>x \<in> set a. \<forall>y \<in> set b. sm_id x < sm_id y"
    by (auto simp: sorted_wrt_append)
  have slot: "\<exists>y \<in> set run. sm_id x = sm_id y" if "x \<in> set outs" for x using outs(2) that by auto
  show "sorted_wrt (\<lambda>a b. sm_id b < sm_id a) (rev b @ rev outs @ rev a)"
    using s outs(1) ar rb ab slot by (fastforce simp: sorted_wrt_append sorted_wrt_rev sorted_wrt_map)
  have "filter (\<lambda>m. sm_id m \<notin> set (map sm_id run)) (a @ run @ b) = a @ b"
  proof -
    have "filter (\<lambda>m. sm_id m \<notin> set (map sm_id run)) a = a" "filter (\<lambda>m. sm_id m \<notin> set (map sm_id run)) b = b"
      using ar rb by (fastforce simp: filter_id_conv)+
    then show ?thesis by simp
  qed
  then have "mset (filter (\<lambda>m. sm_id m \<notin> set (map sm_id run)) ms) = mset (a @ b)"
    using run by (metis mset_filter mset_sort)
  then show "mset (rev b @ rev outs @ rev a) = mset (filter (\<lambda>m. sm_id m \<notin> set (map sm_id run)) ms @ outs)" by simp
qed


text \<open>What the files of the listed segments hold.\<close>

definition seg_content :: "('x, 'o) env \<Rightarrow> 'o Store \<Rightarrow> SegmentMeta \<Rightarrow> Record list" where
  "seg_content E s m =
     (case fmlookup (so_disk s) (seg_path s m) of
        None \<Rightarrow> []
      | Some bytes \<Rightarrow> (case read_all_records (en_ext E) bytes of Inl _ \<Rightarrow> [] | Inr rs \<Rightarrow> rs))"

lemma read_all_result:
  assumes "read_all E (seg_path s m) s = (Inr rs, s')"
  shows "rs = seg_content E s m \<and> s' = s\<lparr> so_io := so_io s' \<rparr>"
  using assms
  by (auto simp: read_all_def bind_act_Inr read_path_def of_result_def seg_content_def fs_read_def Let_def
      split: option.splits sum.splits)

lemma read_inputs_result:
  "read_inputs E ms s = (Inr inputs, s') \<Longrightarrow> inputs = map (seg_content E s) ms \<and> s' = s\<lparr> so_io := so_io s' \<rparr>"
proof (induction ms arbitrary: s inputs)
  case (Cons m ms)
  then obtain rs s1 rest where r: "read_all E (seg_path s m) s = (Inr rs, s1)"
    and rest: "read_inputs E ms s1 = (Inr rest, s')" and i: "inputs = rs # rest"
    by (auto simp: bind_act_Inr ret_def)
  note r1 = read_all_result [OF r] and r2 = Cons.IH [OF rest]
  have "seg_content E s1 = seg_content E s"
    by (rule ext) (subst r1 [THEN conjunct2], simp add: seg_content_def seg_path_def)
  moreover have "s' = s\<lparr> so_io := so_io s' \<rparr>"
    by (subst r2 [THEN conjunct2], subst r1 [THEN conjunct2], simp)
  ultimately show ?case using r1 r2 i by simp
qed (simp add: ret_def)

lemma drop_segment_engine: "so_engine (snd (drop_segment_file E m s)) = so_engine s"
proof -
  have p: "so_engine (snd (perform E op t)) = so_engine t" for op t
    using same_core_sel(1) [OF perform_core [of E op t]] by (metis prod.collapse)
  show ?thesis
    by (auto simp: drop_segment_file_def Let_def bind_act_def ret_def ignore_err_def p split: Tier.splits option.splits
        prod.splits sum.splits)
qed

lemma drop_inputs_engine: "drop_inputs E ms s = (r, s') \<Longrightarrow> so_engine s' = so_engine s"
proof (induction ms arbitrary: s)
  case (Cons m ms)
  then show ?case
    using drop_segment_engine [of E m s]
    by (auto simp: bind_act_def ignore_err_def put_state_def invalidate_cache_def)
qed (simp add: ret_def)

lemma bt_values_seg_map:
  assumes "sorted_wrt (<) (map rec_key rs)"
  shows "bt_values (seg_map rs) = rs"
proof -
  have "x \<in> fset (fmdom (seg_map rs)) \<longleftrightarrow> x \<in> set (map rec_key rs)" for x
    using seg_map_None [OF assms, of x] fmdom_notI [of "seg_map rs" x] by (cases "fmlookup (seg_map rs) x") (auto intro: fmdomI)
  then have "fset (fmdom (seg_map rs)) = set (map rec_key rs)" by blast
  then have keys: "bt_keys (seg_map rs) = map rec_key rs" using assms by (intro sorted_keys_unique)
  have "the (fmlookup (seg_map rs) (rec_key r)) = r" if "r \<in> set rs" for r
    using seg_map_lookup [OF assms, of "rec_key r" r] that by simp
  then show ?thesis unfolding bt_values_keys keys by (simp add: map_idI)
qed

text \<open>The rewritten run, in the place of the run, reads the same.\<close>

lemma compacted_block:
  assumes sorted: "\<forall>m \<in> set run. sorted_wrt (<) (map rec_key (segs m))"
    and plain: "\<forall>m \<in> set run. \<forall>r \<in> set (segs m). rec_key r = k \<longrightarrow> \<not> is_delta r"
    and policy: "policy_is_empty (retention_policy cfg)"
  shows "folded (versions (A @ map seg_map (rev (compact_records cfg now None (map segs run))) @ B) k) =
         folded (versions (A @ map (\<lambda>m. seg_map (segs m)) (rev run) @ B) k)"
proof -
  let ?R = "map (\<lambda>m. seg_map (segs m)) (rev run)" and ?M = "merge_records (concat (map segs run))"
  have keyed: "list_all keyed ?R" using sorted by (simp add: list_all_iff keyed_seg_map)
  have "map (\<lambda>m. bt_values (seg_map (segs m))) run = map segs run"
    using sorted by (simp add: bt_values_seg_map)
  then have inputs: "concat (map bt_values (rev ?R)) = concat (map segs run)"
    by (simp only: rev_map [symmetric] rev_rev_ident map_map comp_def)
  have nodelta: "\<forall>v \<in> set (versions ?R k). \<not> is_delta v"
    using plain sorted seg_map_lookup by (fastforce simp: in_versions)
  have M: "fmlookup ?M k = fmlookup (latest ?R) k"
    using merge_records_latest [OF keyed nodelta] by (simp add: inputs)
  have "concat (compact_records cfg now None (map segs run)) = bt_values ?M"
    using policy by (simp add: compact_records_def Let_def split_chunks_concat)
  from versions_chunks [OF merge_records_keyed this]
  have "versions (map seg_map (rev (compact_records cfg now None (map segs run)))) k =
      (case fmlookup (latest ?R) k of None \<Rightarrow> [] | Some r \<Rightarrow> [r])"
    by (simp add: M)
  from folded_replace [OF nodelta this] show ?thesis .
qed

lemma contiguous_sorted:
  assumes "sort_key f xs = a @ run @ b"
  shows "sort_key f run = run"
proof (rule sort_key_id_if_sorted)
  have "sorted (map f (a @ run @ b))" unfolding assms [symmetric] by simp
  then show "sorted (map f run)" by (simp add: sorted_append)
qed


end
