(* ===== verification/Store_Disk.thy ===== *)
theory Store_Disk
  imports Store_Reads Codec_File Engine_Props
begin

text \<open>
  The engine over its files. The invariant \<open>store_ok\<close> ties the manifest to the files on disk: every
  listed segment is a version 2 file of the records its zone map describes. Under it the read path
  returns what the state holds, so what \<open>Store_Reads\<close> shows of the sources is shown of lookups and
  scans: a flush and a compaction that report success change no read.
\<close>

section \<open>Version 2 files as segments\<close>

lemma encode_v2_rows:
  assumes "encode_v2 U X rs = Inr f"
  shows "length rs \<le> length f"
proof -
  obtain blocks dir where f: "v2_file U X rs blocks dir f" using encode_v2_file [OF assms] by blast
  have "length rs \<le> length (layout X (all_sections U X rs blocks))"
    by (simp add: all_sections_def v2_sections_def length_concat comp_def i64_le_def sum_list_triv)
  with f show ?thesis by (simp add: v2_file_def)
qed

lemma v2_segment_holds:
  assumes X: "codec_rmp_ok X" and U: "unicode_str U" and rs: "seg_records rs" "rs \<noteq> []"
    and enc: "encode_v2 U X rs = Inr f" and len: "length f < 2 ^ 32"
    and op: "open_seg m = Inr f" and zone: "sm_zone m = zone_build rs"
  shows "segment_holds U X open_seg m rs"
proof -
  obtain blocks dir where f: "v2_file U X rs blocks dir f" using encode_v2_file [OF enc] by blast
  have len64: "length f < 2 ^ 64" using len by simp
  have s: "sorted_wrt (<) (map rec_key rs)" using rs(1) by (simp add: seg_records_def)
  have cols: "\<exists>c g. read_segment U X open_seg m need = Inr (c, g) \<and> cols_ok U X g need c rs \<and> open_payload_file open_seg m c = Inr g" for need
  proof -
    obtain c where c: "load_segment U X f need = Inr (c, Some f)" "cols_ok U X (Some f) need c rs" "payload_needs_file c"
      using load_segment_v2 [OF X U rs(1) f len] by blast
    then show ?thesis
      by (intro exI [of _ c] exI [of _ "Some f"]) (simp add: read_segment_def open_payload_file_def op)
  qed
  have footer: "read_footer X f = Inr (file_dir U X rs blocks)" unfolding file_dir_def by (rule v2_footer(2) [OF X f len64])
  have keys: "load_segment_keys U X open_seg m = Inr (Slim (key_section rs))"
    using footer load_keys_ok [OF X rs(1) f len]
    by (simp add: load_segment_keys_def op v2_file_header(2) [OF f] VERSION_V2_def)
  obtain c where "file_columns U X f False c rs" using load_sections_ok [OF X U rs(1) f len] by blast
  then have c: "sc_count c = length rs" "sc_keys c = key_section rs" and ok: "cols_ok U X (Some f) False c rs"
    using file_columns_ok [OF X rs(1)] by (auto simp: file_columns_def)
  have "ks_find (key_section rs) k = find_key c k" for k
    using c by (simp add: ks_find_def find_key_def key_at_def [abs_def] ks_count_def key_section_def)
  then have "segkeys_contains (Slim (key_section rs)) k \<longleftrightarrow> (\<exists>i < length rs. rec_key (rs ! i) = k)" for k
    unfolding segkeys_contains_def SegKeys.case not_None_eq by (simp add: find_key_ok [OF ok s])
  then have "\<forall>k. segkeys_contains (Slim (key_section rs)) k \<longleftrightarrow> k \<in> rec_key ` set rs"
    by (metis imageE image_eqI in_set_conv_nth)
  with rs s cols keys show ?thesis by (simp add: segment_holds_def zone zone_build_covers)
qed

section \<open>File operations and the files they leave alone\<close>

fun fs_paths :: "fs_op \<Rightarrow> path set" where
  "fs_paths (FsWrite p bs) = {p}"
| "fs_paths (FsSync p) = {}"
| "fs_paths (FsRename p q) = {p, q}"
| "fs_paths (FsRemove p) = {p}"

lemma fs_step_other: "p \<notin> fs_paths op \<Longrightarrow> fmlookup (fs_step op d) p = fmlookup d p"
  by (cases op) (auto split: option.splits)

lemma perform_other: "p \<notin> fs_paths op \<Longrightarrow> fmlookup (so_disk (snd (perform E op s))) p = fmlookup (so_disk s) p"
  by (cases op) (auto simp: perform_def Let_def split: option.splits)

lemma perform_all_other:
  "\<forall>op \<in> set ops. p \<notin> fs_paths op \<Longrightarrow> fmlookup (so_disk (snd (perform_all E ops s))) p = fmlookup (so_disk s) p"
proof (induction ops arbitrary: s)
  case (Cons op ops)
  then have "fmlookup (so_disk (snd (perform E op s))) p = fmlookup (so_disk s) p" by (intro perform_other) simp
  with Cons show ?case by (cases "perform E op s") (auto simp: bind_act_def split: sum.splits)
qed (simp add: ret_def)

lemma perform_all_run: "perform_all E ops s = (Inr u, s') \<Longrightarrow> so_disk s' = fs_run ops (so_disk s)"
proof (induction ops arbitrary: s)
  case (Cons op ops)
  then obtain v s1 where "perform E op s = (Inr v, s1)" and r: "perform_all E ops s1 = (Inr u, s')" by (auto simp: bind_act_Inr)
  then have "so_disk s1 = fs_step op (so_disk s)" by (auto simp: perform_def Let_def split: option.splits if_splits)
  with Cons.IH [OF r] show ?case by (simp add: fs_run_def)
qed (simp add: ret_def fs_run_def)

text \<open>Segment files are told from the temporary files and the manifest by how their names end.\<close>

definition seg_named :: "path \<Rightarrow> bool" where
  "seg_named p \<longleftrightarrow> p \<noteq> [] \<and> last p \<in> range seg_file"

lemma seg_named_simps [simp]:
  "seg_named (d @ [seg_file q])" "\<not> seg_named (manifest_path d)" "\<not> seg_named (manifest_tmp d)"
  "\<not> seg_named (with_extension (lit ''tmp'') p)"
proof -
  have e: "last (seg_file q) = 100" for q by (simp add: seg_file_def lit_def)
  have "x \<notin> range seg_file" if "last x \<noteq> 100" for x using that e by auto
  then show "seg_named (d @ [seg_file q])" "\<not> seg_named (manifest_path d)" "\<not> seg_named (manifest_tmp d)"
    "\<not> seg_named (with_extension (lit ''tmp'') p)"
    by (simp_all add: seg_named_def manifest_path_def manifest_tmp_def with_extension_def lit_def Let_def)
qed

lemma write_sorted_disk:
  assumes "write_sorted E p rs s = (Inr z, s')" and "seg_named p"
  shows "\<exists>f. encode_v2 (en_unicode E) (en_ext E) rs = Inr f \<and> fmlookup (so_disk s') p = Some f \<and>
           (\<forall>p'. seg_named p' \<longrightarrow> p' \<noteq> p \<longrightarrow> fmlookup (so_disk s') p' = fmlookup (so_disk s) p')"
proof -
  let ?tmp = "with_extension (lit ''tmp'') p"
  obtain f s1 where f: "encode_v2 (en_unicode E) (en_ext E) rs = Inr f"
    and w: "perform_all E [FsWrite ?tmp f, FsSync ?tmp, FsRename ?tmp p] s = (Inr (), s1)" and s': "s' = s1"
    using assms(1) by (auto simp: write_sorted_def bind_act_Inr of_result_def ret_def Let_def simp del: perform_all.simps)
  have "so_disk s' = fs_run [FsWrite ?tmp f, FsSync ?tmp, FsRename ?tmp p] (so_disk s)"
    unfolding s' by (rule perform_all_run [OF w])
  then have "so_disk s' = fmupd p f (fmdrop ?tmp (fmupd ?tmp f (so_disk s)))" by (simp add: fs_run_def)
  moreover have "?tmp \<noteq> p'" if "seg_named p'" for p' using that by (metis seg_named_simps(4))
  ultimately show ?thesis using f assms(2) by auto
qed

lemma store_manifest_disk:
  assumes "store_manifest E s = (r, s')" and "seg_named p"
  shows "fmlookup (so_disk s') p = fmlookup (so_disk s) p"
proof -
  let ?d = "gc_hot_dir (so_config s)"
  have other: "p \<noteq> manifest_path ?d" "p \<noteq> manifest_tmp ?d" using assms(2) seg_named_simps(2,3) by blast+
  show ?thesis
  proof (cases "manifest_bytes (en_ext E) (so_manifest s)")
    case (Inl e)
    with assms(1) show ?thesis by (auto simp: store_manifest_def manifest_store_def bind_act_def of_result_def)
  next
    case (Inr b)
    let ?ops = "[FsWrite (manifest_tmp ?d) b, FsSync (manifest_tmp ?d), FsRename (manifest_tmp ?d) (manifest_path ?d)]"
    have "store_manifest E s = perform_all E ?ops s"
      using Inr by (simp add: store_manifest_def manifest_store_def bind_act_def of_result_def)
    moreover have "fmlookup (so_disk (snd (perform_all E ?ops s))) p = fmlookup (so_disk s) p"
      by (rule perform_all_other) (use other in simp)
    ultimately show ?thesis using assms(1) by (metis snd_conv)
  qed
qed

section \<open>The invariant\<close>

text \<open>
  A record the engine can keep: every string and the timestamp in range, and the reserved label only
  on increments.
\<close>

definition stored_ok :: "Record \<Rightarrow> bool" where
  "stored_ok r \<longleftrightarrow> record_ok r \<and> (DELTA_LABEL |\<in>| fmdom (rec_labels r) \<longrightarrow> is_delta r)"

definition table_ok :: "unicode \<Rightarrow> MemTable \<Rightarrow> bool" where
  "table_ok U t \<longleftrightarrow> mt_inv U t \<and> (\<forall>r \<in> set (mt_values t). stored_ok r)"

definition segment_at :: "('x, 'o) env \<Rightarrow> 'o Store \<Rightarrow> SegmentMeta \<Rightarrow> Record list \<Rightarrow> bool" where
  "segment_at E s m rs \<longleftrightarrow>
     sm_tier m \<noteq> Remote \<and> rs \<noteq> [] \<and> seg_records rs \<and> (\<forall>r \<in> set rs. stored_ok r) \<and> sm_zone m = zone_build rs \<and>
     (\<exists>f. fmlookup (so_disk s) (seg_path s m) = Some f \<and> encode_v2 (en_unicode E) (en_ext E) rs = Inr f \<and> length f < 2 ^ 32)"

definition env_ok :: "('x, 'o) env \<Rightarrow> bool" where
  "env_ok E \<longleftrightarrow> unicode_ok (en_unicode E) \<and> unicode_str (en_unicode E) \<and> codec_rmp_ok (en_ext E)"

definition store_ok :: "('x, 'o) env \<Rightarrow> 'o Store \<Rightarrow> bool" where
  "store_ok E s \<longleftrightarrow>
     manifest_ok (so_manifest s) \<and> (\<forall>t \<in> set (mem_tables (so_engine s)). table_ok (en_unicode E) t) \<and>
     (\<forall>(q, t) \<in> set (ei_frozen (so_engine s)). mt_records t \<noteq> fmempty) \<and>
     (\<forall>m \<in> set (mf_segments (so_manifest s)). \<exists>rs. segment_at E s m rs)"

text \<open>Reading a state when no file operation fails.\<close>

definition calm :: "('x, 'o) env \<Rightarrow> ('x, 'o) env" where
  "calm E = E\<lparr> en_io := (\<lambda>_. None) \<rparr>"

definition store_get :: "('x, 'o) env \<Rightarrow> 'o Store \<Rightarrow> rstr \<Rightarrow> Record option result" where
  "store_get E s = engine_get (en_unicode E) (en_ext E) (\<lambda>_. (opener_of (calm E) s, so_engine s))"

definition store_scan :: "('x, 'o) env \<Rightarrow> 'o Store \<Rightarrow> QuerySpec \<Rightarrow> Record list result" where
  "store_scan E s = scan (en_unicode E) (en_ext E) (\<lambda>_. (opener_of (calm E) s, so_engine s))"

abbreviation store_sources :: "('x, 'o) env \<Rightarrow> 'o Store \<Rightarrow> source list" where
  "store_sources E s \<equiv> sources (so_engine s) (seg_content E s)"

lemma segment_at_content:
  assumes "env_ok E" and "segment_at E s m rs"
  shows "seg_content E s m = rs"
proof -
  obtain f where f: "fmlookup (so_disk s) (seg_path s m) = Some f" "encode_v2 (en_unicode E) (en_ext E) rs = Inr f" "length f < 2 ^ 32"
    and rs: "seg_records rs" using assms(2) by (auto simp: segment_at_def)
  obtain blocks dir where "v2_file (en_unicode E) (en_ext E) rs blocks dir f" using encode_v2_file [OF f(2)] by blast
  with assms(1) rs f(3) have "read_all_records (en_ext E) f = Inr rs" by (intro read_all_v2) (simp_all add: env_ok_def)
  with f(1) show ?thesis by (simp add: seg_content_def)
qed

lemma segment_at_holds:
  assumes E: "env_ok E" and m: "segment_at E s m rs"
  shows "segment_holds (en_unicode E) (en_ext E) (opener_of (calm E) s) m rs"
proof -
  obtain f where f: "fmlookup (so_disk s) (seg_path s m) = Some f" "encode_v2 (en_unicode E) (en_ext E) rs = Inr f" "length f < 2 ^ 32"
    and rs: "seg_records rs" "rs \<noteq> []" "sm_zone m = zone_build rs" "sm_tier m \<noteq> Remote" using m by (auto simp: segment_at_def)
  have "opener_of (calm E) s m = Inr f"
    using f(1) rs(4) by (simp add: opener_of_def open_segment_file_def read_path_def calm_def fs_read_def seg_path_def Let_def)
  with E f rs show ?thesis by (intro v2_segment_holds) (simp_all add: env_ok_def)
qed

lemma store_engine_ok:
  assumes E: "env_ok E" and s: "store_ok E s"
  shows "engine_ok (en_unicode E) (en_ext E) (opener_of (calm E) s) (so_engine s) (seg_content E s)"
    and "delta_labels_ok (store_sources E s)"
proof -
  have at: "segment_at E s m (seg_content E s m)" if "m \<in> set (mf_segments (so_manifest s))" for m
    using s that segment_at_content [OF E] by (fastforce simp: store_ok_def)
  show "engine_ok (en_unicode E) (en_ext E) (opener_of (calm E) s) (so_engine s) (seg_content E s)"
    using E s segment_at_holds [OF E at] by (simp add: engine_ok_def env_ok_def store_ok_def manifest_ok_def table_ok_def)
  have seg: "DELTA_LABEL |\<in>| fmdom (rec_labels r) \<longrightarrow> is_delta r"
    if "m \<in> set (mf_segments (so_manifest s))" "r \<in> set (bt_values (seg_map (seg_content E s m)))" for m r
  proof -
    have "sorted_wrt (<) (map rec_key (seg_content E s m))" using at [OF that(1)] by (simp add: segment_at_def seg_records_def)
    with that(2) have "r \<in> set (seg_content E s m)" by (simp add: bt_values_seg_map)
    with at [OF that(1)] show ?thesis by (simp add: segment_at_def stored_ok_def)
  qed
  have "DELTA_LABEL |\<in>| fmdom (rec_labels r) \<longrightarrow> is_delta r"
    if "t \<in> set (mem_tables (so_engine s))" "r \<in> set (bt_values (mt_records t))" for t r
    using s that by (auto simp: store_ok_def table_ok_def stored_ok_def mt_values_def)
  with seg show "delta_labels_ok (store_sources E s)"
    by (fastforce simp: delta_labels_ok_def sources_def newest_first_def)
qed

lemma retry_const: "retry_vanished (\<lambda>_. Inr x) = Inr x"
  by (rule retry_vanished_eq [of 0]) simp_all

lemma store_get_visible:
  assumes "env_ok E" and "store_ok E s"
  shows "store_get E s k =
           Inr (case fmlookup (visible (store_sources E s)) k of
                  None \<Rightarrow> None | Some r \<Rightarrow> if is_tombstone r then None else Some r)"
  using get_once_eq [OF store_engine_ok(1) [OF assms], of k]
  by (simp add: store_get_def engine_get_def retry_const)

lemma store_scan_visible:
  assumes "env_ok E" and "store_ok E s"
  shows "store_scan E s spec =
     (if qs_after spec \<noteq> None \<and> numeric_order (qs_order_by spec)
      then Inl (Config (lit ''QuerySpec.after requires a timestamp order''))
      else Inr (reference_scan (en_unicode E) spec (visible (store_sources E s))))"
  using scan_once_eq [OF store_engine_ok [OF assms], of spec]
  by (auto simp: store_scan_def scan_def retry_const)

text \<open>Two states with the same visible records give the same reads.\<close>

lemma same_visible_reads:
  assumes "env_ok E" and "store_ok E s" and "store_ok E s'"
  shows "fmlookup (visible (store_sources E s')) k = fmlookup (visible (store_sources E s)) k \<Longrightarrow> store_get E s' k = store_get E s k"
    and "visible (store_sources E s') = visible (store_sources E s) \<Longrightarrow> store_scan E s' spec = store_scan E s spec"
  by (simp_all add: store_get_visible store_scan_visible assms)

lemma segment_at_frame:
  assumes "so_config s' = so_config s" and "fmlookup (so_disk s') (seg_path s m) = fmlookup (so_disk s) (seg_path s m)"
  shows "segment_at E s' m rs \<longleftrightarrow> segment_at E s m rs" and "seg_content E s' m = seg_content E s m"
  using assms by (simp_all add: segment_at_def seg_content_def seg_path_def)

lemma sources_cong:
  assumes "\<And>m. m \<in> set (mf_segments (ei_manifest e)) \<Longrightarrow> f m = g m"
  shows "sources e f = sources e g"
  using assms by (auto simp: sources_def newest_first_def)

lemma visible_cong:
  assumes "\<And>k. folded (versions a k) = folded (versions b k)"
  shows "visible a = visible b"
  by (rule fmap_ext) (simp add: visible_lookup assms)

lemma manifest_paths:
  assumes "manifest_ok (so_manifest s)" and "m \<in> set (mf_segments (so_manifest s))" and "sm_tier m \<noteq> Remote"
  shows "\<exists>d q. seg_path s m = d @ [seg_file q] \<and> q < mf_next_segment_id (so_manifest s) \<and> sm_file m = seg_file q"
  using assms by (cases "sm_tier m") (auto simp: manifest_ok_def seg_path_def segment_path_def)

section \<open>Freeze and flush\<close>

lemma freeze_frame:
  assumes "writer_freeze E s = (Inr x, s')"
  shows "so_disk s' = so_disk s" "so_manifest s' = so_manifest s" "so_config s' = so_config s"
    "set (mem_tables (so_engine s')) \<subseteq> insert mt_default (set (mem_tables (so_engine s)))"
    "\<forall>(q, t) \<in> set (ei_frozen (so_engine s')). (q, t) \<in> set (ei_frozen (so_engine s)) \<or> \<not> mt_is_empty t"
    "mt_is_empty (ei_memtable (so_engine s'))"
proof -
  have "so_disk s' = so_disk s \<and> so_manifest s' = so_manifest s \<and> so_config s' = so_config s \<and>
    set (mem_tables (so_engine s')) \<subseteq> insert mt_default (set (mem_tables (so_engine s))) \<and>
    (\<forall>(q, t) \<in> set (ei_frozen (so_engine s')). (q, t) \<in> set (ei_frozen (so_engine s)) \<or> \<not> mt_is_empty t) \<and>
    mt_is_empty (ei_memtable (so_engine s'))"
  proof (cases "mt_is_empty (ei_memtable (so_engine s))")
    case True
    with assms show ?thesis by (auto simp: writer_freeze_def Let_def)
  next
    case False
    with assms show ?thesis
      by (auto simp: writer_freeze_def Let_def bind_act_Inr open_log_def mem_tables_def mt_is_empty_def mt_default_def
          split: prod.splits sum.splits)
  qed
  then show "so_disk s' = so_disk s" "so_manifest s' = so_manifest s" "so_config s' = so_config s"
    "set (mem_tables (so_engine s')) \<subseteq> insert mt_default (set (mem_tables (so_engine s)))"
    "\<forall>(q, t) \<in> set (ei_frozen (so_engine s')). (q, t) \<in> set (ei_frozen (so_engine s)) \<or> \<not> mt_is_empty t"
    "mt_is_empty (ei_memtable (so_engine s'))" by blast+
qed

lemma mt_values_empty: "mt_values t = [] \<longleftrightarrow> mt_records t = fmempty"
proof -
  have "bt_keys m = [] \<longleftrightarrow> m = fmempty" for m :: source
    by (metis bot_fset.rep_eq empty_set fmap_ext fmdom_empty fmdom_notD fset_inject fempty_iff set_bt_keys set_empty)
  then show ?thesis by (simp add: mt_values_def bt_values_keys)
qed

lemma mt_values_default [simp]: "mt_values mt_default = []"
  by (simp add: mt_values_empty mt_default_def)

lemma freeze_ok:
  assumes fr: "writer_freeze E s = (Inr x, s')" and s: "store_ok E s"
  shows "store_ok E s'" and "visible (store_sources E s') = visible (store_sources E s)"
proof -
  note F = freeze_frame [OF fr]
  have same: "segment_at E s' m rs \<longleftrightarrow> segment_at E s m rs" "seg_content E s' m = seg_content E s m" for m rs
    using F segment_at_frame [of s' s] by simp_all
  have "table_ok U mt_default" for U by (simp add: table_ok_def)
  with F(4) s have t: "\<forall>t \<in> set (mem_tables (so_engine s')). table_ok (en_unicode E) t" by (auto simp: store_ok_def)
  have "\<forall>(q, t) \<in> set (ei_frozen (so_engine s')). mt_records t \<noteq> fmempty"
    using F(5) s by (fastforce simp: store_ok_def mt_is_empty_def)
  with t s show "store_ok E s'" by (simp add: store_ok_def F(2) same)
  have "store_sources E s' = sources (so_engine s') (seg_content E s)" by (rule sources_cong) (rule same)
  then show "visible (store_sources E s') = visible (store_sources E s)"
    by (intro visible_cong) (simp add: freeze_versions [OF fr])
qed

lemma flush_one_disk:
  assumes "flush_one E (wal_seq, t) s = (Inr u, s')"
  shows "\<exists>f. encode_v2 (en_unicode E) (en_ext E) (mt_values t) = Inr f \<and> so_engine s' = flushed_engine E s t (length f) \<and>
           fmlookup (so_disk s') (gc_hot_dir (so_config s) @ [seg_file (mf_next_segment_id (so_manifest s))]) = Some f \<and>
           (\<forall>p. seg_named p \<longrightarrow> last p \<noteq> seg_file (mf_next_segment_id (so_manifest s)) \<longrightarrow>
              fmlookup (so_disk s') p = fmlookup (so_disk s) p)"
proof -
  let ?seq = "mf_next_segment_id (so_manifest s)"
  let ?p = "gc_hot_dir (so_config s) @ [seg_file ?seq]"
  let ?s1 = "set_manifest (\<lambda>m. m\<lparr> mf_next_segment_id := mf_next_segment_id m + 1 \<rparr>) s"
  from assms obtain zone s2 s3 s4 where
    w: "write_sorted E ?p (mt_values t) ?s1 = (Inr zone, s2)"
    and st: "store_manifest E (set_manifest (\<lambda>m. m\<lparr> mf_segments := mf_segments m @
          [\<lparr> sm_id = ?seq, sm_file = seg_file ?seq, sm_tier = Hot, sm_zone = zone, sm_bytes = file_len ?p s2,
             sm_created = en_now E \<rparr>] \<rparr>) s2) = (Inr (), s3)"
    and rm: "remove_log E wal_seq s3 = (Inr (), s4)"
    and s': "s' = s4\<lparr> so_engine := (so_engine s4)\<lparr> ei_frozen := tl (ei_frozen (so_engine s4)) \<rparr> \<rparr>"
    by (auto simp: flush_one_def bind_act_Inr alloc_seq_def get_state_def put_state_def Let_def)
  note z = write_sorted_zone [OF w] and c2 = same_core_sel [OF write_sorted_core [OF w]]
    and c3 = same_core_sel [OF store_manifest_core [OF st]]
  have s4: "so_engine s4 = so_engine s3" "so_disk s4 = so_disk s3"
    using rm by (auto simp: remove_log_def Let_def split: option.splits)
  obtain f where f: "encode_v2 (en_unicode E) (en_ext E) (mt_values t) = Inr f" "fmlookup (so_disk s2) ?p = Some f"
    and other: "\<forall>p. seg_named p \<longrightarrow> p \<noteq> ?p \<longrightarrow> fmlookup (so_disk s2) p = fmlookup (so_disk s) p"
    using write_sorted_disk [OF w] by (auto simp: set_manifest_def)
  have d: "fmlookup (so_disk s') p = fmlookup (so_disk s2) p" if "seg_named p" for p
    using store_manifest_disk [OF st that] by (simp add: s' s4 set_manifest_def)
  have "so_engine s' = flushed_engine E s t (length f)"
    using f(2) by (simp add: s' s4 c2 c3 z set_manifest_def flushed_engine_def flushed_meta_def file_len_def)
  moreover have "fmlookup (so_disk s') p = fmlookup (so_disk s) p" if "seg_named p" "last p \<noteq> seg_file ?seq" for p
    using d [OF that(1)] other that by auto
  ultimately show ?thesis using f d by simp
qed

lemma flush_ok:
  assumes E: "env_ok E" and fl: "flush_one E (q, t) s = (Inr u, s')" and fz: "ei_frozen (so_engine s) = (q, t) # rest"
    and s: "store_ok E s" and bytes: "\<forall>m \<in> set (mf_segments (so_manifest s')). sm_bytes m < 2 ^ 32"
  shows "store_ok E s'" and "store_sources E s' = store_sources E s"
proof -
  let ?n = "mf_next_segment_id (so_manifest s)" and ?L = "mf_segments (so_manifest s)"
  from flush_one_disk [OF fl] obtain f where f: "encode_v2 (en_unicode E) (en_ext E) (mt_values t) = Inr f"
    and e: "so_engine s' = flushed_engine E s t (length f)"
    and new: "fmlookup (so_disk s') (gc_hot_dir (so_config s) @ [seg_file ?n]) = Some f"
    and old: "\<forall>p. seg_named p \<longrightarrow> last p \<noteq> seg_file ?n \<longrightarrow> fmlookup (so_disk s') p = fmlookup (so_disk s) p" by blast
  let ?m = "flushed_meta E s t (length f)"
  have man: "manifest_ok (so_manifest s)" using s by (simp add: store_ok_def)
  have t: "table_ok (en_unicode E) t" "mt_records t \<noteq> fmempty" using s fz by (auto simp: store_ok_def mem_tables_def)
  then have inv: "mt_inv (en_unicode E) t" by (simp add: table_ok_def)
  have L': "mf_segments (so_manifest s') = ?L @ [?m]" and cfg: "so_config s' = so_config s"
    by (simp_all add: e flushed_engine_def)
  have len: "length f < 2 ^ 32" using bytes by (simp add: L' flushed_meta_def)
  have "seg_records (mt_values t)"
    using t(1) encode_v2_rows [OF f] len by (simp add: seg_records_def mt_values_keys [OF inv] table_ok_def stored_ok_def)
  then have at: "segment_at E s' ?m (mt_values t)"
    using t f new len by (simp add: segment_at_def table_ok_def mt_values_empty flushed_meta_def seg_path_def segment_path_def cfg)
  have frame: "segment_at E s' m rs \<longleftrightarrow> segment_at E s m rs" "seg_content E s' m = seg_content E s m" if m: "m \<in> set ?L" for m rs
  proof -
    have "sm_tier m \<noteq> Remote" using s m by (auto simp: store_ok_def segment_at_def)
    from manifest_paths [OF man m this] old have "fmlookup (so_disk s') (seg_path s m) = fmlookup (so_disk s) (seg_path s m)" by auto
    note F = segment_at_frame [OF cfg this]
    show "segment_at E s' m rs \<longleftrightarrow> segment_at E s m rs" by (rule F(1))
    show "seg_content E s' m = seg_content E s m" by (rule F(2))
  qed
  have "manifest_ok (so_manifest s')"
    using man by (auto simp: manifest_ok_def e flushed_engine_def flushed_meta_def image_iff less_Suc_eq)
  moreover have "\<forall>m \<in> set (mf_segments (so_manifest s')). \<exists>rs. segment_at E s' m rs"
  proof -
    have "\<exists>rs. segment_at E s' m rs" if "m \<in> set ?L" for m
      using s that unfolding store_ok_def frame(1) [OF that] by blast
    with at show ?thesis unfolding L' by auto
  qed
  moreover have "set (mem_tables (so_engine s')) \<subseteq> set (mem_tables (so_engine s))"
    "set (ei_frozen (so_engine s')) \<subseteq> set (ei_frozen (so_engine s))"
    by (auto simp: e flushed_engine_def mem_tables_def fz)
  ultimately show "store_ok E s'" using s by (fastforce simp: store_ok_def)
  from flush_sources [OF fl fz man inv] L' have
    src: "sources (so_engine s') ((seg_content E s)(?m := mt_values t)) = store_sources E s" by auto
  have "store_sources E s' = sources (so_engine s') ((seg_content E s)(?m := mt_values t))"
    by (rule sources_cong) (auto simp: L' frame(2) segment_at_content [OF E at])
  with src show "store_sources E s' = store_sources E s" by simp
qed

lemma flush_each_segments:
  "flush_each E fzs n s = (Inr k, s') \<Longrightarrow> set (mf_segments (so_manifest s)) \<subseteq> set (mf_segments (so_manifest s'))"
proof (induction fzs arbitrary: n s)
  case (Cons fz fzs)
  obtain q t where fz: "fz = (q, t)" by fastforce
  from Cons.prems obtain u s1 where "flush_one E (q, t) s = (Inr u, s1)" and r: "flush_each E fzs (n + 1) s1 = (Inr k, s')"
    by (auto simp: bind_act_Inr fz)
  then show ?case using Cons.IH [OF r] flush_one_result [of E q t s u s1] by (auto simp: flushed_engine_def)
qed (simp add: ret_def)

lemma flush_each_ok:
  assumes E: "env_ok E"
  shows "flush_each E fzs n s = (Inr k, s') \<Longrightarrow> ei_frozen (so_engine s) = fzs \<Longrightarrow> store_ok E s \<Longrightarrow>
     \<forall>m \<in> set (mf_segments (so_manifest s')). sm_bytes m < 2 ^ 32 \<Longrightarrow>
     store_ok E s' \<and> store_sources E s' = store_sources E s \<and> ei_frozen (so_engine s') = [] \<and>
     ei_memtable (so_engine s') = ei_memtable (so_engine s)"
proof (induction fzs arbitrary: n s)
  case (Cons fz fzs)
  obtain q t where fz: "fz = (q, t)" by fastforce
  from Cons.prems(1) obtain u s1 where fl: "flush_one E (q, t) s = (Inr u, s1)" and r: "flush_each E fzs (n + 1) s1 = (Inr k, s')"
    by (auto simp: bind_act_Inr fz)
  have e1: "ei_frozen (so_engine s1) = fzs" "ei_memtable (so_engine s1) = ei_memtable (so_engine s)"
    using flush_one_result [OF fl] Cons.prems(2) by (auto simp: flushed_engine_def)
  have "\<forall>m \<in> set (mf_segments (so_manifest s1)). sm_bytes m < 2 ^ 32"
    using flush_each_segments [OF r] Cons.prems(4) by blast
  note one = flush_ok [OF E fl _ Cons.prems(3) this, of fzs]
  from Cons.IH [OF r e1(1) _ Cons.prems(4)] one Cons.prems(2) e1 show ?case by (simp add: fz)
qed (simp add: ret_def)

end
