(* ===== verification/Store_Compact.thy ===== *)
theory Store_Compact
  imports Store_Disk
begin

text \<open>
  Compaction over the files: what a run is rewritten to is on disk before the manifest names it, the
  inputs go after, and every key reads as before.
\<close>

section \<open>What the merge writes can be stored\<close>

lemma stored_ok_merge_delta:
  assumes "stored_ok d" and "\<forall>b. base = Some b \<longrightarrow> stored_ok b"
  shows "stored_ok (merge_delta base d)"
proof (cases base)
  case (Some b)
  then have b: "stored_ok b" using assms(2) by simp
  have num: "str_ok k" if "fmlookup (add_numerics (rec_numerics b) (rec_numerics d)) k = Some v" for k v
    using that b assms(1) by (auto simp: add_numerics_lookup stored_ok_def record_ok_def split: option.splits)
  have ts: "i64_ok (max (rec_timestamp b) (rec_timestamp d))"
    using b assms(1) by (simp add: stored_ok_def record_ok_def max_def)
  show ?thesis
    using b assms(1) num ts
    by (auto simp: Some merge_delta_def Let_def stored_ok_def record_ok_def clear_delta_def is_delta_def)
qed (use assms in \<open>simp add: merge_delta_def\<close>)

lemma stored_ok_merge:
  assumes "\<forall>r \<in> set rs. stored_ok r" and "r \<in> set (bt_values (merge_records rs))"
  shows "stored_ok r"
proof -
  have "\<forall>k v. fmlookup (fold merge_record rs m) k = Some v \<longrightarrow> stored_ok v"
    if "\<forall>k v. fmlookup m k = Some v \<longrightarrow> stored_ok v" for m
    using assms(1) that
  proof (induction rs arbitrary: m)
    case (Cons x xs)
    have "\<forall>k v. fmlookup (merge_record x m) k = Some v \<longrightarrow> stored_ok v"
      using Cons.prems by (simp add: merge_record_def stored_ok_merge_delta)
    with Cons show ?case by simp
  qed simp
  from this [of fmempty] assms(2) show ?thesis
    unfolding merge_records_def by (auto simp: bt_values_keys fmlookup_dom_iff)
qed

lemma keyed_values_keys: "keyed m \<Longrightarrow> map rec_key (bt_values m) = bt_keys m"
  unfolding bt_values_keys map_map comp_def by (rule map_idI) (auto simp: keyed_def fmlookup_dom_iff)

lemma compact_chunks:
  assumes "c \<in> set (compact_records cfg now purge inputs)"
  shows "c \<noteq> []" "sorted_wrt (<) (map rec_key c)" "set c \<subseteq> set (bt_values (merge_records (concat inputs)))"
    "\<forall>r \<in> set c. purge \<noteq> Some (rec_key r)"
proof -
  let ?M = "merge_records (concat inputs)"
  let ?K = "if policy_is_empty (retention_policy cfg) then ?M else retain_policy (retention_policy cfg) now ?M"
  let ?P = "case purge of None \<Rightarrow> ?K | Some key \<Rightarrow> fmdrop key ?K"
  let ?C = "split_chunks (bt_values ?P) (gc_max_segment_records cfg) (gc_max_segment_bytes cfg)"
  have c: "c \<in> set ?C" using assms by (simp add: compact_records_def Let_def)
  then show "c \<noteq> []" using split_chunks_nonempty by metis
  have sub: "fmlookup ?P k = Some v \<Longrightarrow> fmlookup ?M k = Some v \<and> purge \<noteq> Some k" for k v
    by (auto simp: retain_policy_def split: option.splits if_splits)
  then have P: "keyed ?P" using merge_records_keyed [of "concat inputs"] unfolding keyed_def by metis
  then have "sorted_wrt (<) (map rec_key (concat ?C))" by (simp add: split_chunks_concat keyed_values_keys)
  then show "sorted_wrt (<) (map rec_key c)" using sorted_chunks c by (fastforce simp: sorted_wrt_map)
  have "set c \<subseteq> set (concat ?C)" using c by (simp only: set_concat) blast
  then have c: "set c \<subseteq> set (bt_values ?P)" by (simp only: split_chunks_concat)
  have "fmlookup ?M (rec_key r) = Some r \<and> purge \<noteq> Some (rec_key r)" if "r \<in> set c" for r
    using c that keyed_values [OF P, of r] sub by blast
  then show "set c \<subseteq> set (bt_values ?M)" "\<forall>r \<in> set c. purge \<noteq> Some (rec_key r)"
    using keyed_values [OF merge_records_keyed] by blast+
qed

section \<open>The files of a compaction\<close>

definition chunk_written :: "('x, 'o) env \<Rightarrow> 'o Store \<Rightarrow> SegmentMeta \<Rightarrow> Record list \<Rightarrow> bool" where
  "chunk_written E s m c \<longleftrightarrow>
     sm_tier m = Hot \<and> sm_zone m = zone_build c \<and>
     (\<exists>f. encode_v2 (en_unicode E) (en_ext E) c = Inr f \<and> fmlookup (so_disk s) (seg_path s m) = Some f \<and> sm_bytes m = length f)"

lemma chunk_written_frame:
  assumes "so_config s' = so_config s" and "fmlookup (so_disk s') (seg_path s m) = fmlookup (so_disk s) (seg_path s m)"
  shows "chunk_written E s' m c \<longleftrightarrow> chunk_written E s m c"
  using assms by (simp add: chunk_written_def seg_path_def)

lemma write_chunks_disk:
  "write_chunks E created reuse i cs s = (Inr outs, s') \<Longrightarrow> i + length cs \<le> length reuse \<Longrightarrow>
   n = mf_next_segment_id (so_manifest s) \<Longrightarrow>
     map sm_id outs = take (length cs) (drop i reuse) \<and> map sm_file outs = map seg_file [n..<n + length cs] \<and>
     list_all2 (chunk_written E s') outs cs \<and>
     so_engine s' = so_engine (set_manifest (\<lambda>m. m\<lparr> mf_next_segment_id := n + length cs \<rparr>) s) \<and>
     (\<forall>p. seg_named p \<longrightarrow> last p \<notin> seg_file ` {n..} \<longrightarrow> fmlookup (so_disk s') p = fmlookup (so_disk s) p)"
proof (induction cs arbitrary: i s outs n)
  case (Cons c cs)
  let ?p = "gc_hot_dir (so_config s) @ [seg_file n]"
  let ?s1 = "set_manifest (\<lambda>m. m\<lparr> mf_next_segment_id := mf_next_segment_id m + 1 \<rparr>) s"
  have i: "i < length reuse" using Cons.prems(2) by simp
  with Cons.prems obtain zone s2 rest where
    w: "write_sorted E ?p c ?s1 = (Inr zone, s2)"
    and r: "write_chunks E created reuse (i + 1) cs s2 = (Inr rest, s')"
    and o: "outs = \<lparr> sm_id = reuse ! i, sm_file = seg_file n, sm_tier = Hot, sm_zone = zone, sm_bytes = file_len ?p s2,
                     sm_created = created \<rparr> # rest"
    by (auto simp: bind_act_Inr chunk_id_def ret_def alloc_seq_def get_state_def Let_def)
  have e2: "so_engine s2 = so_engine ?s1" by (rule same_core_sel [OF write_sorted_core [OF w]])
  have n2: "n + 1 = mf_next_segment_id (so_manifest s2)" using e2 Cons.prems(3) by (simp add: set_manifest_def)
  have z: "zone = zone_build c" by (rule write_sorted_zone [OF w])
  obtain f where f: "encode_v2 (en_unicode E) (en_ext E) c = Inr f" "fmlookup (so_disk s2) ?p = Some f"
    and old: "\<forall>p. seg_named p \<longrightarrow> p \<noteq> ?p \<longrightarrow> fmlookup (so_disk s2) p = fmlookup (so_disk s) p"
    using write_sorted_disk [OF w] by (auto simp: set_manifest_def)
  from Cons.IH [OF r _ n2] Cons.prems(2)
  have ids: "map sm_id rest = take (length cs) (drop (i + 1) reuse)" and fs: "map sm_file rest = map seg_file [n + 1..<n + 1 + length cs]"
    and ws: "list_all2 (chunk_written E s') rest cs"
    and e: "so_engine s' = so_engine (set_manifest (\<lambda>m. m\<lparr> mf_next_segment_id := n + 1 + length cs \<rparr>) s2)"
    and later: "\<forall>p. seg_named p \<longrightarrow> last p \<notin> seg_file ` {n + 1..} \<longrightarrow> fmlookup (so_disk s') p = fmlookup (so_disk s2) p" by simp_all
  have "take (length (c # cs)) (drop i reuse) = reuse ! i # take (length cs) (drop (i + 1) reuse)"
    using i by (simp add: Cons_nth_drop_Suc [symmetric])
  moreover have "[n..<n + length (c # cs)] = n # [n + 1..<n + 1 + length cs]" by (simp add: upt_rec)
  moreover have "fmlookup (so_disk s') ?p = Some f" using later [rule_format, of ?p] f(2) by (auto simp: image_iff)
  then have "chunk_written E s' (hd outs) c"
    using f z e e2 by (simp add: o chunk_written_def seg_path_def segment_path_def file_len_def set_manifest_def)
  moreover have "fmlookup (so_disk s') p = fmlookup (so_disk s) p" if p: "seg_named p" "last p \<notin> seg_file ` {n..}" for p
  proof -
    have "p \<noteq> ?p" "last p \<notin> seg_file ` {n + 1..}" using p(2) by auto
    with later old p(1) show ?thesis by simp
  qed
  moreover have "so_engine s' = so_engine (set_manifest (\<lambda>m. m\<lparr> mf_next_segment_id := n + length (c # cs) \<rparr>) s)"
    using e e2 by (simp add: set_manifest_def)
  ultimately show ?case using ids fs ws by (simp add: o)
qed (simp add: ret_def set_manifest_def)

lemma drop_inputs_disk:
  "drop_inputs E ms s = (r, s') \<Longrightarrow> \<forall>m \<in> set ms. sm_tier m \<noteq> Remote \<Longrightarrow> p \<notin> seg_path s ` set ms \<Longrightarrow>
     fmlookup (so_disk s') p = fmlookup (so_disk s) p"
proof (induction ms arbitrary: s)
  case (Cons m ms)
  let ?s1 = "snd (drop_segment_file E m s)"
  have "drop_segment_file E m s = ignore_err (perform E (FsRemove (seg_path s m))) s"
    using Cons.prems(2) by (cases "sm_tier m") (simp_all add: drop_segment_file_def Let_def seg_path_def)
  then have d: "fmlookup (so_disk ?s1) p = fmlookup (so_disk s) p"
    using Cons.prems(3) perform_other [of p "FsRemove (seg_path s m)" E s] by (simp add: ignore_err_def)
  have e: "so_engine ?s1 = so_engine s" by (rule drop_segment_engine)
  have r: "drop_inputs E ms (invalidate_cache m ?s1) = (r, s')"
    using Cons.prems(1) by (simp add: bind_act_def ignore_err_def put_state_def)
  have "seg_path (invalidate_cache m ?s1) = seg_path s" by (rule ext) (simp add: seg_path_def invalidate_cache_def e)
  with Cons.IH [OF r] Cons.prems(2,3) d show ?case by (simp add: invalidate_cache_def)
qed (simp add: ret_def)

lemma compact_run_disk:
  assumes cr: "compact_run E run purge s = (Inr k, s')"
    and local: "\<forall>m \<in> set run. sm_tier m \<noteq> Remote \<and> (\<exists>q < mf_next_segment_id (so_manifest s). sm_file m = seg_file q)"
    and cs: "cs = compact_records (so_config s) (en_now E) purge (map (seg_content E s) (sort_key sm_id run))" and fits: "length cs \<le> length run"
    and n: "n = mf_next_segment_id (so_manifest s)"
  shows "\<exists>outs. so_engine s' = (so_engine s)\<lparr> ei_manifest :=
             swap_run (map sm_id run) outs ((so_manifest s)\<lparr> mf_next_segment_id := n + length cs \<rparr>) \<rparr> \<and>
           map sm_id outs = drop (length run - length cs) (sort (map sm_id run)) \<and> map sm_file outs = map seg_file [n..<n + length cs] \<and>
           list_all2 (chunk_written E s') outs cs \<and>
           (\<forall>p. seg_named p \<longrightarrow> last p \<notin> seg_file ` {n..} \<longrightarrow> p \<notin> seg_path s ` set run \<longrightarrow> fmlookup (so_disk s') p = fmlookup (so_disk s) p)"
proof -
  let ?ids = "map sm_id run"
  from cr obtain inputs s1 outs s2 s3 s4 c where
    ri: "read_inputs E (sort_key sm_id run) s = (Inr inputs, s1)"
    and wc: "write_chunks E c (sort ?ids) (length (sort ?ids) - length (compact_records (so_config s1) (en_now E) purge inputs))
        (compact_records (so_config s1) (en_now E) purge inputs) s1 = (Inr outs, s2)"
    and st: "store_manifest E (set_manifest (swap_run ?ids outs) s2) = (Inr (), s3)"
    and dr: "drop_inputs E run s3 = (Inr (), s4)" and s': "s' = s4"
    unfolding compact_run_def by (auto simp: bind_act_Inr Let_def get_state_def put_state_def ret_def simp del: set_map)
  from read_inputs_result [OF ri] have inputs: "inputs = map (seg_content E s) (sort_key sm_id run)" and s1: "s1 = s\<lparr> so_io := so_io s1 \<rparr>"
    by simp_all
  have e1: "so_engine s1 = so_engine s" "so_disk s1 = so_disk s" by (subst s1, simp)+
  have wc: "write_chunks E c (sort ?ids) (length run - length cs) cs s1 = (Inr outs, s2)"
    using wc by (simp add: inputs e1 cs)
  have o: "map sm_id outs = drop (length run - length cs) (sort ?ids)" "map sm_file outs = map seg_file [n..<n + length cs]"
    and w: "list_all2 (chunk_written E s2) outs cs"
    and e2: "so_engine s2 = (so_engine s)\<lparr> ei_manifest := (so_manifest s)\<lparr> mf_next_segment_id := n + length cs \<rparr> \<rparr>"
    and d2: "\<forall>p. seg_named p \<longrightarrow> last p \<notin> seg_file ` {n..} \<longrightarrow> fmlookup (so_disk s2) p = fmlookup (so_disk s) p"
    using write_chunks_disk [OF wc, of n] fits by (simp_all add: e1 n set_manifest_def)
  have e3: "so_engine s3 = so_engine (set_manifest (swap_run ?ids outs) s2)" by (rule same_core_sel [OF store_manifest_core [OF st]])
  have e: "so_engine s' = (so_engine s)\<lparr> ei_manifest := swap_run ?ids outs ((so_manifest s)\<lparr> mf_next_segment_id := n + length cs \<rparr>) \<rparr>"
    unfolding s' drop_inputs_engine [OF dr] e3 by (simp add: set_manifest_def e2)
  have path: "seg_path s3 = seg_path s" "seg_path s2 = seg_path s" by (auto simp: fun_eq_iff seg_path_def e3 e2 set_manifest_def)
  have d: "fmlookup (so_disk s') p = fmlookup (so_disk s2) p" if "seg_named p" "p \<notin> seg_path s ` set run" for p
    using drop_inputs_disk [OF dr, of p] local that store_manifest_disk [OF st that(1)] by (simp add: s' path set_manifest_def)
  have run: "last (seg_path s m) \<notin> seg_file ` {n..}" if "m \<in> set run" for m
    using local that by (cases "sm_tier m") (fastforce simp: seg_path_def segment_path_def n)+
  have "list_all2 (chunk_written E s') outs cs"
  proof (rule list.rel_mono_strong [OF w])
    fix m c assume m: "m \<in> set outs" and c: "chunk_written E s2 m c"
    then obtain q where q: "sm_file m = seg_file q" "n \<le> q"
      using o(2) by (metis (no_types, lifting) atLeastLessThan_upt atLeastLessThan_iff imageE in_set_conv_nth length_map nth_map nth_mem set_map)
    then have "seg_path s m = gc_hot_dir (so_config s) @ [seg_file q]" using c by (simp add: chunk_written_def seg_path_def segment_path_def)
    with run q have "seg_named (seg_path s m)" "seg_path s m \<notin> seg_path s ` set run" by (simp, force)
    from d [OF this] c show "chunk_written E s' m c"
      using chunk_written_frame [of s' s2 m E c] by (simp add: path e e2 swap_run_def)
  qed
  with e o d d2 show ?thesis by (intro exI [of _ outs]) simp
qed

section \<open>Compaction keeps the invariant and the reads\<close>

text \<open>Outputs that take slots of the run or fresh numbers, each in a file with a fresh number.\<close>

definition fresh_outputs :: "nat set \<Rightarrow> nat \<Rightarrow> nat \<Rightarrow> SegmentMeta list \<Rightarrow> bool" where
  "fresh_outputs slots n k outs \<longleftrightarrow>
     distinct (map sm_id outs) \<and> set (map sm_id outs) \<subseteq> slots \<union> {n..<k} \<and>
     distinct (map sm_file outs) \<and> set (map sm_file outs) \<subseteq> seg_file ` {n..<k}"

lemma manifest_ok_swap:
  assumes m: "manifest_ok m" and n: "n = mf_next_segment_id m" "n \<le> k" and bound: "set ids \<subseteq> {..<n}"
    and outs: "fresh_outputs (set ids) n k outs"
  shows "manifest_ok (swap_run ids outs (m\<lparr> mf_next_segment_id := k \<rparr>))"
proof -
  let ?K = "filter (\<lambda>x. sm_id x \<notin> set ids) (mf_segments m)"
  have K: "distinct (map sm_id ?K)" "distinct (map sm_file ?K)" using m by (simp_all add: manifest_ok_def distinct_map_filter)
  have ids: "set (map sm_id ?K) \<subseteq> {..<n} - set ids" and files: "set (map sm_file ?K) \<subseteq> seg_file ` {..<n}"
    using m n by (auto simp: manifest_ok_def)
  have o: "set (map sm_id outs) \<subseteq> set ids \<union> {n..<k}" "set (map sm_file outs) \<subseteq> seg_file ` {n..<k}"
    using outs by (simp_all add: fresh_outputs_def)
  have "set (map sm_id ?K) \<inter> set (map sm_id outs) = {}" using ids o(1) by fastforce
  moreover have "set (map sm_file ?K) \<inter> set (map sm_file outs) = {}" using files o(2) by fastforce
  ultimately have 1: "distinct (map sm_id (?K @ outs))" "distinct (map sm_file (?K @ outs))"
    using K outs by (simp_all add: fresh_outputs_def)
  have "sm_id x < k \<and> sm_file x \<in> seg_file ` {..<k}" if "x \<in> set (?K @ outs)" for x
  proof (cases "x \<in> set outs")
    case True
    then have "sm_id x \<in> set ids \<union> {n..<k}" "sm_file x \<in> seg_file ` {n..<k}" using o by auto
    with bound n show ?thesis by auto
  next
    case False
    then have "sm_id x \<in> {..<n}" "sm_file x \<in> seg_file ` {..<n}" using that ids files by auto
    with n show ?thesis by auto
  qed
  with 1 show ?thesis by (simp only: manifest_ok_def swap_run_def Manifest.simps) simp
qed

text \<open>What a compaction of a run leaves: the chunks in the run's slots, the other segments untouched.\<close>

definition compacted ::
  "('x, 'o) env \<Rightarrow> 'o Store \<Rightarrow> SegmentMeta list \<Rightarrow> Record list list \<Rightarrow> SegmentMeta list \<Rightarrow> 'o Store \<Rightarrow> bool" where
  "compacted E s run cs outs s' \<longleftrightarrow>
     so_engine s' = (so_engine s)\<lparr> ei_manifest := swap_run (map sm_id run) outs
       ((so_manifest s)\<lparr> mf_next_segment_id := mf_next_segment_id (so_manifest s) + length cs \<rparr>) \<rparr> \<and>
     map sm_id outs = drop (length run - length cs) (sort (map sm_id run)) \<and>
     sorted_wrt (<) (map sm_id outs) \<and> set (map sm_id outs) \<subseteq> set (map sm_id run) \<and>
     map sm_file outs = map seg_file [mf_next_segment_id (so_manifest s)..<mf_next_segment_id (so_manifest s) + length cs] \<and>
     list_all2 (chunk_written E s') outs cs \<and>
     (\<forall>m \<in> set (mf_segments (so_manifest s)). sm_id m \<notin> set (map sm_id run) \<longrightarrow>
        fmlookup (so_disk s') (seg_path s m) = fmlookup (so_disk s) (seg_path s m))"

lemma store_segments:
  assumes "env_ok E" and "store_ok E s" and "m \<in> set (mf_segments (so_manifest s))"
  shows "segment_at E s m (seg_content E s m)" and "sm_tier m \<noteq> Remote"
  using assms segment_at_content [OF assms(1)] by (fastforce simp: store_ok_def segment_at_def)+

lemma run_slots:
  assumes "distinct (map sm_id ms)" and run: "sort_key sm_id ms = a @ run @ b"
  shows "sorted_wrt (<) (map sm_id run)" "set ms = set a \<union> set run \<union> set b"
proof -
  have "sorted_wrt (<) (map sm_id (sort_key sm_id ms))" using assms(1) by (simp add: strict_sorted_iff distinct_map)
  then show "sorted_wrt (<) (map sm_id run)" unfolding run by (simp add: sorted_wrt_append)
  show "set ms = set a \<union> set run \<union> set b" using run by (metis set_append set_sort Un_assoc)
qed

lemma compact_run_compacted:
  assumes E: "env_ok E" and s: "store_ok E s" and cr: "compact_run E run purge s = (Inr j, s')"
    and run: "distinct (map sm_id run)" "set run \<subseteq> set (mf_segments (so_manifest s))"
    and cs: "cs = compact_records (so_config s) (en_now E) purge (map (seg_content E s) (sort_key sm_id run))" and fits: "length cs \<le> length run"
  shows "\<exists>outs. compacted E s run cs outs s'"
proof -
  let ?L = "mf_segments (so_manifest s)" and ?n = "mf_next_segment_id (so_manifest s)"
  have man: "manifest_ok (so_manifest s)" using s by (simp add: store_ok_def)
  have slots: "sorted_wrt (<) (sort (map sm_id run))" using run(1) by (simp add: strict_sorted_iff)
  have path: "\<exists>d q. seg_path s m = d @ [seg_file q] \<and> q < ?n \<and> sm_file m = seg_file q" if "m \<in> set ?L" for m
    by (rule manifest_paths [OF man that store_segments(2) [OF E s that]])
  have local: "\<forall>m \<in> set run. sm_tier m \<noteq> Remote \<and> (\<exists>q < ?n. sm_file m = seg_file q)"
    using path store_segments(2) [OF E s] run(2) by blast
  obtain outs where o: "so_engine s' = (so_engine s)\<lparr> ei_manifest :=
        swap_run (map sm_id run) outs ((so_manifest s)\<lparr> mf_next_segment_id := ?n + length cs \<rparr>) \<rparr>"
    "map sm_id outs = drop (length run - length cs) (sort (map sm_id run))" "map sm_file outs = map seg_file [?n..<?n + length cs]"
    "list_all2 (chunk_written E s') outs cs"
    and d: "\<forall>p. seg_named p \<longrightarrow> last p \<notin> seg_file ` {?n..} \<longrightarrow> p \<notin> seg_path s ` set run \<longrightarrow> fmlookup (so_disk s') p = fmlookup (so_disk s) p"
    using compact_run_disk [OF cr local cs fits refl] by blast
  have "fmlookup (so_disk s') (seg_path s m) = fmlookup (so_disk s) (seg_path s m)"
    if m: "m \<in> set ?L" "sm_id m \<notin> set (map sm_id run)" for m
  proof -
    obtain dir q where q: "seg_path s m = dir @ [seg_file q]" "q < ?n" "sm_file m = seg_file q" using path [OF m(1)] by blast
    have "seg_path s m \<noteq> seg_path s x" if x: "x \<in> set run" for x
    proof -
      have xL: "x \<in> set ?L" "x \<noteq> m" using x m(2) run(2) by auto
      then have "sm_file x \<noteq> sm_file m" using man m(1) by (auto simp: manifest_ok_def distinct_map inj_on_def)
      with path [OF xL(1)] q show ?thesis by auto
    qed
    with d [rule_format, of "seg_path s m"] q show ?thesis by (auto simp: image_iff)
  qed
  moreover have "sorted_wrt (<) (map sm_id outs)" unfolding o(2) by (rule sorted_wrt_drop [OF slots])
  moreover have "set (map sm_id outs) \<subseteq> set (map sm_id run)" unfolding o(2) using set_drop_subset by fastforce
  ultimately show ?thesis unfolding compacted_def using o by blast
qed

lemma chunk_segment_at:
  assumes "chunk_written E s m c" and "sm_bytes m < 2 ^ 32" and "c \<noteq> []" and "sorted_wrt (<) (map rec_key c)" and "\<forall>r \<in> set c. stored_ok r"
  shows "segment_at E s m c"
proof -
  obtain f where f: "encode_v2 (en_unicode E) (en_ext E) c = Inr f" "fmlookup (so_disk s) (seg_path s m) = Some f" "sm_bytes m = length f"
    using assms(1) by (auto simp: chunk_written_def)
  have "seg_records c" using assms(2-) f(3) encode_v2_rows [OF f(1)] by (simp add: seg_records_def stored_ok_def)
  with assms f show ?thesis by (simp add: segment_at_def chunk_written_def)
qed

lemma compacted_segments:
  assumes E: "env_ok E" and s: "store_ok E s" and c: "compacted E s run cs outs s'" and run: "set run \<subseteq> set (mf_segments (so_manifest s))"
    and cs: "cs = compact_records (so_config s) (en_now E) purge (map (seg_content E s) (sort_key sm_id run))"
    and bytes: "\<forall>m \<in> set (mf_segments (so_manifest s')). sm_bytes m < 2 ^ 32"
  shows "list_all2 (segment_at E s') outs cs"
    and "m \<in> set (mf_segments (so_manifest s)) \<Longrightarrow> sm_id m \<notin> set (map sm_id run) \<Longrightarrow>
         segment_at E s' m (seg_content E s m) \<and> seg_content E s' m = seg_content E s m"
proof -
  have in_rs: "stored_ok r" if "r \<in> set (concat (map (seg_content E s) (sort_key sm_id run)))" for r
    using that run store_segments(1) [OF E s] by (fastforce simp: segment_at_def)
  show "list_all2 (segment_at E s') outs cs"
  proof (rule list.rel_mono_strong)
    show "list_all2 (chunk_written E s') outs cs" using c by (simp add: compacted_def)
    fix m x assume m: "m \<in> set outs" and x: "x \<in> set cs" and w: "chunk_written E s' m x"
    note C = compact_chunks [OF x [unfolded cs]]
    have "sm_bytes m < 2 ^ 32" using bytes m c by (simp add: compacted_def swap_run_def)
    moreover have "\<forall>r \<in> set x. stored_ok r" using C(3) stored_ok_merge [OF ballI [OF in_rs]] by blast
    ultimately show "segment_at E s' m x" using w C by (intro chunk_segment_at)
  qed
  assume m: "m \<in> set (mf_segments (so_manifest s))" "sm_id m \<notin> set (map sm_id run)"
  have cfg: "so_config s' = so_config s" and d: "fmlookup (so_disk s') (seg_path s m) = fmlookup (so_disk s) (seg_path s m)"
    using c m by (simp_all add: compacted_def)
  note F = segment_at_frame [OF cfg d]
  show "segment_at E s' m (seg_content E s m) \<and> seg_content E s' m = seg_content E s m"
    unfolding F(1) F(2) using store_segments(1) [OF E s m(1)] by simp
qed

lemma compacted_ok:
  assumes E: "env_ok E" and s: "store_ok E s" and c: "compacted E s run cs outs s'" and run: "set run \<subseteq> set (mf_segments (so_manifest s))"
    and segs: "list_all2 (segment_at E s') outs cs"
    and kept: "\<And>m. m \<in> set (mf_segments (so_manifest s)) \<Longrightarrow> sm_id m \<notin> set (map sm_id run) \<Longrightarrow> segment_at E s' m (seg_content E s m)"
  shows "store_ok E s'"
proof -
  let ?m = "so_manifest s"
  have man: "manifest_ok ?m" using s by (simp add: store_ok_def)
  have e: "so_engine s' = (so_engine s)\<lparr> ei_manifest := swap_run (map sm_id run) outs
       (?m\<lparr> mf_next_segment_id := mf_next_segment_id ?m + length cs \<rparr>) \<rparr>" using c by (simp add: compacted_def)
  have "distinct (map sm_id outs)" "set (map sm_id outs) \<subseteq> set (map sm_id run)"
    and files: "map sm_file outs = map seg_file [mf_next_segment_id ?m..<mf_next_segment_id ?m + length cs]"
    using c unfolding compacted_def by (metis strict_sorted_iff, blast+)
  then have "fresh_outputs (set (map sm_id run)) (mf_next_segment_id ?m) (mf_next_segment_id ?m + length cs) outs"
    unfolding fresh_outputs_def files by (auto simp: distinct_map inj_on_def)
  moreover have "set (map sm_id run) \<subseteq> {..<mf_next_segment_id ?m}" using man run by (auto simp: manifest_ok_def)
  ultimately have "manifest_ok (so_manifest s')" using manifest_ok_swap [OF man refl] by (simp add: e)
  moreover have "mem_tables (so_engine s') = mem_tables (so_engine s)" "ei_frozen (so_engine s') = ei_frozen (so_engine s)"
    by (simp_all add: e mem_tables_def)
  moreover have "\<exists>rs. segment_at E s' m rs" if "m \<in> set (mf_segments (so_manifest s'))" for m
  proof (cases "m \<in> set outs")
    case True
    with segs show ?thesis by (auto simp: list_all2_conv_all_nth in_set_conv_nth)
  next
    case False
    with that have "m \<in> set (mf_segments ?m)" "sm_id m \<notin> set (map sm_id run)" by (auto simp: e swap_run_def)
    with kept show ?thesis by blast
  qed
  ultimately show ?thesis using s by (simp add: store_ok_def)
qed

text \<open>The sources before and after: the run's place taken by the chunks, the others as they were.\<close>

lemma compacted_sources:
  assumes E: "env_ok E" and s: "store_ok E s" and c: "compacted E s run cs outs s'"
    and run: "sort_key sm_id (mf_segments (so_manifest s)) = a @ run @ b"
    and segs: "list_all2 (segment_at E s') outs cs"
    and kept: "\<forall>m \<in> set (mf_segments (so_manifest s)). sm_id m \<notin> set (map sm_id run) \<longrightarrow> seg_content E s' m = seg_content E s m"
    and src: "src = (\<lambda>ms. map (\<lambda>m. seg_map (seg_content E s m)) ms)" and M: "M = map mt_records (mem_tables (so_engine s))"
  shows "store_sources E s = (M @ src (rev b)) @ src (rev run) @ src (rev a)"
    and "store_sources E s' = (M @ src (rev b)) @ map seg_map (rev cs) @ src (rev a)"
proof -
  let ?L = "mf_segments (so_manifest s)"
  have dL: "distinct (map sm_id ?L)" using s by (simp add: store_ok_def manifest_ok_def)
  note slots = run_slots [OF dL run]
  have after: "newest_first (mf_segments (so_manifest s')) = rev b @ rev outs @ rev a"
  proof -
    have "sorted_wrt (<) (map sm_id outs)" "set (map sm_id outs) \<subseteq> set (map sm_id run)"
      and "mf_segments (so_manifest s') = filter (\<lambda>m. sm_id m \<notin> set (map sm_id run)) ?L @ outs"
      using c unfolding compacted_def by (blast, blast, simp add: swap_run_def)
    then show ?thesis using swap_order [OF dL run] by presburger
  qed
  have mapc: "map (seg_content E s') outs = cs"
    using segs segment_at_content [OF E] by (auto simp: list_all2_conv_all_nth intro: nth_equalityI)
  have outs': "map (\<lambda>m. seg_map (seg_content E s' m)) (rev outs) = map seg_map (rev cs)"
    unfolding mapc [symmetric] by (simp add: rev_map)
  have "sorted_wrt (<) (map sm_id (a @ run @ b))" using dL unfolding run [symmetric] by (simp add: strict_sorted_iff distinct_map)
  then have "\<forall>m \<in> set a \<union> set b. sm_id m \<notin> set (map sm_id run)" by (fastforce simp: sorted_wrt_append)
  then have rest: "\<forall>m \<in> set a \<union> set b. seg_content E s' m = seg_content E s m" using kept slots(2) by blast
  have "mem_tables (so_engine s') = mem_tables (so_engine s)" using c by (simp add: compacted_def mem_tables_def)
  then show "store_sources E s' = (M @ src (rev b)) @ map seg_map (rev cs) @ src (rev a)"
    using rest outs' by (simp add: sources_def after src M)
  show "store_sources E s = (M @ src (rev b)) @ src (rev run) @ src (rev a)"
    by (simp add: sources_def newest_first_rev [OF dL] run src M)
qed

lemma compacted_reads:
  assumes E: "env_ok E" and s: "store_ok E s" and c: "compacted E s run cs outs s'"
    and run: "sort_key sm_id (mf_segments (so_manifest s)) = a @ run @ b"
    and cs: "cs = compact_records (so_config s) (en_now E) None (map (seg_content E s) run)"
    and policy: "policy_is_empty (retention_policy (so_config s))"
    and segs: "list_all2 (segment_at E s') outs cs"
    and kept: "\<And>m. m \<in> set (mf_segments (so_manifest s)) \<Longrightarrow> sm_id m \<notin> set (map sm_id run) \<Longrightarrow> seg_content E s' m = seg_content E s m"
    and plain: "\<forall>m \<in> set run. \<forall>r \<in> set (seg_content E s m). rec_key r = k \<longrightarrow> \<not> is_delta r"
  shows "folded (versions (store_sources E s') k) = folded (versions (store_sources E s) k)"
proof -
  have "\<forall>m \<in> set (mf_segments (so_manifest s)). sm_id m \<notin> set (map sm_id run) \<longrightarrow> seg_content E s' m = seg_content E s m"
    using kept by blast
  note S = compacted_sources [OF E s c run segs this refl refl]
  have dL: "distinct (map sm_id (mf_segments (so_manifest s)))" using s by (simp add: store_ok_def manifest_ok_def)
  have "\<forall>m \<in> set run. sorted_wrt (<) (map rec_key (seg_content E s m))"
    using store_segments(1) [OF E s] run_slots(2) [OF dL run] by (auto simp: segment_at_def seg_records_def)
  from compacted_block [OF this plain policy] show ?thesis unfolding S cs .
qed

lemma reclaim_pick_member: "reclaim_pick cfg cursor segments = Some cand \<Longrightarrow> cand \<in> set segments"
proof -
  have "x \<in> set xs" if "find P xs = Some x" for P and xs :: "SegmentMeta list" and x using that by (auto simp: find_Some_iff)
  then show "reclaim_pick cfg cursor segments = Some cand \<Longrightarrow> cand \<in> set segments" by (fastforce simp: reclaim_pick_def Let_def)
qed

section \<open>Purging a key\<close>

lemma refuse_deltas_frame: "refuse_deltas E key ms s = (Inr u, s') \<Longrightarrow> s' = s\<lparr> so_io := so_io s' \<rparr>"
proof (induction ms arbitrary: s)
  case (Cons m ms)
  then obtain rs s1 where r: "read_all E (seg_path s m) s = (Inr rs, s1)" and rest: "refuse_deltas E key ms s1 = (Inr u, s')"
    by (auto simp: bind_act_Inr fail_def split: if_splits)
  have "s1 = s\<lparr> so_io := so_io s1 \<rparr>" using read_all_result [OF r] by blast
  with Cons.IH [OF rest] show ?case by (metis Store.surjective Store.update_convs(10))
qed (simp add: ret_def)

lemma store_ok_io: "store_ok E (s\<lparr> so_io := n \<rparr>) \<longleftrightarrow> store_ok E s"
  by (simp add: store_ok_def segment_at_def seg_path_def)

lemma io_frame:
  "seg_content E (s\<lparr> so_io := n \<rparr>) = seg_content E s" "compacted E (s\<lparr> so_io := n \<rparr>) run cs outs s' \<longleftrightarrow> compacted E s run cs outs s'"
  by (auto simp: fun_eq_iff seg_content_def seg_path_def compacted_def)

lemma purge_key_run:
  assumes "purge_key E key s = (Inr n, s')" and "purge_run key (mf_segments (so_manifest s)) \<noteq> []"
  shows "\<exists>io. compact_run E (purge_run key (mf_segments (so_manifest s))) (Some key) (s\<lparr> so_io := io \<rparr>) = (Inr n, s')"
proof -
  from assms obtain s1 where rd: "refuse_deltas E key (purge_run key (mf_segments (so_manifest s))) s = (Inr (), s1)"
    and cr: "compact_run E (purge_run key (mf_segments (so_manifest s))) (Some key) s1 = (Inr n, s')"
    by (auto simp: purge_key_def bind_act_Inr Let_def)
  from refuse_deltas_frame [OF rd] cr show ?thesis by metis
qed

text \<open>A segment that holds the key is among those the purge rewrites.\<close>

lemma purge_run_complete:
  assumes "env_ok E" and "store_ok E s" and "m \<in> set (mf_segments (so_manifest s))" and "r \<in> set (seg_content E s m)"
  shows "m \<in> set (purge_run (rec_key r) (mf_segments (so_manifest s)))"
proof -
  have "sm_zone m = zone_build (seg_content E s m)" using store_segments(1) [OF assms(1-3)] by (simp add: segment_at_def)
  with zone_build_covers [OF assms(4)] assms(3) show ?thesis by (simp add: purge_run_def covers_def)
qed

lemma purged_segments:
  assumes E: "env_ok E" and s: "store_ok E s" and cr: "compact_run E (purge_run key (mf_segments (so_manifest s))) (Some key) s = (Inr n, s')"
    and fits: "length (compact_records (so_config s) (en_now E) (Some key)
        (map (seg_content E s) (sort_key sm_id (purge_run key (mf_segments (so_manifest s))))))
      \<le> length (purge_run key (mf_segments (so_manifest s)))"
    and bytes: "\<forall>m \<in> set (mf_segments (so_manifest s')). sm_bytes m < 2 ^ 32"
  shows "store_ok E s' \<and> (\<forall>m \<in> set (mf_segments (so_manifest s')). \<forall>r \<in> set (seg_content E s' m). rec_key r \<noteq> key) \<and>
         mem_tables (so_engine s') = mem_tables (so_engine s)"
proof -
  let ?L = "mf_segments (so_manifest s)" and ?run = "purge_run key (mf_segments (so_manifest s))"
  let ?cs = "compact_records (so_config s) (en_now E) (Some key) (map (seg_content E s) (sort_key sm_id ?run))"
  have sub: "set ?run \<subseteq> set ?L" by (auto simp: purge_run_def)
  have "distinct (map sm_id ?run)" using s by (simp add: purge_run_def store_ok_def manifest_ok_def distinct_map_filter)
  then obtain outs where c: "compacted E s ?run ?cs outs s'" using compact_run_compacted [OF E s cr _ sub refl fits] by blast
  note segs = compacted_segments [OF E s c sub refl bytes]
  have ok: "store_ok E s'" by (rule compacted_ok [OF E s c sub segs(1)]) (use segs(2) in blast)
  have "rec_key r \<noteq> key" if m: "m \<in> set (mf_segments (so_manifest s'))" and r: "r \<in> set (seg_content E s' m)" for m r
  proof (cases "m \<in> set outs")
    case True
    then obtain x where "x \<in> set ?cs" "segment_at E s' m x" using segs(1) by (metis in_set_conv_nth list_all2_conv_all_nth)
    with compact_chunks(4) [of x] r segment_at_content [OF E] show ?thesis by blast
  next
    case False
    with m c have k: "m \<in> set ?L" "sm_id m \<notin> set (map sm_id ?run)" by (auto simp: compacted_def swap_run_def)
    then have "r \<in> set (seg_content E s m)" "m \<notin> set ?run" using r segs(2) by auto
    with purge_run_complete [OF E s k(1)] show ?thesis by blast
  qed
  moreover have "mem_tables (so_engine s') = mem_tables (so_engine s)" using c by (simp add: compacted_def mem_tables_def)
  ultimately show ?thesis using ok by blast
qed

lemma absent_everywhere:
  assumes E: "env_ok E" and s: "store_ok E s"
    and segs: "\<forall>m \<in> set (mf_segments (so_manifest s)). \<forall>r \<in> set (seg_content E s m). rec_key r \<noteq> key"
    and mem: "\<forall>t \<in> set (mem_tables (so_engine s)). mt_get t key = None"
  shows "store_get E s key = Inr None"
proof -
  have "fmlookup (seg_map (seg_content E s m)) key = None" if m: "m \<in> set (mf_segments (so_manifest s))" for m
    using segs m store_segments(1) [OF E s m] by (subst seg_map_None) (auto simp: segment_at_def seg_records_def)
  then have "versions (store_sources E s) key = []"
    using mem unfolding sources_def by (auto simp: versions_def List.map_filter_def filter_empty_conv newest_first_def mt_get_def)
  then show ?thesis using E s by (simp add: store_get_visible visible_lookup folded_def)
qed

end
