(* ===== verification/Store_Live.thy ===== *)
theory Store_Live
  imports Store_Compact
begin

text \<open>
  Progress: when no file operation fails and the serialisers accept what they are given, a flush
  and a compaction of any run of listed segments complete.
\<close>

section \<open>File operations that cannot fail\<close>

definition io_calm :: "('x, 'o) env \<Rightarrow> bool" where
  "io_calm E \<longleftrightarrow> en_io E = (\<lambda>_. None) \<and> en_wal_io E = (\<lambda>_. io_fine) \<and> (\<forall>m. \<exists>b. rmp_manifest_to_vec (en_ext E) m = Inr b)"

definition encodable :: "('x, 'o) env \<Rightarrow> Record list \<Rightarrow> bool" where
  "encodable E rs \<longleftrightarrow> (\<exists>f. encode_v2 (en_unicode E) (en_ext E) rs = Inr f)"

text \<open>Write, sync and rename a temporary file into place.\<close>

lemma replace_file_completes:
  assumes "io_calm E"
  shows "\<exists>s'. perform_all E [FsWrite tmp b, FsSync tmp, FsRename tmp p] s = (Inr (), s')"
  using assms by (simp add: io_calm_def bind_act_def perform_def op_possible_def ret_def Let_def)

lemma write_sorted_completes:
  assumes "io_calm E" and "encodable E rs"
  shows "\<exists>s'. write_sorted E p rs s = (Inr (zone_build rs), s')"
proof -
  obtain f where f: "encode_v2 (en_unicode E) (en_ext E) rs = Inr f" using assms(2) by (auto simp: encodable_def)
  let ?tmp = "with_extension (lit ''tmp'') p"
  obtain s' where "perform_all E [FsWrite ?tmp f, FsSync ?tmp, FsRename ?tmp p] s = (Inr (), s')"
    using replace_file_completes [OF assms(1)] by blast
  then show ?thesis
    by (simp add: write_sorted_def bind_act_def of_result_def f ret_def Let_def del: perform_all.simps)
qed

lemma store_manifest_completes:
  assumes "io_calm E"
  shows "\<exists>s'. store_manifest E s = (Inr (), s')"
proof -
  obtain b where b: "rmp_manifest_to_vec (en_ext E) (so_manifest s) = Inr b" using assms by (auto simp: io_calm_def)
  let ?d = "gc_hot_dir (so_config s)" and ?b = "u32_le MANIFEST_MAGIC @ u32_le MANIFEST_VERSION @ b"
  have "store_manifest E s =
      perform_all E [FsWrite (manifest_tmp ?d) ?b, FsSync (manifest_tmp ?d), FsRename (manifest_tmp ?d) (manifest_path ?d)] s"
    by (simp add: store_manifest_def manifest_store_def manifest_bytes_def b bind_act_def of_result_def)
  with replace_file_completes [OF assms] show ?thesis by simp
qed

section \<open>Flush\<close>

lemma flush_one_completes:
  assumes "io_calm E" and "encodable E (mt_values t)"
  shows "\<exists>s'. flush_one E (q, t) s = (Inr (), s')"
proof -
  let ?seq = "mf_next_segment_id (so_manifest s)"
  let ?p = "gc_hot_dir (so_config s) @ [seg_file ?seq]"
  obtain s2 where w: "write_sorted E ?p (mt_values t) (set_manifest (\<lambda>m. m\<lparr> mf_next_segment_id := mf_next_segment_id m + 1 \<rparr>) s)
      = (Inr (zone_build (mt_values t)), s2)"
    using write_sorted_completes [OF assms] by blast
  let ?s3 = "set_manifest (\<lambda>m. m\<lparr> mf_segments := mf_segments m @
               [\<lparr> sm_id = ?seq, sm_file = seg_file ?seq, sm_tier = Hot, sm_zone = zone_build (mt_values t),
                  sm_bytes = file_len ?p s2, sm_created = en_now E \<rparr>] \<rparr>) s2"
  obtain s4 where "store_manifest E ?s3 = (Inr (), s4)" using store_manifest_completes [OF assms(1)] by blast
  with w show ?thesis
    using assms(1)
    by (simp add: flush_one_def bind_act_def alloc_seq_def get_state_def put_state_def remove_log_def io_calm_def Let_def)
qed

lemma flush_each_completes:
  assumes "io_calm E"
  shows "\<forall>(q, t) \<in> set fzs. encodable E (mt_values t) \<Longrightarrow> ei_frozen (so_engine s) = fzs @ rest \<Longrightarrow>
     \<exists>k s'. flush_each E fzs n s = (Inr k, s') \<and> ei_frozen (so_engine s') = rest \<and> ei_memtable (so_engine s') = ei_memtable (so_engine s)"
proof (induction fzs arbitrary: n s)
  case (Cons fz fzs)
  obtain q t where fz: "fz = (q, t)" by fastforce
  obtain s1 where s1: "flush_one E (q, t) s = (Inr (), s1)" using flush_one_completes [OF assms, of t q s] Cons.prems(1) fz by auto
  have "ei_frozen (so_engine s1) = fzs @ rest" "ei_memtable (so_engine s1) = ei_memtable (so_engine s)"
    using flush_one_result [OF s1] Cons.prems(2) by (auto simp: flushed_engine_def)
  with Cons.IH [of s1 "n + 1"] Cons.prems(1) show ?case by (auto simp: bind_act_def fz s1)
qed (simp add: ret_def)

lemma freeze_completes:
  assumes "io_calm E"
  shows "\<exists>x s'. writer_freeze E s = (Inr x, s') \<and> mt_is_empty (ei_memtable (so_engine s')) \<and>
           (\<forall>(q, t) \<in> set (ei_frozen (so_engine s')). t \<in> set (mem_tables (so_engine s)))"
proof -
  have opens: "\<exists>w bs. wal_open io_fine b pol = (Inr w, bs)" for b pol
    by (simp add: wal_open_def write_all_def io_fine_def Let_def)
  have "\<exists>s'. open_log E n s = (Inr (), s') \<and> so_engine s' = so_engine s" for n s
  proof -
    let ?b = "case fmlookup (so_logs s) n of None \<Rightarrow> [] | Some w \<Rightarrow> wal_file w"
    obtain w bs where "wal_open io_fine ?b (gc_fsync (so_config s)) = (Inr w, bs)" using opens by blast
    then show ?thesis
      using assms by (simp add: open_log_def io_calm_def Let_def)
  qed
  then obtain s1 where "open_log E (so_wal_seq s + 1) (s\<lparr> so_engine := (so_engine s)\<lparr> ei_memtable := mt_default \<rparr>, so_wal_seq := so_wal_seq s + 1 \<rparr>)
      = (Inr (), s1)" "so_engine s1 = (so_engine s)\<lparr> ei_memtable := mt_default \<rparr>" by fastforce
  then show ?thesis
    by (auto simp: writer_freeze_def Let_def bind_act_def mem_tables_def mt_is_empty_def mt_default_def image_iff
        intro: rev_bexI)
qed

text \<open>The files a flush adds are as long as the encodings of the tables.\<close>

lemma flush_each_bytes:
  "flush_each E fzs n s = (Inr k, s') \<Longrightarrow>
   \<forall>(q, t) \<in> set fzs. \<forall>f. encode_v2 (en_unicode E) (en_ext E) (mt_values t) = Inr f \<longrightarrow> length f < b \<Longrightarrow>
   \<forall>m \<in> set (mf_segments (so_manifest s)). sm_bytes m < b \<Longrightarrow> \<forall>m \<in> set (mf_segments (so_manifest s')). sm_bytes m < b"
proof (induction fzs arbitrary: n s)
  case (Cons fz fzs)
  obtain q t where fz: "fz = (q, t)" by fastforce
  from Cons.prems(1) obtain u s1 where fl: "flush_one E (q, t) s = (Inr u, s1)" and r: "flush_each E fzs (n + 1) s1 = (Inr k, s')"
    by (auto simp: bind_act_Inr fz)
  from flush_one_disk [OF fl] have "\<forall>m \<in> set (mf_segments (so_manifest s1)). sm_bytes m < b"
    using Cons.prems(2,3) by (auto simp: fz flushed_engine_def flushed_meta_def)
  with Cons.IH [OF r] Cons.prems(2) show ?case by simp
qed (simp add: ret_def)

lemma engine_flush_completes:
  assumes "io_calm E" and enc: "\<forall>t \<in> set (mem_tables (so_engine s)). encodable E (mt_values t)"
  shows "\<exists>s'. engine_flush E s = (Inr (), s') \<and> ei_frozen (so_engine s') = [] \<and> mt_is_empty (ei_memtable (so_engine s')) \<and>
    ((\<forall>t \<in> set (mem_tables (so_engine s)). \<forall>f. encode_v2 (en_unicode E) (en_ext E) (mt_values t) = Inr f \<longrightarrow> length f < b) \<longrightarrow>
     (\<forall>m \<in> set (mf_segments (so_manifest s)). sm_bytes m < b) \<longrightarrow> (\<forall>m \<in> set (mf_segments (so_manifest s')). sm_bytes m < b))"
proof -
  obtain x s1 where fr: "writer_freeze E s = (Inr x, s1)" and e: "mt_is_empty (ei_memtable (so_engine s1))"
    and fz: "\<forall>(q, t) \<in> set (ei_frozen (so_engine s1)). t \<in> set (mem_tables (so_engine s))"
    using freeze_completes [OF assms(1)] by blast
  have "\<forall>(q, t) \<in> set (ei_frozen (so_engine s1)). encodable E (mt_values t)" using fz enc by auto
  from flush_each_completes [OF assms(1) this, of s1 "[]" 0] obtain k s' where
    fl: "flush_each E (ei_frozen (so_engine s1)) 0 s1 = (Inr k, s')" "ei_frozen (so_engine s') = []"
    "ei_memtable (so_engine s') = ei_memtable (so_engine s1)" by auto
  have "engine_flush E s = (Inr (), s')" by (simp add: engine_flush_def writer_call_def flush_pending_def bind_act_def fr fl ret_def)
  moreover have "\<forall>m \<in> set (mf_segments (so_manifest s')). sm_bytes m < b"
    if "\<forall>t \<in> set (mem_tables (so_engine s)). \<forall>f. encode_v2 (en_unicode E) (en_ext E) (mt_values t) = Inr f \<longrightarrow> length f < b"
      "\<forall>m \<in> set (mf_segments (so_manifest s)). sm_bytes m < b"
    by (rule flush_each_bytes [OF fl(1)]) (use fz that freeze_frame(2) [OF fr] in auto)
  ultimately show ?thesis using fl e by auto
qed

section \<open>Compaction\<close>

lemma write_chunks_completes:
  assumes "io_calm E"
  shows "\<forall>c \<in> set cs. encodable E c \<Longrightarrow> \<exists>outs s'. write_chunks E created reuse i cs s = (Inr outs, s')"
proof (induction cs arbitrary: i s)
  case (Cons c cs)
  obtain ident s0 where id: "chunk_id reuse i s = (Inr ident, s0)" 
    by (cases "i < length reuse") (auto simp: chunk_id_def ret_def alloc_seq_def)
  let ?q = "mf_next_segment_id (so_manifest s0)"
  let ?p = "gc_hot_dir (so_config s) @ [seg_file ?q]"
  obtain s1 where "write_sorted E ?p c (set_manifest (\<lambda>m. m\<lparr> mf_next_segment_id := mf_next_segment_id m + 1 \<rparr>) s0)
      = (Inr (zone_build c), s1)"
    using write_sorted_completes [OF assms] Cons.prems by (meson list.set_intros(1))
  moreover obtain outs s2 where "write_chunks E created reuse (i + 1) cs s1 = (Inr outs, s2)"
    using Cons.IH [of "i + 1" s1] Cons.prems by auto
  ultimately show ?case using id by (simp add: bind_act_def alloc_seq_def get_state_def ret_def Let_def)
qed (simp add: ret_def)

lemma read_all_completes:
  assumes calm: "io_calm E" and E: "env_ok E" and s: "store_ok E s" and m: "m \<in> set (mf_segments (so_manifest s))"
  shows "read_all E (seg_path s m) s = (Inr (seg_content E s m), s\<lparr> so_io := so_io s + 1 \<rparr>)"
proof -
  obtain f where f: "fmlookup (so_disk s) (seg_path s m) = Some f" "encode_v2 (en_unicode E) (en_ext E) (seg_content E s m) = Inr f"
    "length f < 2 ^ 32" and rs: "seg_records (seg_content E s m)" using store_segments(1) [OF E s m] by (auto simp: segment_at_def)
  obtain blocks dir where "v2_file (en_unicode E) (en_ext E) (seg_content E s m) blocks dir f" using encode_v2_file [OF f(2)] by blast
  with E rs f(3) have "read_all_records (en_ext E) f = Inr (seg_content E s m)" by (intro read_all_v2) (simp_all add: env_ok_def)
  then show ?thesis
    using calm f(1) by (simp add: read_all_def bind_act_def read_path_def of_result_def fs_read_def io_calm_def Let_def)
qed

lemma read_inputs_completes:
  assumes calm: "io_calm E" and E: "env_ok E"
  shows "store_ok E s \<Longrightarrow> set ms \<subseteq> set (mf_segments (so_manifest s)) \<Longrightarrow> \<exists>inputs s'. read_inputs E ms s = (Inr inputs, s')"
proof (induction ms arbitrary: s)
  case (Cons m ms)
  let ?s1 = "s\<lparr> so_io := so_io s + 1 \<rparr>"
  obtain rest s2 where "read_inputs E ms ?s1 = (Inr rest, s2)" using Cons.IH [of ?s1] Cons.prems by (auto simp: store_ok_io)
  then show ?case using read_all_completes [OF calm E Cons.prems(1), of m] Cons.prems(2) by (simp add: bind_act_def ret_def)
qed (simp add: ret_def)

lemma refuse_deltas_completes:
  assumes calm: "io_calm E" and E: "env_ok E"
  shows "store_ok E s \<Longrightarrow> set ms \<subseteq> set (mf_segments (so_manifest s)) \<Longrightarrow>
     \<forall>m \<in> set ms. \<forall>r \<in> set (seg_content E s m). rec_key r = key \<longrightarrow> \<not> is_delta r \<Longrightarrow> \<exists>s'. refuse_deltas E key ms s = (Inr (), s')"
proof (induction ms arbitrary: s)
  case (Cons m ms)
  let ?s1 = "s\<lparr> so_io := so_io s + 1 \<rparr>"
  obtain s2 where "refuse_deltas E key ms ?s1 = (Inr (), s2)"
    using Cons.IH [of ?s1] Cons.prems by (auto simp: store_ok_io io_frame)
  moreover have "\<not> list_ex (\<lambda>r. rec_key r = key \<and> is_delta r) (seg_content E s m)" using Cons.prems(3) by (auto simp: list_ex_iff)
  ultimately show ?case using read_all_completes [OF calm E Cons.prems(1), of m] Cons.prems(2) by (simp add: bind_act_def)
qed (simp add: ret_def)

lemma drop_inputs_completes: "\<exists>s'. drop_inputs E ms s = (Inr (), s')"
  by (induction ms arbitrary: s) (simp_all add: ret_def bind_act_def ignore_err_def put_state_def)

lemma compact_run_completes:
  assumes calm: "io_calm E" and E: "env_ok E" and s: "store_ok E s" and run: "set run \<subseteq> set (mf_segments (so_manifest s))"
    and enc: "\<forall>c \<in> set (compact_records (so_config s) (en_now E) purge (map (seg_content E s) (sort_key sm_id run))). encodable E c"
  shows "\<exists>s'. compact_run E run purge s = (Inr 1, s')"
proof -
  obtain inputs s1 where ri: "read_inputs E (sort_key sm_id run) s = (Inr inputs, s1)"
    using read_inputs_completes [OF calm E s, of "sort_key sm_id run"] run by auto
  from read_inputs_result [OF ri] have i: "inputs = map (seg_content E s) (sort_key sm_id run)" and s1: "s1 = s\<lparr> so_io := so_io s1 \<rparr>" by simp_all
  let ?cs = "compact_records (so_config s1) (en_now E) purge inputs" and ?ids = "sort (map sm_id run)"
  have e1: "so_engine s1 = so_engine s" by (subst s1) simp
  have "\<forall>c \<in> set ?cs. encodable E c" using enc by (simp add: e1 i)
  then obtain outs s2 where wc: "write_chunks E (if run = [] then en_now E else Min (set (map sm_created run))) ?ids (length ?ids - length ?cs) ?cs s1
      = (Inr outs, s2)" using write_chunks_completes [OF calm] by blast
  obtain s3 where st: "store_manifest E (set_manifest (swap_run (map sm_id run) outs) s2) = (Inr (), s3)"
    using store_manifest_completes [OF calm] by blast
  obtain s4 where "drop_inputs E run s3 = (Inr (), s4)" using drop_inputs_completes by blast
  with ri wc st show ?thesis
    by (simp add: compact_run_def bind_act_def get_state_def put_state_def ret_def Let_def del: set_map)
qed

lemma purge_key_completes:
  assumes calm: "io_calm E" and E: "env_ok E" and s: "store_ok E s"
    and run: "run = purge_run key (mf_segments (so_manifest s))" "run \<noteq> []"
    and plain: "\<forall>m \<in> set run. \<forall>r \<in> set (seg_content E s m). rec_key r = key \<longrightarrow> \<not> is_delta r"
    and enc: "\<forall>c \<in> set (compact_records (so_config s) (en_now E) (Some key) (map (seg_content E s) (sort_key sm_id run))). encodable E c"
  shows "\<exists>s'. purge_key E key s = (Inr 1, s')"
proof -
  have sub: "set run \<subseteq> set (mf_segments (so_manifest s))" by (auto simp: run(1) purge_run_def)
  obtain s1 where rd: "refuse_deltas E key run s = (Inr (), s1)" using refuse_deltas_completes [OF calm E s sub plain] by blast
  obtain io where s1: "s1 = s\<lparr> so_io := io \<rparr>" using refuse_deltas_frame [OF rd] by blast
  have "\<exists>s'. compact_run E run (Some key) s1 = (Inr 1, s')"
    by (rule compact_run_completes [OF calm E]) (use s sub enc in \<open>simp_all add: s1 store_ok_io io_frame\<close>)
  with rd run show ?thesis by (auto simp: purge_key_def bind_act_def)
qed

lemma compacted_bytes:
  assumes "compacted E s run cs outs s'" and "\<forall>m \<in> set (mf_segments (so_manifest s)). sm_bytes m < b"
    and "\<forall>c \<in> set cs. \<forall>f. encode_v2 (en_unicode E) (en_ext E) c = Inr f \<longrightarrow> length f < b"
  shows "\<forall>m \<in> set (mf_segments (so_manifest s')). sm_bytes m < b"
proof -
  have "sm_bytes m < b" if "m \<in> set outs" for m
  proof -
    have "list_all2 (chunk_written E s') outs cs" using assms(1) by (simp add: compacted_def)
    with that obtain c where "c \<in> set cs" "chunk_written E s' m c" by (metis in_set_conv_nth list_all2_conv_all_nth)
    with assms(3) show ?thesis by (auto simp: chunk_written_def)
  qed
  with assms(1,2) show ?thesis by (auto simp: compacted_def swap_run_def)
qed

end
