(* ===== verification/Store_Samples.thy ===== *)
theory Store_Samples
  imports Store_Live
begin

text \<open>
  A small engine on which the maintenance operations run: serialisers that know a few segments, and
  states whose segment files hold given rows. The witnesses of the store properties use it.
\<close>

section \<open>A small engine\<close>

text \<open>Serialisers that know the block indexes and directories of given segments, by their number.\<close>

definition known_to :: "'a list \<Rightarrow> 'a \<Rightarrow> rstr + byte list" where
  "known_to xs x = (if x \<in> set xs then Inr [of_nat (length (takeWhile (\<lambda>y. y \<noteq> x) xs))] else Inl [])"

definition known_from :: "'a list \<Rightarrow> byte list \<Rightarrow> rstr + 'a" where
  "known_from xs b = (case b of [w] \<Rightarrow> if unat w < length xs then Inr (xs ! unat w) else Inl [] | _ \<Rightarrow> Inl [])"

lemma known_roundtrip:
  assumes "known_to xs x = Inr b" and "length xs < 256"
  shows "known_from xs b = Inr x"
proof -
  let ?i = "length (takeWhile (\<lambda>y. y \<noteq> x) xs)"
  have x: "x \<in> set xs" and b: "b = [of_nat ?i]" using assms(1) by (simp_all add: known_to_def split: if_splits)
  have i: "?i < length xs" using x by (metis (mono_tags, lifting) length_takeWhile_le le_neq_implies_less takeWhile_eq_all_conv takeWhile_eq_take take_all_iff order_refl)
  then have "xs ! ?i = x" using nth_length_takeWhile [of "\<lambda>y. y \<noteq> x" xs] by simp
  moreover have "unat (of_nat ?i :: byte) = ?i" using i assms(2) by (simp add: unat_of_nat)
  ultimately show ?thesis using i by (simp add: known_from_def b)
qed

definition known_dir :: "Record list \<Rightarrow> SectionDir" where
  "known_dir rs = \<lparr> sd_count = length rs,
     sd_entries = map (entry_of plain_seg_ext) (located 8 (v2_sections ascii_unicode plain_seg_ext rs @ [(K_BLOCKS, [], [0])])) \<rparr>"

definition known_ext :: "Record list list \<Rightarrow> man_ext" where
  "known_ext R = codec_ext.extend (seg_ext.extend plain_seg_ext
     \<lparr> rmp_blocks_to_vec = known_to (map (\<lambda>rs. build_blocks rs (plan_labels rs)) R),
       rmp_blocks_from_slice = known_from (map (\<lambda>rs. build_blocks rs (plan_labels rs)) R),
       rmp_dir_to_vec = known_to (map known_dir R), rmp_dir_from_slice = known_from (map known_dir R),
       rmp_records_from_slice = (\<lambda>b. Inl []) \<rparr>)
     \<lparr> rmp_manifest_to_vec = (\<lambda>_. Inr []), rmp_manifest_from_slice = (\<lambda>_. Inl []) \<rparr>"

lemmas known_ext_defs = known_ext_def plain_seg_ext_def sample_seg_ext_def seg_ext.defs codec_ext.defs

lemma known_ext_ok: "length R < 256 \<Longrightarrow> codec_rmp_ok (known_ext R)"
  by (auto simp: codec_rmp_ok_def known_ext_defs intro: known_roundtrip)

text \<open>Rows with a one-letter key and a one-byte payload.\<close>

definition row :: "nat \<Rightarrow> byte \<Rightarrow> Record" where
  "row c p = (sample_record [c])\<lparr> rec_payload := [p] \<rparr>"

definition simple_rows :: "Record list \<Rightarrow> bool" where
  "simple_rows rs \<longleftrightarrow> rs \<noteq> [] \<and> length rs \<le> 8 \<and> sorted_wrt (<) (map rec_key rs) \<and> (\<forall>r \<in> set rs. \<exists>c < 128. \<exists>p. r = row c p)"

lemma row_sel [simp]:
  "rec_key (row c p) = [c]" "rec_timestamp (row c p) = 5" "rec_labels (row c p) = fmempty" "rec_numerics (row c p) = fmempty"
  "rec_text (row c p) = None" "rec_payload (row c p) = [p]" "\<not> is_delta (row c p)" "\<not> is_tombstone (row c p)"
  by (simp_all add: row_def sample_record_def is_delta_def is_tombstone_def)

lemma row_finish [simp]: "finish_fold (row c p) = row c p"
  by (simp add: finish_fold_def row_def sample_record_def)

lemma folded_row [simp]: "folded (row c p # vs) = Some (row c p)"
  by (simp add: folded_def feed_version_def)

lemma row_simple: "c < 128 \<Longrightarrow> \<exists>d < 128. \<exists>q. row c p = row d q"
  by blast

lemma row_stored: "c < 128 \<Longrightarrow> stored_ok (row c p)"
  by (simp add: stored_ok_def record_ok_def str_ok_def is_scalar_def i64_ok_def i64_MIN_def i64_MAX_def)

lemma as_bytes_ascii: "c < 128 \<Longrightarrow> length (as_bytes [c]) = 1"
  by (simp add: as_bytes_def utf8_values_def utf8_char_def)

lemma bt_keys_fmempty [simp]: "bt_keys fmempty = []"
  by (simp add: bt_keys_eq sorted_list_of_fset.rep_eq)

lemma simple_sections:
  assumes "simple_rows rs"
  shows "v2_sections U X rs =
     [(K_KEYS, [], encode_strings (map (\<lambda>r. as_bytes (rec_key r)) rs)), (K_TS, [], concat (map (\<lambda>r. i64_le (rec_timestamp r)) rs)),
      (K_PAYLOAD, [], encode_payloads rs)]"
proof -
  have r: "rec_labels r = fmempty \<and> rec_numerics r = fmempty \<and> rec_text r = None" if "r \<in> set rs" for r
    using assms that by (auto simp: simple_rows_def)
  have "label_names rs = []" "numeric_names rs = []"
    using r by (simp_all add: label_names_def numeric_names_def btree_set_def map_replicate_const cong: map_cong)
  moreover have "\<not> list_ex (\<lambda>r. rec_text r \<noteq> None) rs" using r by (auto simp: list_ex_iff)
  ultimately show ?thesis by (simp add: v2_sections_def plan_labels_def)
qed

lemma simple_encoded:
  assumes rs: "simple_rows rs" and R: "rs \<in> set R"
  shows "\<exists>f. encode_v2 ascii_unicode (known_ext R) rs = Inr f \<and> length f < 2000"
proof -
  let ?X = "known_ext R"
  have crc: "crc32_hash ?X = (\<lambda>_. 0)" "crc32_hash plain_seg_ext = (\<lambda>_. 0)" by (simp_all add: known_ext_defs)
  obtain w where b: "rmp_blocks_to_vec ?X (build_blocks rs (plan_labels rs)) = Inr [w]"
    using R by (simp add: known_ext_defs known_to_def)
  let ?ss = "v2_sections ascii_unicode ?X rs @ [(K_BLOCKS, [], [w])]"
  have dir: "\<lparr> sd_count = length rs, sd_entries = map (entry_of ?X) (located 8 ?ss) \<rparr> = known_dir rs"
    by (simp add: known_dir_def simple_sections [OF rs] entry_of_def crc)
  obtain d where d: "rmp_dir_to_vec ?X (known_dir rs) = Inr [d]" using R by (simp add: known_ext_defs known_to_def)
  let ?out = "u32_le MAGIC @ u32_le VERSION_V2 @ layout ?X ?ss"
  have enc: "encode_v2 ascii_unicode ?X rs = Inr (?out @ [d] @ u64_le (length ?out) @ u32_le (crc32_hash ?X [d]) @ u32_le MAGIC)"
    unfolding encode_v2_def b sum.case fold_push_section using dir d by (simp add: del: layout_simps)
  have keys: "\<forall>r \<in> set rs. length (as_bytes (rec_key r)) = 1" using rs as_bytes_ascii by (auto simp: simple_rows_def)
  have "sum_list (map (\<lambda>r. length (as_bytes (rec_key r))) rs) = length rs" using keys by (induction rs) auto
  moreover have pay: "\<forall>r \<in> set rs. length (rec_payload r) = 1" using rs by (auto simp: simple_rows_def)
  then have "sum_list (map (\<lambda>r. length (rec_payload r)) rs) = length rs" by (induction rs) auto
  ultimately have "length ?out < 1000"
    using rs by (simp add: simple_sections [OF rs] encode_strings_def encode_payloads_def length_concat comp_def i64_le_def sum_list_triv
        simple_rows_def)
  with enc show ?thesis by simp
qed

section \<open>States with given segments\<close>

definition small_env :: "Record list list \<Rightarrow> (unit, unit) env" where
  "small_env R =
     \<lparr> en_unicode = ascii_unicode, en_ext = known_ext R, en_objects = None, en_io = (\<lambda>_. None),
       en_wal_io = (\<lambda>_. io_fine), en_mtime = (\<lambda>_. 0), en_now = 0 \<rparr>"

definition small_file :: "Record list list \<Rightarrow> Record list \<Rightarrow> byte list" where
  "small_file R rs = (case encode_v2 ascii_unicode (known_ext R) rs of Inl _ \<Rightarrow> [] | Inr f \<Rightarrow> f)"

text \<open>The segment of slot \<open>i\<close>, in a file of the same number.\<close>

definition small_meta :: "Record list list \<Rightarrow> nat \<Rightarrow> Record list \<Rightarrow> SegmentMeta" where
  "small_meta R i rs =
     \<lparr> sm_id = i, sm_file = seg_file i, sm_tier = Hot, sm_zone = zone_build rs, sm_bytes = length (small_file R rs),
       sm_created = 0 \<rparr>"

definition small_store :: "Record list list \<Rightarrow> GirderConfig \<Rightarrow> MemTable \<Rightarrow> Record list list \<Rightarrow> unit Store" where
  "small_store R cfg t rss =
     \<lparr> so_engine = \<lparr> ei_config = cfg, ei_memtable = t, ei_frozen = [],
         ei_manifest = \<lparr> mf_next_segment_id = length rss, mf_segments = map (\<lambda>i. small_meta R i (rss ! i)) [0..<length rss], mf_blobs = {||} \<rparr> \<rparr>,
       so_disk = fmap_of_list (map (\<lambda>i. (gc_hot_dir cfg @ [seg_file i], small_file R (rss ! i))) [0..<length rss]),
       so_logs = fmupd 0 sample_wal fmempty, so_wal_seq = 0, so_log = 0, so_remote = (), so_cache = cache_new 0,
       so_cursor = 0, so_ticks = 0, so_io = 0 \<rparr>"

lemma small_env_sel [simp]:
  "en_unicode (small_env R) = ascii_unicode" "en_ext (small_env R) = known_ext R" "en_now (small_env R) = 0"
  by (simp_all add: small_env_def)

lemma small_env_ok: "length R < 256 \<Longrightarrow> env_ok (small_env R) \<and> io_calm (small_env R)"
proof -
  assume R: "length R < 256"
  have "unicode_str ascii_unicode"
    by (auto simp: unicode_str_def ascii_unicode_def str_ok_def list_all_iff is_scalar_def to_ascii_lower_def)
  with R known_ext_ok ascii_unicode_ok show ?thesis by (simp add: env_ok_def io_calm_def small_env_def known_ext_defs)
qed

lemma small_segment:
  assumes R: "set rss \<subseteq> set R" "\<forall>rs \<in> set rss. simple_rows rs" and i: "i < length rss"
  shows "segment_at (small_env R) (small_store R cfg t rss) (small_meta R i (rss ! i)) (rss ! i)"
proof -
  have rs: "simple_rows (rss ! i)" "rss ! i \<in> set R" using R i by auto
  obtain f where f: "encode_v2 ascii_unicode (known_ext R) (rss ! i) = Inr f" "length f < 2000" using simple_encoded [OF rs] by blast
  let ?kv = "map (\<lambda>i. (gc_hot_dir cfg @ [seg_file i], small_file R (rss ! i))) [0..<length rss]"
  have "map_of ?kv (gc_hot_dir cfg @ [seg_file i]) = Some (small_file R (rss ! i))"
    by (rule map_of_is_SomeI) (use i in \<open>auto simp: distinct_map inj_on_def comp_def\<close>)
  then have "fmlookup (so_disk (small_store R cfg t rss)) (gc_hot_dir cfg @ [seg_file i]) = Some f"
    using f(1) by (simp add: small_store_def small_file_def fmlookup_of_list)
  moreover have "\<forall>r \<in> set (rss ! i). stored_ok r" using rs(1) row_stored by (auto simp: simple_rows_def)
  moreover have "seg_records (rss ! i)" using rs(1) calculation(2) by (simp add: seg_records_def simple_rows_def stored_ok_def)
  ultimately show ?thesis
    using f rs(1) by (simp add: segment_at_def small_meta_def simple_rows_def seg_path_def segment_path_def small_store_def)
qed

lemma small_store_ok:
  assumes R: "length R < 256" "set rss \<subseteq> set R" "\<forall>rs \<in> set rss. simple_rows rs" and t: "table_ok ascii_unicode t"
  shows "store_ok (small_env R) (small_store R cfg t rss)"
    and "i < length rss \<Longrightarrow> seg_content (small_env R) (small_store R cfg t rss) (small_meta R i (rss ! i)) = rss ! i"
proof -
  let ?s = "small_store R cfg t rss"
  note seg = small_segment [OF R(2,3), of _ cfg t]
  have L: "mf_segments (so_manifest ?s) = map (\<lambda>i. small_meta R i (rss ! i)) [0..<length rss]" by (simp add: small_store_def)
  have "manifest_ok (so_manifest ?s)"
    by (auto simp: manifest_ok_def small_store_def small_meta_def comp_def distinct_map inj_on_def)
  with seg t show "store_ok (small_env R) ?s" by (auto simp: store_ok_def L mem_tables_def) (auto simp: small_store_def)
  show "i < length rss \<Longrightarrow> seg_content (small_env R) ?s (small_meta R i (rss ! i)) = rss ! i"
    using segment_at_content [OF _ seg] small_env_ok [OF R(1)] by blast
qed

lemma small_file_bytes: "simple_rows rs \<Longrightarrow> rs \<in> set R \<Longrightarrow> length (small_file R rs) < 2000"
  using simple_encoded [of rs R] by (auto simp: small_file_def)

lemma simple_encodable: "simple_rows rs \<Longrightarrow> rs \<in> set R \<Longrightarrow> encodable (small_env R) rs"
  using simple_encoded [of rs R] by (auto simp: encodable_def)

text \<open>Two segments of one size tier, and the run a compaction chooses.\<close>

definition small_config :: GirderConfig where
  "small_config = sample_config\<lparr> gc_compact_min_segments := 2 \<rparr>"

lemma small_policy: "policy_is_empty (retention_policy small_config)"
proof -
  have "bt_entries fmempty = []" using bt_keys_fmempty unfolding bt_keys_def by blast
  then show ?thesis
    by (simp add: small_config_def sample_config_def config_at_def retention_policy_def compile_def compile_rows_def policy_is_empty_def)
qed

lemma split_small:
  assumes "rs \<noteq> []" and "length rs \<le> 2" and "\<forall>r \<in> set rs. \<exists>c < 128. \<exists>p. r = row c p"
  shows "split_chunks rs (gc_max_segment_records small_config) (gc_max_segment_bytes small_config) = [rs]"
proof -
  have b: "record_bytes (row c p) = 34" if "c < 128" for c p using as_bytes_ascii [OF that] by (simp add: record_bytes_def)
  from assms consider c p where "rs = [row c p]" "c < 128" | c p d q where "rs = [row c p, row d q]" "c < 128" "d < 128"
    by (cases rs; cases "tl rs") (auto simp: Suc_le_eq length_Suc_conv)
  then show ?thesis
    by cases (simp_all add: split_chunks_def small_config_def sample_config_def config_at_def b Let_def)
qed

lemma merged_values:
  assumes "sorted_wrt (<) (map rec_key rs)" and "\<And>k. fmlookup (merge_records xs) k = fmlookup (seg_map rs) k"
  shows "bt_values (merge_records xs) = rs"
proof -
  have "merge_records xs = seg_map rs" by (rule fmap_ext) (rule assms(2))
  with assms(1) show ?thesis by (simp add: bt_values_seg_map)
qed

end
