(* ===== verification/Store_Props.thy ===== *)
theory Store_Props
  imports Store_Samples
begin

text \<open>
  Background work seen through the public reads: flush, compaction and purge over real files, with
  an engine on which each of them runs.
\<close>

section \<open>Properties\<close>

text \<open>
  C7. Flushing changes no read. \<open>engine_flush\<close> freezes the memtable and writes every frozen one to a
  segment file; when it reports success, every lookup and every scan returns what it returned
  before, although the records now come from files through the column readers, and the invariant
  of manifest and files is kept. (The file operations of the flush may fail: then it reports the
  error. The files it wrote are under 4 GiB.)
\<close>

theorem flush_preserves_reads:
  assumes "env_ok E" and "store_ok E s" and "engine_flush E s = (Inr u, s')"
    and "\<forall>m \<in> set (mf_segments (so_manifest s')). sm_bytes m < 2 ^ 32"
  shows "store_ok E s' \<and> store_get E s' = store_get E s \<and> store_scan E s' = store_scan E s \<and>
         ei_frozen (so_engine s') = [] \<and> mt_is_empty (ei_memtable (so_engine s'))"
proof -
  from assms(3) obtain x s1 n where fr: "writer_freeze E s = (Inr x, s1)" and fl: "flush_each E (ei_frozen (so_engine s1)) 0 s1 = (Inr n, s')"
    by (auto simp: engine_flush_def writer_call_def flush_pending_def bind_act_Inr ret_def)
  note F = freeze_ok [OF fr assms(2)]
  from flush_each_ok [OF assms(1) fl refl F(1) assms(4)] F(2) freeze_frame(6) [OF fr]
  have ok: "store_ok E s'" "ei_frozen (so_engine s') = []" "mt_is_empty (ei_memtable (so_engine s'))"
    and vis: "visible (store_sources E s') = visible (store_sources E s)" by simp_all
  have "store_get E s' = store_get E s" "store_scan E s' = store_scan E s"
    using same_visible_reads [OF assms(1,2) ok(1)] vis by (auto simp: fun_eq_iff)
  with ok show ?thesis by blast
qed

definition flush_sample :: "unit Store" where
  "flush_sample = small_store [[row 97 1]] small_config (mt_insert ascii_unicode mt_default (row 97 1)) []"

lemma flush_sample_table: "mt_values (mt_insert ascii_unicode mt_default (row 97 1)) = [row 97 1]"
proof -
  have "mt_records (mt_insert ascii_unicode mt_default (row 97 1)) = seg_map [row 97 1]"
    by (simp add: mt_default_def seg_map_def)
  then show ?thesis by (simp add: mt_values_def bt_values_seg_map)
qed

lemma flush_sample_ok:
  "simple_rows [row 97 1]" "store_ok (small_env [[row 97 1]]) flush_sample" "mem_tables (so_engine flush_sample) = [mt_insert ascii_unicode mt_default (row 97 1)]"
proof -
  show "simple_rows [row 97 1]" by (simp add: simple_rows_def row_simple)
  have "table_ok ascii_unicode (mt_insert ascii_unicode mt_default (row 97 1))"
    by (simp add: table_ok_def flush_sample_table mt_inv_insert row_stored)
  then show "store_ok (small_env [[row 97 1]]) flush_sample" unfolding flush_sample_def by (intro small_store_ok) simp_all
  show "mem_tables (so_engine flush_sample) = [mt_insert ascii_unicode mt_default (row 97 1)]"
    by (simp add: flush_sample_def small_store_def mem_tables_def)
qed

lemma flush_sample_completes:
  "\<exists>s'. engine_flush (small_env [[row 97 1]]) flush_sample = (Inr (), s') \<and>
     (\<forall>m \<in> set (mf_segments (so_manifest s')). sm_bytes m < 2 ^ 32)"
proof -
  have "encodable (small_env [[row 97 1]]) [row 97 1]" by (rule simple_encodable [OF flush_sample_ok(1)]) simp
  moreover obtain f where "encode_v2 ascii_unicode (known_ext [[row 97 1]]) [row 97 1] = Inr f" "length f < 2000"
    using simple_encoded [OF flush_sample_ok(1), of "[[row 97 1]]"] by auto
  moreover have "mf_segments (so_manifest flush_sample) = []" by (simp add: flush_sample_def small_store_def)
  ultimately show ?thesis
    using engine_flush_completes [of "small_env [[row 97 1]]" flush_sample "2 ^ 32"] small_env_ok [of "[[row 97 1]]"]
    by (auto simp: flush_sample_ok(3) flush_sample_table)
qed

theorem flush_preserves_reads_witness:
  "\<exists>s'. engine_flush (small_env [[row 97 1]]) flush_sample = (Inr (), s') \<and>
     store_get (small_env [[row 97 1]]) s' [97] = Inr (Some (row 97 1))"
proof -
  let ?E = "small_env [[row 97 1]]"
  have E: "env_ok ?E" using small_env_ok by simp
  obtain s' where s': "engine_flush ?E flush_sample = (Inr (), s')" "\<forall>m \<in> set (mf_segments (so_manifest s')). sm_bytes m < 2 ^ 32"
    using flush_sample_completes by blast
  have "store_get ?E s' [97] = store_get ?E flush_sample [97]"
    using flush_preserves_reads [OF E flush_sample_ok(2) s'] by simp
  moreover have "store_sources ?E flush_sample = [seg_map [row 97 1]]"
    using flush_sample_ok(3) by (simp add: sources_def newest_first_def flush_sample_def small_store_def mt_default_def seg_map_def)
  then have "store_get ?E flush_sample [97] = Inr (Some (row 97 1))"
    by (simp add: store_get_visible [OF E flush_sample_ok(2)] visible_lookup seg_map_def)
  ultimately show ?thesis using s'(1) by auto
qed

text \<open>
  C12. A flush completes. When no file operation fails and the serialisers accept the records and the
  manifest, \<open>engine_flush\<close> returns success, with every memtable -- the live one and all that were
  waiting -- written out.
\<close>

theorem flush_completes:
  assumes "io_calm E" and "\<forall>t \<in> set (mem_tables (so_engine s)). encodable E (mt_values t)"
  shows "\<exists>s'. engine_flush E s = (Inr (), s') \<and> ei_frozen (so_engine s') = [] \<and> mt_is_empty (ei_memtable (so_engine s'))"
  using engine_flush_completes [OF assms] by blast

theorem flush_completes_witness:
  "\<exists>s'. engine_flush (small_env [[row 97 1]]) flush_sample = (Inr (), s') \<and> mt_is_empty (ei_memtable (so_engine s'))"
proof -
  have "encodable (small_env [[row 97 1]]) [row 97 1]" by (rule simple_encodable [OF flush_sample_ok(1)]) simp
  then show ?thesis
    using flush_completes [of "small_env [[row 97 1]]" flush_sample] small_env_ok [of "[[row 97 1]]"]
    by (auto simp: flush_sample_ok(3) flush_sample_table)
qed


text \<open>Two segments of one size, the newer overwriting a key of the older.\<close>

definition twins :: "Record list list" where
  "twins = [[row 97 1, row 98 1], [row 98 2]]"

definition twins_known :: "Record list list" where
  "twins_known = twins @ [[row 97 1, row 98 2]]"

definition compact_sample :: "unit Store" where
  "compact_sample = small_store twins_known small_config mt_default twins"

definition twin :: "nat \<Rightarrow> SegmentMeta" where
  "twin i = small_meta twins_known i (twins ! i)"

lemma twins_simple: "\<forall>rs \<in> set twins_known. simple_rows rs"
  by (auto simp: twins_known_def twins_def simple_rows_def row_simple)

lemma compact_sample_ok:
  "store_ok (small_env twins_known) compact_sample"
  "seg_content (small_env twins_known) compact_sample (twin 0) = [row 97 1, row 98 1]"
  "seg_content (small_env twins_known) compact_sample (twin 1) = [row 98 2]"
  "mf_segments (so_manifest compact_sample) = [twin 0, twin 1]"
proof -
  have a: "length twins_known < 256" "set twins \<subseteq> set twins_known" "\<forall>rs \<in> set twins. simple_rows rs" "table_ok ascii_unicode mt_default"
    using twins_simple by (auto simp: twins_known_def twins_def table_ok_def)
  note ok = small_store_ok [OF a, where cfg = small_config]
  show "store_ok (small_env twins_known) compact_sample" unfolding compact_sample_def by (rule ok)
  show "seg_content (small_env twins_known) compact_sample (twin 0) = [row 97 1, row 98 1]"
    "seg_content (small_env twins_known) compact_sample (twin 1) = [row 98 2]"
    unfolding compact_sample_def using ok(2) [of 0] ok(2) [of 1] by (simp_all add: twins_def twin_def)
  show "mf_segments (so_manifest compact_sample) = [twin 0, twin 1]"
    by (simp add: compact_sample_def small_store_def twins_def twin_def)
qed

lemma choose_pair:
  assumes m: "mergeable small_config a" "mergeable small_config b" and id: "sm_id a < sm_id b" and sz: "run_size a = 2" "run_size b = 1"
  shows "choose_run small_config [a, b] = Some [a, b]"
proof -
  have cfg: "gc_compact_min_segments small_config = 2" "gc_retention_nanos small_config = None" "gc_retention small_config = []"
    by (simp_all add: small_config_def sample_config_def config_at_def)
  have w: "windows_of (mergeable small_config) [] (sort_key sm_id [a, b]) = [[a, b]]" using id m by simp
  have "longest_tier_run [a, b] 2 = Some [a, b]" by (simp add: longest_tier_run_def sz Let_def)
  then show ?thesis unfolding choose_run_def w by (simp add: cfg better_run_def Let_def eval_nat_numeral)
qed

lemma compact_sample_run: "choose_run small_config [twin 0, twin 1] = Some [twin 0, twin 1]"
proof (rule choose_pair)
  have b: "length (small_file twins_known (twins ! i)) < 2000" if "i < 2" for i
    by (rule small_file_bytes) (use that twins_simple in \<open>auto simp: twins_known_def less_2_cases_iff twins_def\<close>)
  have "mergeable small_config (twin i)" if "i < 2" for i
    using b [OF that] that
    by (auto simp: mergeable_def twin_def small_meta_def small_config_def sample_config_def config_at_def less_2_cases_iff twins_def)
  then show "mergeable small_config (twin 0)" "mergeable small_config (twin 1)" by simp_all
  show "sm_id (twin 0) < sm_id (twin 1)" by (simp add: twin_def small_meta_def)
  show "run_size (twin 0) = 2" "run_size (twin 1) = 1" by (simp_all add: run_size_def twin_def small_meta_def twins_def)
qed

lemma compact_sample_chunks:
  "compact_records small_config now None [[row 97 1, row 98 1], [row 98 2]] = [[row 97 1, row 98 2]]"
proof -
  have "bt_values (merge_records (concat [[row 97 1, row 98 1], [row 98 2]])) = [row 97 1, row 98 2]"
    by (rule merged_values) (auto simp: merge_records_def merge_record_def seg_map_def)
  then show ?thesis
    using small_policy split_small [of "[row 97 1, row 98 2]"] by (simp add: compact_records_def Let_def row_simple)
qed

lemma twin_slots: "sm_id (twin i) = i" "sort_key sm_id [twin 0, twin 1] = [twin 0, twin 1]"
  by (simp_all add: twin_def small_meta_def)

lemma compact_sample_done:
  "\<exists>s'. compact (small_env twins_known) compact_sample = (Inr 1, s') \<and> (\<forall>m \<in> set (mf_segments (so_manifest s')). sm_bytes m < 2 ^ 32)"
proof -
  let ?E = "small_env twins_known" and ?s = compact_sample
  define run where "run = [twin 0, twin 1]"
  have E: "env_ok ?E" "io_calm ?E" using small_env_ok [of twins_known] by (simp_all add: twins_known_def twins_def)
  have cfg: "so_config ?s = small_config" by (simp add: compact_sample_def small_store_def)
  have L: "mf_segments (so_manifest ?s) = run" by (simp add: run_def compact_sample_ok(4))
  have srt: "sort_key sm_id run = run" "distinct (map sm_id run)" "length run = 2" using twin_slots by (simp_all add: run_def)
  have chunks: "compact_records (so_config ?s) (en_now ?E) None (map (seg_content ?E ?s) (sort_key sm_id run)) = [[row 97 1, row 98 2]]"
    unfolding cfg srt(1) using compact_sample_ok(2,3) compact_sample_chunks by (simp add: run_def)
  have known: "simple_rows [row 97 1, row 98 2]" "[row 97 1, row 98 2] \<in> set twins_known"
    using twins_simple by (simp_all add: twins_known_def)
  obtain s' where cr: "compact_run ?E run None ?s = (Inr 1, s')"
    using compact_run_completes [OF E(2,1) compact_sample_ok(1), of run None, unfolded chunks] simple_encodable [OF known] by (auto simp: L)
  have c: "compact ?E ?s = (Inr 1, s')"
    using cr compact_sample_run by (simp add: compact_def cfg L run_def)
  obtain outs where outs: "compacted ?E ?s run [[row 97 1, row 98 2]] outs s'"
    using compact_run_compacted [OF E(1) compact_sample_ok(1) cr srt(2) _ chunks [symmetric]] L srt(3) by auto
  have "sm_bytes (twin i) < 2 ^ 32" if "i < 2" for i
  proof -
    have "length (small_file twins_known (twins ! i)) < 2000"
      by (rule small_file_bytes) (use that twins_simple in \<open>auto simp: twins_known_def less_2_cases_iff twins_def\<close>)
    then show ?thesis by (simp add: twin_def small_meta_def)
  qed
  then have old: "\<forall>m \<in> set (mf_segments (so_manifest ?s)). sm_bytes m < 2 ^ 32" by (simp add: L run_def)
  obtain f where "encode_v2 ascii_unicode (known_ext twins_known) [row 97 1, row 98 2] = Inr f" "length f < 2000"
    using simple_encoded [OF known] by blast
  then have "\<forall>c \<in> set [[row 97 1, row 98 2]]. \<forall>f. encode_v2 (en_unicode ?E) (en_ext ?E) c = Inr f \<longrightarrow> length f < 2 ^ 32" by simp
  from compacted_bytes [OF outs old this] c show ?thesis by blast
qed



text \<open>
  Three segments: an old version of a key below its new version, and above both a segment whose key
  range the purged key falls into, as it does into the oldest one's.
\<close>

definition trio :: "Record list list" where
  "trio = [[row 98 1, row 122 1], [row 98 2], [row 109 1]]"

definition purge_sample :: "unit Store" where
  "purge_sample = small_store trio small_config mt_default trio"

definition part :: "nat \<Rightarrow> SegmentMeta" where
  "part i = small_meta trio i (trio ! i)"

lemma trio_simple: "\<forall>rs \<in> set trio. simple_rows rs"
  by (auto simp: trio_def simple_rows_def row_simple)

lemma purge_sample_ok:
  "store_ok (small_env trio) purge_sample"
  "seg_content (small_env trio) purge_sample (part 0) = [row 98 1, row 122 1]"
  "seg_content (small_env trio) purge_sample (part 1) = [row 98 2]"
  "seg_content (small_env trio) purge_sample (part 2) = [row 109 1]"
  "mf_segments (so_manifest purge_sample) = [part 0, part 1, part 2]"
proof -
  have a: "length trio < 256" "set trio \<subseteq> set trio" "\<forall>rs \<in> set trio. simple_rows rs" "table_ok ascii_unicode mt_default"
    using trio_simple by (auto simp: trio_def table_ok_def)
  note ok = small_store_ok [OF a, where cfg = small_config]
  show "store_ok (small_env trio) purge_sample" unfolding purge_sample_def by (rule ok)
  show "seg_content (small_env trio) purge_sample (part 0) = [row 98 1, row 122 1]"
    "seg_content (small_env trio) purge_sample (part 1) = [row 98 2]"
    "seg_content (small_env trio) purge_sample (part 2) = [row 109 1]"
    unfolding purge_sample_def part_def using ok(2) [of 0] ok(2) [of 1] ok(2) [of 2] by (simp_all add: trio_def)
  show "mf_segments (so_manifest purge_sample) = [part 0, part 1, part 2]"
    by (simp add: purge_sample_def small_store_def trio_def part_def eval_nat_numeral)
qed

lemma part_facts:
  "sm_id (part i) = i" "zm_min_key (sm_zone (part 0)) = [98]" "zm_max_key (sm_zone (part 0)) = [122]"
  "zm_min_key (sm_zone (part 1)) = [98]" "zm_max_key (sm_zone (part 1)) = [98]"
  "zm_min_key (sm_zone (part 2)) = [109]" "zm_max_key (sm_zone (part 2)) = [109]"
  by (simp_all add: part_def small_meta_def trio_def zone_build_def zone_step_def)

lemma part_bytes:
  assumes "i < 3"
  shows "sm_bytes (part i) < 2000"
proof -
  have "trio ! i \<in> set trio" by (rule nth_mem) (use assms in \<open>simp add: trio_def\<close>)
  with trio_simple small_file_bytes [of "trio ! i" trio] show ?thesis by (simp add: part_def small_meta_def)
qed

lemma purge_sample_run: "purge_run [109] (mf_segments (so_manifest purge_sample)) = [part 0, part 2]"
  by (simp add: purge_run_def purge_sample_ok(5) part_facts part_facts(4,5) [unfolded One_nat_def])

lemma purge_sample_chunks:
  "compact_records small_config now (Some [109]) [[row 98 1, row 122 1], [row 109 1]] = [[row 98 1, row 122 1]]"
proof -
  have "merge_records (concat [[row 98 1, row 122 1], [row 109 1]]) = fmupd [109] (row 109 1) (seg_map [row 98 1, row 122 1])"
    by (rule fmap_ext) (auto simp: merge_records_def merge_record_def seg_map_def)
  then have "fmdrop [109] (merge_records (concat [[row 98 1, row 122 1], [row 109 1]])) = seg_map [row 98 1, row 122 1]"
    by (auto intro!: fmap_ext simp: seg_map_def)
  moreover have "bt_values (seg_map [row 98 1, row 122 1]) = [row 98 1, row 122 1]" by (rule bt_values_seg_map) simp
  ultimately show ?thesis
    using small_policy split_small [of "[row 98 1, row 122 1]"] by (simp add: compact_records_def Let_def row_simple)
qed

lemma purge_sample_done:
  "\<exists>s' out. purge_key (small_env trio) [109] purge_sample = (Inr 1, s') \<and> store_ok (small_env trio) s' \<and>
     (\<forall>m \<in> set (mf_segments (so_manifest s')). sm_bytes m < 2 ^ 32) \<and>
     mf_segments (so_manifest s') = [part 1, out] \<and> sm_id out = 2 \<and> mem_tables (so_engine s') = [mt_default] \<and>
     seg_content (small_env trio) s' out = [row 98 1, row 122 1] \<and> seg_content (small_env trio) s' (part 1) = [row 98 2]"
proof -
  let ?E = "small_env trio" and ?s = purge_sample and ?cs = "[[row 98 1, row 122 1]]"
  define run where "run = [part 0, part 2]"
  have E: "env_ok ?E" "io_calm ?E" using small_env_ok [of trio] by (simp_all add: trio_def)
  note ok = purge_sample_ok
  have cfg: "so_config ?s = small_config" by (simp add: purge_sample_def small_store_def)
  have run: "run = purge_run [109] (mf_segments (so_manifest ?s))" "run \<noteq> []" "set run \<subseteq> set (mf_segments (so_manifest ?s))"
    using purge_sample_run ok(5) by (simp_all add: run_def)
  have ids: "map sm_id run = [0, 2]" "sort_key sm_id run = run" "distinct (map sm_id run)" "length run = 2"
    using part_facts(1) by (simp_all add: run_def)
  have chunks: "compact_records (so_config ?s) (en_now ?E) (Some [109]) (map (seg_content ?E ?s) (sort_key sm_id run)) = ?cs"
    unfolding cfg ids(2) using ok(2,4) purge_sample_chunks by (simp add: run_def)
  have known: "simple_rows [row 98 1, row 122 1]" "[row 98 1, row 122 1] \<in> set trio"
    using trio_simple by (simp_all add: trio_def)
  have "\<forall>m \<in> set run. \<forall>r \<in> set (seg_content ?E ?s m). rec_key r = [109] \<longrightarrow> \<not> is_delta r" using ok(2,4) by (simp add: run_def)
  with purge_key_completes [OF E(2,1) ok(1) run(1,2), unfolded chunks] simple_encodable [OF known]
  obtain s' where pk: "purge_key ?E [109] ?s = (Inr 1, s')" by auto
  then obtain io where cr: "compact_run ?E run (Some [109]) (?s\<lparr> so_io := io \<rparr>) = (Inr 1, s')" using purge_key_run run by metis
  have fits: "length ?cs \<le> length run" using ids(4) by simp
  obtain outs where "compacted ?E (?s\<lparr> so_io := io \<rparr>) run ?cs outs s'"
    using compact_run_compacted [OF E(1) _ cr ids(3) _ _ fits] ok(1) run(3) chunks by (auto simp: store_ok_io io_frame)
  then have c: "compacted ?E ?s run ?cs outs s'" by (simp only: io_frame)
  from c ids have "map sm_id outs = [2]" by (simp add: compacted_def)
  then obtain out where out: "outs = [out]" "sm_id out = 2" by auto
  have old: "\<forall>m \<in> set (mf_segments (so_manifest ?s)). sm_bytes m < 2 ^ 32"
    using part_bytes [of 0] part_bytes [of 1] part_bytes [of 2] by (simp add: ok(5))
  obtain f where "encode_v2 ascii_unicode (known_ext trio) [row 98 1, row 122 1] = Inr f" "length f < 2000"
    using simple_encoded [OF known] by blast
  then have "\<forall>c \<in> set ?cs. \<forall>f. encode_v2 (en_unicode ?E) (en_ext ?E) c = Inr f \<longrightarrow> length f < 2 ^ 32" by simp
  note bytes = compacted_bytes [OF c old this] and segs = compacted_segments [OF E(1) ok(1) c run(3) chunks [symmetric]]
  note segs = segs(1) [OF bytes] segs(2) [OF bytes]
  have ok': "store_ok ?E s'" by (rule compacted_ok [OF E(1) ok(1) c run(3) segs(1)]) (use segs(2) in blast)
  have "seg_content ?E s' (part 1) = [row 98 2]" using segs(2) [of "part 1"] ok(3,5) ids(1) part_facts(1) by simp
  moreover have "seg_content ?E s' out = [row 98 1, row 122 1]" using segs(1) segment_at_content [OF E(1)] by (simp add: out(1))
  moreover have "mf_segments (so_manifest s') = [part 1, out]"
    using c ok(5) ids(1) part_facts(1) by (simp add: compacted_def swap_run_def out(1) flip: set_map)
  moreover have "mem_tables (so_engine s') = [mt_default]"
    using c by (simp add: compacted_def mem_tables_def purge_sample_def small_store_def)
  ultimately show ?thesis using pk ok' bytes out(2) by blast
qed


text \<open>
  C11. Purging one key can bring back an overwritten version of another. The segments whose key range
  contains the purged key need not be neighbours in recency, yet they are merged into the newest of
  their slots: here the oldest segment's version of \<^verbatim>\<open>b\<close> moves above the segment that
  overwrote it, and a lookup of \<^verbatim>\<open>b\<close>, which is not the purged key, returns the old record.
\<close>

theorem purge_key_resurrects_old_versions:
  "\<exists>s'. engine_purge_key (small_env trio) [109] purge_sample = (Inr (), s') \<and>
     store_get (small_env trio) purge_sample [98] = Inr (Some (row 98 2)) \<and>
     store_get (small_env trio) s' [98] = Inr (Some (row 98 1))"
proof -
  let ?E = "small_env trio" and ?s = purge_sample
  have E: "env_ok ?E" using small_env_ok [of trio] by (simp add: trio_def)
  obtain s' out where pk: "purge_key ?E [109] ?s = (Inr 1, s')" and ok': "store_ok ?E s'"
    and L: "mf_segments (so_manifest s') = [part 1, out]" "sm_id out = 2" "mem_tables (so_engine s') = [mt_default]"
    and C: "seg_content ?E s' out = [row 98 1, row 122 1]" "seg_content ?E s' (part 1) = [row 98 2]"
    using purge_sample_done by blast
  have "engine_flush ?E ?s = (Inr (), ?s)"
    by (simp add: engine_flush_def writer_call_def writer_freeze_def flush_pending_def bind_act_def ret_def purge_sample_def
        small_store_def mt_is_empty_def mt_default_def)
  then have "engine_purge_key ?E [109] ?s = (Inr (), s')" using pk by (simp add: engine_purge_key_def bind_act_def ret_def)
  moreover have "newest_first [part 0, part 1, part 2] = [part 2, part 1, part 0]" by (simp add: newest_first_def part_facts(1))
  then have "store_sources ?E ?s = [fmempty, seg_map [row 109 1], seg_map [row 98 2], seg_map [row 98 1, row 122 1]]"
    using purge_sample_ok(2-5) by (simp add: sources_def) (simp add: purge_sample_def small_store_def mem_tables_def mt_default_def)
  then have "store_get ?E ?s [98] = Inr (Some (row 98 2))"
    by (simp add: store_get_visible [OF E purge_sample_ok(1)] visible_lookup seg_map_def)
  moreover have "newest_first [part 1, out] = [out, part 1]" using L(2) by (simp add: newest_first_def part_facts(1))
  then have "store_sources ?E s' = [fmempty, seg_map [row 98 1, row 122 1], seg_map [row 98 2]]"
    using L C by (simp add: sources_def mt_default_def)
  then have "store_get ?E s' [98] = Inr (Some (row 98 1))" by (simp add: store_get_visible [OF E ok'] visible_lookup seg_map_def)
  ultimately show ?thesis by blast
qed

end
