(* ===== verification/Store_Invariant.thy ===== *)
theory Store_Invariant
  imports Store_Samples
begin

text \<open>
  The shape of the engine's state: what every operation keeps, on every branch and whatever file
  operation fails. Each operation of \<open>Store\<close> and \<open>Maintenance\<close> is shown to keep the invariant by
  rules for the way actions are composed; the invariant then holds in every state of a run.
\<close>

section \<open>The invariant\<close>

text \<open>
  Segments have distinct recency numbers and distinct files, all given out by the manifest's counter;
  every memtable's token map and increment bookkeeping match its records; frozen memtables are not
  empty; the cache is in order.
\<close>

definition well_formed :: "unicode \<Rightarrow> 'o Store \<Rightarrow> bool" where
  "well_formed U s \<longleftrightarrow>
     manifest_ok (so_manifest s) \<and> (\<forall>t \<in> set (mem_tables (so_engine s)). mt_inv U t) \<and>
     (\<forall>(q, t) \<in> set (ei_frozen (so_engine s)). \<not> mt_is_empty t) \<and> cache_ok (so_cache s)"

text \<open>With a lower bound on the counter, which only grows.\<close>

definition formed :: "unicode \<Rightarrow> nat \<Rightarrow> 'o Store \<Rightarrow> bool" where
  "formed U n s \<longleftrightarrow> well_formed U s \<and> n \<le> mf_next_segment_id (so_manifest s)"

text \<open>An action's outcome \<open>p\<close> from \<open>s\<close>: it keeps the invariant, or leaves the shared state and the cache alone.\<close>

definition keeps :: "unicode \<Rightarrow> nat \<Rightarrow> 'o Store \<Rightarrow> 'a result \<times> 'o Store \<Rightarrow> bool" where
  "keeps U n s p \<longleftrightarrow> (formed U n s \<longrightarrow> formed U n (snd p))"

definition quiet :: "'o Store \<Rightarrow> 'a result \<times> 'o Store \<Rightarrow> bool" where
  "quiet s p \<longleftrightarrow> so_engine (snd p) = so_engine s \<and> so_cache (snd p) = so_cache s"

lemma formed_cong:
  "so_engine s' = so_engine s \<Longrightarrow> so_cache s' = so_cache s \<Longrightarrow> formed U n s' \<longleftrightarrow> formed U n s"
  by (simp add: formed_def well_formed_def)

lemma quiet_keeps: "quiet s p \<Longrightarrow> keeps U n s p"
  using formed_cong [of "snd p" s] by (simp add: keeps_def quiet_def)

lemma keeps_bind:
  assumes "keeps U n s (m s)" and "\<And>x s'. m s = (Inr x, s') \<Longrightarrow> keeps U n s' (f x s')"
  shows "keeps U n s (bind_act m f s)"
proof (cases "m s")
  case (Pair r s')
  with assms show ?thesis by (cases r) (simp_all add: keeps_def bind_act_def)
qed

lemma quiet_bind:
  assumes "quiet s (m s)" and "\<And>x s'. m s = (Inr x, s') \<Longrightarrow> quiet s' (f x s')"
  shows "quiet s (bind_act m f s)"
proof (cases "m s")
  case (Pair r s')
  with assms show ?thesis by (cases r) (simp_all add: quiet_def bind_act_def)
qed

named_theorems quietly

lemma quiet_basic [quietly]:
  "quiet s (ret x s)" "quiet s (fail e s)" "quiet s (of_result r s)" "quiet s (get_state f s)"
  by (simp_all add: quiet_def ret_def fail_def of_result_def get_state_def)

lemma quiet_ignore [quietly]: "quiet s (m s) \<Longrightarrow> quiet s (ignore_err m s)"
  by (simp add: quiet_def ignore_err_def)

lemma core_quiet: "(\<And>r s'. p = (r, s') \<Longrightarrow> same_core s s') \<Longrightarrow> quiet s p"
  using same_core_sel [of s "snd p"] by (metis prod.collapse quiet_def)

lemma quiet_files [quietly]:
  "quiet s (perform E op s)" "quiet s (perform_all E ops s)" "quiet s (store_manifest E s)" "quiet s (write_sorted E p rs s)"
  by (rule core_quiet; erule perform_core perform_all_core store_manifest_core write_sorted_core)+

lemma quiet_read [quietly]: "quiet s (read_path E p s)"
  by (auto simp: quiet_def read_path_def Let_def split: option.splits sum.splits)

lemma quiet_remote [quietly]: "quiet s (case f (so_remote s) of (r, o') \<Rightarrow> (r, s\<lparr> so_remote := o' \<rparr>))"
  by (simp add: quiet_def split: prod.splits)

lemma quiet_logs [quietly]:
  "quiet s (remove_log E seq s)" "quiet s (open_log E seq s)" "quiet s (log_batch E rs s)"
  by (auto simp: quiet_def remove_log_def open_log_def log_batch_def Let_def split: option.splits prod.splits sum.splits)

lemma quiet_read_all [quietly]: "quiet s (read_all E p s)"
  unfolding read_all_def by (intro quiet_bind quietly)

lemma quiet_drop [quietly]: "quiet s (drop_segment_file E m s)"
  by (auto simp: drop_segment_file_def Let_def split: Tier.split option.split intro!: quiet_bind quietly)

lemma quiet_read_inputs [quietly]: "quiet s (read_inputs E ms s)"
  by (induction ms arbitrary: s) (auto intro!: quiet_bind quietly)

lemma quiet_refuse_deltas [quietly]: "quiet s (refuse_deltas E key ms s)"
  by (induction ms arbitrary: s) (auto intro!: quiet_bind quietly)

lemma quiet_shadow_evidence [quietly]: "quiet s (shadow_evidence E keys ms acc s)"
  by (induction ms arbitrary: acc s) (auto intro!: quiet_bind quietly)

lemma quiet_below_evidence [quietly]: "quiet s (below_evidence E keys tomb ms below s)"
  by (induction ms arbitrary: below s) (auto simp: Let_def intro!: quiet_bind quietly)

lemma quiet_tomb_rows [quietly]: "quiet s (tomb_rows E cand f dir rows s)"
  by (auto simp: tomb_rows_def intro!: quiet_bind quietly)

lemma quiet_file_version [quietly]: "quiet s (file_version E p s)"
  unfolding file_version_def by (intro quiet_bind quietly)

lemma quiet_ignore_all [quietly]: "quiet s (ignore_all E ops s)"
  by (induction ops arbitrary: s) (auto intro!: quiet_bind quietly)

lemma quiet_move_file [quietly]: "quiet s (move_file E p q s)"
proof -
  obtain r s1 where m: "perform E (FsRename p q) s = (r, s1)" by fastforce
  have "quiet s (perform E (FsRename p q) s)" by (rule quietly)
  moreover have "quiet s1 (bind_act (read_path E p) (\<lambda>bytes. perform_all E [FsWrite q bytes, FsRemove p]) s1)"
    by (intro quiet_bind quietly)
  ultimately show ?thesis using m by (simp add: quiet_def move_file_def split: sum.split)
qed

section \<open>Steps that change the shared state\<close>

lemma keepsI: "(formed U n s \<Longrightarrow> keeps U n s p) \<Longrightarrow> keeps U n s p"
  by (simp add: keeps_def)

lemma keeps_now: "keeps U (mf_next_segment_id (so_manifest s)) s p \<Longrightarrow> keeps U n s p"
  by (auto simp: keeps_def formed_def)

lemma keeps_quiet:
  "quiet s (r, s') \<Longrightarrow> keeps U n s' p \<Longrightarrow> keeps U n s p"
  using formed_cong [of s' s U n] by (simp add: keeps_def quiet_def)

lemma formed_manifest:
  assumes "formed U n s" and "so_engine s' = (so_engine s)\<lparr> ei_manifest := m \<rparr>" and "so_cache s' = so_cache s"
    and "manifest_ok m" and "n \<le> mf_next_segment_id m"
  shows "formed U n s'"
  using assms by (simp add: formed_def well_formed_def mem_tables_def)

named_theorems keeping

lemmas keeping_quietly [keeping] = quietly [THEN quiet_keeps]

lemma keeps_invalidate [keeping]: "keeps U n s (put_state (invalidate_cache m) s)"
  by (auto simp: keeps_def formed_def well_formed_def put_state_def invalidate_cache_def intro: invalidate_props(1))

lemma keeps_forget [keeping]: "keeps U n s (forget_file E p m s)"
  unfolding forget_file_def by (intro keeps_bind keeping quietly)

lemma keeps_drop_inputs [keeping]: "keeps U n s (drop_inputs E ms s)"
  by (induction ms arbitrary: s) (auto intro!: keeps_bind keeping quietly)

text \<open>Removing a segment from the list, or moving it to another tier.\<close>

lemma keeps_unlist [keeping]: "keeps U n s (unlist_segment E m s)"
  unfolding unlist_segment_def
proof (rule keeps_bind)
  show "keeps U n s (put_state (set_manifest (swap_run [sm_id m] [])) s)"
    by (auto simp: keeps_def put_state_def set_manifest_def swap_run_def manifest_ok_def distinct_map_filter formed_def
        well_formed_def mem_tables_def)
qed (rule keeping)

lemma tier_first_same:
  "map sm_id (tier_first i t ms) = map sm_id ms" "map sm_file (tier_first i t ms) = map sm_file ms"
  by (induction ms) auto

lemma manifest_ok_lists:
  "manifest_ok m \<longleftrightarrow> distinct (map sm_id (mf_segments m)) \<and> distinct (map sm_file (mf_segments m)) \<and>
     set (map sm_id (mf_segments m)) \<subseteq> {..<mf_next_segment_id m} \<and>
     set (map sm_file (mf_segments m)) \<subseteq> seg_file ` {..<mf_next_segment_id m}"
  by (auto simp: manifest_ok_def)

lemma manifest_ok_tier: "manifest_ok (set_tier i t m) \<longleftrightarrow> manifest_ok m"
  by (simp add: manifest_ok_lists set_tier_def tier_first_same del: set_map)

lemma keeps_set_tier [keeping]: "keeps U n s (put_state (set_manifest (set_tier i t)) s)"
proof -
  have "mf_next_segment_id (set_tier i t m) = mf_next_segment_id m" for m by (simp add: set_tier_def)
  then show ?thesis
    by (auto simp: keeps_def put_state_def set_manifest_def manifest_ok_tier formed_def well_formed_def mem_tables_def)
qed

text \<open>Taking numbers, and listing segments under them.\<close>

lemma keeps_swap:
  assumes s: "formed U n s" and e: "so_engine s' = (so_engine s)\<lparr> ei_manifest := (so_manifest s)\<lparr> mf_next_segment_id := k \<rparr> \<rparr>"
    and c: "so_cache s' = so_cache s" and k: "mf_next_segment_id (so_manifest s) \<le> k" and ids: "set ids \<subseteq> {..<n}"
    and outs: "fresh_outputs (set ids) (mf_next_segment_id (so_manifest s)) k outs"
  shows "keeps U n s' (put_state (set_manifest (swap_run ids outs)) s')"
proof -
  have n: "n \<le> mf_next_segment_id (so_manifest s)" and m: "manifest_ok (so_manifest s)"
    using s by (simp_all add: formed_def well_formed_def)
  have "formed U n (set_manifest (swap_run ids outs) s')"
  proof (rule formed_manifest [OF s])
    show "so_engine (set_manifest (swap_run ids outs) s') = (so_engine s)\<lparr> ei_manifest := swap_run ids outs ((so_manifest s)\<lparr> mf_next_segment_id := k \<rparr>) \<rparr>"
      by (simp add: set_manifest_def e)
    show "so_cache (set_manifest (swap_run ids outs) s') = so_cache s" by (simp add: set_manifest_def c)
    show "manifest_ok (swap_run ids outs ((so_manifest s)\<lparr> mf_next_segment_id := k \<rparr>))"
      using manifest_ok_swap [OF m refl k _ outs] ids n by fastforce
  qed (use n k in \<open>simp add: swap_run_def\<close>)
  then show ?thesis by (simp add: keeps_def put_state_def)
qed

lemma keeps_grow:
  assumes e: "so_engine (snd p) = (so_engine s)\<lparr> ei_manifest := (so_manifest s)\<lparr> mf_next_segment_id := k \<rparr> \<rparr>"
    and c: "so_cache (snd p) = so_cache s" and k: "mf_next_segment_id (so_manifest s) \<le> k"
  shows "keeps U n s p"
proof -
  have "formed U n s \<Longrightarrow> formed U n (snd p)"
    by (rule formed_manifest [OF _ e c]) (use k in \<open>fastforce simp: formed_def well_formed_def manifest_ok_def\<close>)+
  then show ?thesis by (simp add: keeps_def)
qed

lemma keeps_alloc [keeping]: "keeps U n s (alloc_seq s)"
  by (rule keeps_grow [where k = "mf_next_segment_id (so_manifest s) + 1"]) (simp_all add: alloc_seq_def set_manifest_def)

lemma alloc_facts:
  assumes "alloc_seq s = (Inr q, s')"
  shows "q = mf_next_segment_id (so_manifest s)" "so_cache s' = so_cache s"
    "so_engine s' = (so_engine s)\<lparr> ei_manifest := (so_manifest s)\<lparr> mf_next_segment_id := q + 1 \<rparr> \<rparr>"
  using assms by (auto simp: alloc_seq_def set_manifest_def)

text \<open>Write one file under a fresh number and list it in the place of \<open>ids\<close>.\<close>

lemma keeps_listed:
  assumes "set ids \<subseteq> {..<n}" and "\<And>q z b. sm_file (meta q z b) = seg_file q" and "\<And>q z b. sm_id (meta q z b) \<in> insert q (set ids)"
    and "\<And>s. keeps U n s (rest s)"
  shows "keeps U n s (bind_act alloc_seq (\<lambda>seq. bind_act (write_sorted E (path seq) rs) (\<lambda>zone.
           bind_act (get_state (file_len (path seq))) (\<lambda>bytes.
           bind_act (put_state (set_manifest (swap_run ids [meta seq zone bytes]))) (\<lambda>_. rest)))) s)"
proof (rule keepsI, rule keeps_bind [OF keeps_alloc])
  fix q s1 assume s: "formed U n s" and a: "alloc_seq s = (Inr q, s1)"
  note A = alloc_facts [OF a]
  show "keeps U n s1 (bind_act (write_sorted E (path q) rs) (\<lambda>zone.
           bind_act (get_state (file_len (path q))) (\<lambda>bytes.
           bind_act (put_state (set_manifest (swap_run ids [meta q zone bytes]))) (\<lambda>_. rest))) s1)"
  proof (rule keeps_bind [OF quiet_files(4) [THEN quiet_keeps]], rule keeps_bind [OF quiet_basic(4) [THEN quiet_keeps]], rule keeps_bind)
    fix z s2 b s3 assume "write_sorted E (path q) rs s1 = (Inr z, s2)" and "get_state (file_len (path q)) s2 = (Inr b, s3)"
    then have "so_engine s3 = so_engine s1" "so_cache s3 = so_cache s1"
      using quiet_files(4) [of s1 E "path q" rs] by (auto simp: get_state_def quiet_def)
    then show "keeps U n s3 (put_state (set_manifest (swap_run ids [meta q z b])) s3)"
      using assms(1-3) A s by (intro keeps_swap [OF s, where k = "q + 1"]) (auto simp: fresh_outputs_def)
  qed (rule assms)
qed

section \<open>Every operation keeps the invariant\<close>

lemma keeps_replace:
  assumes "sm_id m < n"
  shows "keeps U n s (replace_segment E m dir tr rs s)"
  unfolding replace_segment_def Let_def by (rule keeps_listed) (use assms in \<open>auto intro: keeping\<close>)

lemma swap_run_append: "(\<lambda>m. m\<lparr> mf_segments := mf_segments m @ outs \<rparr>) = swap_run [] outs"
  by (simp add: fun_eq_iff swap_run_def)

lemma keeps_flush_one [keeping]: "keeps U n s (flush_one E fz s)"
proof -
  have pop: "keeps U n s (put_state (\<lambda>s. s\<lparr> so_engine := (so_engine s)\<lparr> ei_frozen := tl (ei_frozen (so_engine s)) \<rparr> \<rparr>) s)" for s :: "'a Store"
    by (cases "ei_frozen (so_engine s)") (auto simp: keeps_def formed_def well_formed_def put_state_def mem_tables_def)
  obtain q t where "fz = (q, t)" by fastforce
  then show ?thesis
    unfolding flush_one_def Let_def swap_run_append prod.case
    by (simp only: prod.case, intro keeps_listed) (auto intro!: keeps_bind keeping pop)
qed

lemma keeps_flush_each [keeping]: "keeps U n s (flush_each E fzs k s)"
  by (induction fzs arbitrary: k s) (auto intro!: keeps_bind keeping)

lemma keeps_flush_pending [keeping]: "keeps U n s (flush_pending E s)"
  unfolding flush_pending_def by (rule keeping)

lemma keeps_freeze [keeping]: "keeps U n s (writer_freeze E s)"
proof (cases "mt_is_empty (ei_memtable (so_engine s))")
  case True
  then show ?thesis by (simp add: writer_freeze_def Let_def keeps_def)
next
  case False
  let ?s0 = "s\<lparr> so_engine := (so_engine s)\<lparr> ei_memtable := mt_default \<rparr>, so_wal_seq := so_wal_seq s + 1 \<rparr>"
  obtain r s1 where op: "open_log E (so_wal_seq s + 1) ?s0 = (r, s1)" by fastforce
  have "so_engine s1 = (so_engine s)\<lparr> ei_memtable := mt_default \<rparr>" "so_cache s1 = so_cache s"
    using quiet_logs(2) [of ?s0 E "so_wal_seq s + 1"] unfolding op quiet_def by simp_all
  then show ?thesis
    using False op by (cases r) (auto simp: keeps_def writer_freeze_def Let_def bind_act_def formed_def well_formed_def mem_tables_def)
qed

lemma keeps_set_memtable:
  "(\<And>t. mt_inv U t \<Longrightarrow> mt_inv U (f t)) \<Longrightarrow> keeps U n s (put_state (set_memtable f) s)"
  by (auto simp: keeps_def formed_def well_formed_def put_state_def set_memtable_def mem_tables_def)

lemma keeps_writer_call [keeping]:
  assumes "en_unicode E = U"
  shows "keeps U n s (writer_call E msg s)"
proof -
  have full: "keeps U n s (freeze_if_full E s)" for s :: "'b Store"
    by (simp add: freeze_if_full_def keeping) (simp add: keeps_def)
  have puts: "mt_inv U (foldl (mt_insert U) t rs)" if "mt_inv U t" for t rs
    using that by (induction rs arbitrary: t) (auto intro: mt_inv_insert)
  show ?thesis
  proof (cases msg)
    case (Append rs)
    then show ?thesis
      by (simp add: writer_call_def assms) (intro keeps_bind keeps_set_memtable keeping full puts)
  next
    case (Incr r)
    then show ?thesis
      by (simp add: writer_call_def assms) (intro keeps_bind keeps_set_memtable keeping full mt_inv_insert_delta)
  next
    case Freeze
    then show ?thesis by (simp add: writer_call_def keeping)
  next
    case Sync
    have "quiet s (writer_call E Sync s)"
      by (auto simp: writer_call_def quiet_def split: option.splits prod.splits sum.splits)
    then show ?thesis unfolding Sync by (rule quiet_keeps)
  qed
qed

text \<open>The outputs of a compaction: slots of the run first, then fresh numbers.\<close>

lemma fresh_outputs_mono:
  assumes "fresh_outputs A n' k outs" and "A \<subseteq> B" and "n \<le> n'"
  shows "fresh_outputs B n k outs"
proof -
  have sub: "{n'..<k} \<subseteq> {n..<k}" using assms(3) by auto
  have "set (map sm_id outs) \<subseteq> A \<union> {n'..<k}" "set (map sm_file outs) \<subseteq> seg_file ` {n'..<k}"
    using assms(1) by (simp_all add: fresh_outputs_def)
  then have "set (map sm_id outs) \<subseteq> B \<union> {n..<k}" "set (map sm_file outs) \<subseteq> seg_file ` {n..<k}"
    using sub assms(2) by (blast, blast)
  with assms(1) show ?thesis by (simp add: fresh_outputs_def)
qed

lemma fresh_outputs_Cons:
  assumes rest: "fresh_outputs A (q + 1) k outs" and m: "sm_file m = seg_file q" "sm_id m \<notin> A" "sm_id m \<le> q" and q: "q < k" "n \<le> q"
    and B: "A \<subseteq> B" "sm_id m \<in> B \<union> {n..<k}"
  shows "fresh_outputs B n k (m # outs)"
proof -
  have o: "set (map sm_id outs) \<subseteq> A \<union> {q + 1..<k}" "set (map sm_file outs) \<subseteq> seg_file ` {q + 1..<k}"
    using rest by (simp_all add: fresh_outputs_def)
  have "sm_id m \<notin> A \<union> {q + 1..<k}" "seg_file q \<notin> seg_file ` {q + 1..<k}" using m by auto
  then have new: "sm_id m \<notin> set (map sm_id outs)" "sm_file m \<notin> set (map sm_file outs)" unfolding m(1) using o by (blast, blast)
  have "seg_file q \<in> seg_file ` {n..<k}" using q by simp
  with fresh_outputs_mono [OF rest B(1), of n] new m(1) B(2) q(2) show ?thesis by (simp add: fresh_outputs_def)
qed

lemma chunk_slot:
  fixes n q :: nat
  assumes "distinct reuse" and "set reuse \<subseteq> {..<n}" and "n \<le> q"
    and "i < length reuse \<and> ident = reuse ! i \<or> \<not> i < length reuse \<and> ident = n \<and> q = n + 1"
  shows "ident \<notin> set (drop (i + 1) reuse)" "ident \<le> q" "set (drop (i + 1) reuse) \<subseteq> set (drop i reuse)"
    "ident \<in> set (drop i reuse) \<or> ident = n \<and> q = n + 1"
proof -
  have "ident \<notin> set (drop (i + 1) reuse) \<and> ident \<le> q \<and> set (drop (i + 1) reuse) \<subseteq> set (drop i reuse) \<and>
    (ident \<in> set (drop i reuse) \<or> ident = n \<and> q = n + 1)"
  proof (cases "i < length reuse")
    case True
    then have d: "drop i reuse = ident # drop (i + 1) reuse" using assms(4) by (simp add: Cons_nth_drop_Suc)
    have "distinct (drop i reuse)" using assms(1) by simp
    moreover have "ident < n" using subsetD [OF assms(2) nth_mem [OF True]] assms(4) True by simp
    ultimately show ?thesis using d assms(3) by auto
  qed (use assms in auto)
  then show "ident \<notin> set (drop (i + 1) reuse)" "ident \<le> q" "set (drop (i + 1) reuse) \<subseteq> set (drop i reuse)"
    "ident \<in> set (drop i reuse) \<or> ident = n \<and> q = n + 1" by blast+
qed

lemma write_chunks_shape:
  assumes "write_chunks E created reuse i cs s = (r, s')" and "distinct reuse" and "set reuse \<subseteq> {..<mf_next_segment_id (so_manifest s)}"
  shows "\<exists>k \<ge> mf_next_segment_id (so_manifest s).
           so_engine s' = (so_engine s)\<lparr> ei_manifest := (so_manifest s)\<lparr> mf_next_segment_id := k \<rparr> \<rparr> \<and> so_cache s' = so_cache s \<and>
           (\<forall>outs. r = Inr outs \<longrightarrow> fresh_outputs (set (drop i reuse)) (mf_next_segment_id (so_manifest s)) k outs)"
  using assms
proof (induction cs arbitrary: i s r s')
  case Nil
  then show ?case by (intro exI [of _ "mf_next_segment_id (so_manifest s)"]) (auto simp: ret_def fresh_outputs_def)
next
  case (Cons c cs)
  let ?n = "mf_next_segment_id (so_manifest s)"
  obtain ident s1 where c: "chunk_id reuse i s = (Inr ident, s1)" by (cases "i < length reuse") (simp_all add: chunk_id_def ret_def alloc_seq_def)
  obtain q s2 where a: "alloc_seq s1 = (Inr q, s2)" by (simp add: alloc_seq_def)
  note A = alloc_facts [OF a]
  have s1: "so_cache s1 = so_cache s" "so_engine s1 = (so_engine s)\<lparr> ei_manifest := (so_manifest s)\<lparr> mf_next_segment_id := q \<rparr> \<rparr>" "?n \<le> q"
    "i < length reuse \<and> ident = reuse ! i \<or> \<not> i < length reuse \<and> ident = ?n \<and> q = ?n + 1"
    using c A(1) by (auto simp: chunk_id_def ret_def alloc_seq_def set_manifest_def split: if_splits)
  have e2: "so_engine s2 = (so_engine s)\<lparr> ei_manifest := (so_manifest s)\<lparr> mf_next_segment_id := q + 1 \<rparr> \<rparr>" "so_cache s2 = so_cache s"
    using A s1 by simp_all
  define p where "p = gc_hot_dir (so_config s) @ [seg_file q]"
  obtain rz s3 where w: "write_sorted E p c s2 = (rz, s3)" by fastforce
  have e3: "so_engine s3 = so_engine s2" "so_cache s3 = so_cache s2" using quiet_files(4) [of s2 E p c] by (simp_all add: w quiet_def)
  show ?case
  proof (cases rz)
    case (Inl e)
    then have "r = Inl e" "s' = s3" using Cons.prems(1) c a w by (auto simp: bind_act_def Let_def p_def)
    then show ?thesis using e2 e3 s1(3) by (intro exI [of _ "q + 1"]) simp
  next
    case (Inr z)
    obtain r4 s4 where rec: "write_chunks E created reuse (i + 1) cs s3 = (r4, s4)" by fastforce
    have res: "s' = s4" "\<And>outs. r = Inr outs \<Longrightarrow> \<exists>rest. r4 = Inr rest \<and>
        outs = \<lparr> sm_id = ident, sm_file = seg_file q, sm_tier = Hot, sm_zone = z, sm_bytes = file_len p s3, sm_created = created \<rparr> # rest"
      using Cons.prems(1) c a w Inr rec by (cases r4; auto simp: bind_act_def Let_def get_state_def ret_def p_def)+
    have "set reuse \<subseteq> {..<mf_next_segment_id (so_manifest s3)}" using Cons.prems(3) s1(3) by (fastforce simp: e2 e3)
    from Cons.IH [OF rec Cons.prems(2) this] obtain k where k: "q + 1 \<le> k"
      "so_engine s4 = (so_engine s3)\<lparr> ei_manifest := (so_manifest s3)\<lparr> mf_next_segment_id := k \<rparr> \<rparr>" "so_cache s4 = so_cache s3"
      "\<And>rest. r4 = Inr rest \<Longrightarrow> fresh_outputs (set (drop (i + 1) reuse)) (q + 1) k rest" by (auto simp: e2 e3)
    have "fresh_outputs (set (drop i reuse)) ?n k outs" if "r = Inr outs" for outs
    proof -
      from res(2) [OF that] obtain rest where o: "r4 = Inr rest"
        "outs = \<lparr> sm_id = ident, sm_file = seg_file q, sm_tier = Hot, sm_zone = z, sm_bytes = file_len p s3, sm_created = created \<rparr> # rest" by blast
      note slot = chunk_slot [OF Cons.prems(2,3) s1(3,4)]
      show ?thesis unfolding o(2)
        by (rule fresh_outputs_Cons [OF k(4) [OF o(1)]]) (use k(1) s1(3) slot in auto)
    qed
    then show ?thesis using k s1(3) by (intro exI [of _ k]) (simp add: res(1) e2 e3)
  qed
qed

lemma keeps_compact_run:
  assumes ids: "set (map sm_id run) \<subseteq> {..<n}" "distinct (map sm_id run)"
  shows "keeps U n s (compact_run E run purge s)"
proof -
  have "keeps U n s (bind_act (write_chunks E created (sort (map sm_id run)) i cs) (\<lambda>outputs.
          bind_act (put_state (set_manifest (swap_run (map sm_id run) outputs))) (\<lambda>_.
          bind_act (store_manifest E) (\<lambda>_. bind_act (drop_inputs E run) (\<lambda>_. ret 1)))) s)" for s :: "'a Store" and created i cs
  proof (rule keepsI)
    assume s: "formed U n s"
    then have n: "n \<le> mf_next_segment_id (so_manifest s)" by (simp add: formed_def)
    then have "set (sort (map sm_id run)) \<subseteq> {..<mf_next_segment_id (so_manifest s)}" using ids(1) by fastforce
    note W = write_chunks_shape [OF _ _ this, simplified distinct_sort, OF _ ids(2)]
    show "keeps U n s (bind_act (write_chunks E created (sort (map sm_id run)) i cs) (\<lambda>outputs.
          bind_act (put_state (set_manifest (swap_run (map sm_id run) outputs))) (\<lambda>_.
          bind_act (store_manifest E) (\<lambda>_. bind_act (drop_inputs E run) (\<lambda>_. ret 1)))) s)"
    proof (rule keeps_bind, goal_cases)
      case 1
      from W [of E created i cs, OF surjective_pairing] show ?case by (auto intro: keeps_grow)
    next
      case (2 outs s')
      from W [OF this] obtain k where k: "mf_next_segment_id (so_manifest s) \<le> k" "so_cache s' = so_cache s"
        "so_engine s' = (so_engine s)\<lparr> ei_manifest := (so_manifest s)\<lparr> mf_next_segment_id := k \<rparr> \<rparr>"
        "fresh_outputs (set (drop i (sort (map sm_id run)))) (mf_next_segment_id (so_manifest s)) k outs" by auto
      have "fresh_outputs (set (map sm_id run)) (mf_next_segment_id (so_manifest s)) k outs"
        by (rule fresh_outputs_mono [OF k(4)]) (use set_drop_subset in fastforce, simp)
      then show ?case using keeps_swap [OF s k(3,2,1) ids(1)] by (auto intro!: keeps_bind keeping)
    qed
  qed
  then show ?thesis
    unfolding compact_run_def Let_def by - (rule keeps_bind, rule keeping, rule keeps_bind, rule keeping)
qed

lemma keeps_compact [keeping]: "keeps U n s (compact E s)"
proof (rule keepsI, rule keeps_now)
  assume s: "formed U n s"
  let ?L = "mf_segments (so_manifest s)"
  show "keeps U (mf_next_segment_id (so_manifest s)) s (compact E s)"
  proof (cases "choose_run (so_config s) ?L")
    case None
    then show ?thesis by (simp add: compact_def keeping)
  next
    case (Some run)
    from choose_run_contiguous [OF this] obtain a b where "sort_key sm_id ?L = a @ run @ b" by (auto simp: contiguous_in_def)
    moreover have man: "manifest_ok (so_manifest s)" using s by (simp add: formed_def well_formed_def)
    ultimately have "distinct (map sm_id run)" "set run \<subseteq> set ?L"
      using run_slots [of ?L a run b] by (auto simp: manifest_ok_def strict_sorted_iff)
    with man Some show ?thesis by (simp add: compact_def) (intro keeps_compact_run, auto simp: manifest_ok_def)
  qed
qed

lemma keeps_purge_key [keeping]: "keeps U n s (purge_key E key s)"
proof (rule keepsI, rule keeps_now)
  assume s: "formed U n s"
  let ?run = "purge_run key (mf_segments (so_manifest s))"
  have "set (map sm_id ?run) \<subseteq> {..<mf_next_segment_id (so_manifest s)}" "distinct (map sm_id ?run)"
    using s by (auto simp: formed_def well_formed_def manifest_ok_def purge_run_def distinct_map_filter)
  note run = keeps_compact_run [OF this]
  show "keeps U (mf_next_segment_id (so_manifest s)) s (purge_key E key s)"
    by (auto simp: purge_key_def Let_def intro!: keeps_bind run keeping)
qed

lemma keeps_reclaim_rewrite:
  assumes "sm_id cand < n"
  shows "keeps U n s (reclaim_rewrite E cand keys dead s)"
  using assms by (auto simp: reclaim_rewrite_def Let_def intro!: keeps_bind keeps_replace keeping quietly)

lemma keeps_reclaim_audit:
  assumes "sm_id cand < n"
  shows "keeps U n s (reclaim_audit E cand newer older s)"
  using assms by (auto simp: reclaim_audit_def Let_def intro!: keeps_bind keeps_reclaim_rewrite keeping quietly)

lemma segment_ids: "formed U n s \<Longrightarrow> m \<in> set (mf_segments (so_manifest s)) \<Longrightarrow> sm_id m < mf_next_segment_id (so_manifest s)"
  by (simp add: formed_def well_formed_def manifest_ok_def)

lemma keeps_reclaim [keeping]: "keeps U n s (reclaim_sealed E s)"
proof (rule keepsI, rule keeps_now)
  assume s: "formed U n s"
  let ?L = "mf_segments (so_manifest s)"
  show "keeps U (mf_next_segment_id (so_manifest s)) s (reclaim_sealed E s)"
  proof (cases "reclaim_pick (so_config s) (so_cursor s) ?L")
    case None
    then show ?thesis by (simp add: reclaim_sealed_def keeping)
  next
    case (Some cand)
    then have "cand \<in> set ?L" by (rule reclaim_pick_member)
    then have "sm_id cand < mf_next_segment_id (so_manifest s)" using segment_ids [OF s] by blast
    then have "keeps U (mf_next_segment_id (so_manifest s)) (s\<lparr> so_cursor := sm_id cand \<rparr>) (reclaim_sealed E s)"
      unfolding reclaim_sealed_def using Some by (simp add: Let_def keeps_reclaim_audit)
    then show ?thesis by (rule keeps_quiet [rotated, of _ _ _ _ _ "Inr ()"]) (simp add: quiet_def)
  qed
qed

lemma keeps_groom_one:
  assumes "sm_id m < n"
  shows "keeps U n s (groom_one E policy m s)"
  using assms by (auto simp: groom_one_def Let_def intro!: keeps_bind keeps_replace keeping quietly)

lemma keeps_groom_each: "\<forall>m \<in> set ms. sm_id m < n \<Longrightarrow> keeps U n s (groom_each E policy ms k s)"
  by (induction ms arbitrary: k s) (auto intro!: keeps_bind keeps_groom_one keeping)

lemma keeps_groom [keeping]: "keeps U n s (groom E s)"
  by (rule keepsI, rule keeps_now)
     (auto simp: groom_def Let_def dest: segment_ids intro!: keeps_groom_each keeping)

lemma keeps_migrate_first: "\<forall>m \<in> set ms. sm_id m < n \<Longrightarrow> keeps U n s (migrate_first E ms s)"
proof (induction ms arbitrary: s)
  case (Cons m ms)
  obtain r s1 where v: "file_version E (seg_path s m) s = (r, s1)" by fastforce
  have q: "quiet s (r, s1)" using quiet_file_version [of s E "seg_path s m"] by (simp add: v)
  have IH: "keeps U n s (migrate_first E ms s)" for s using Cons by simp
  have "keeps U n s1 (migrate_first E (m # ms) s)"
    using v Cons.prems
    by (auto simp: Let_def split: sum.split Tier.split intro!: IH keeps_bind keeps_replace keeping)
  then show ?case by (rule keeps_quiet [OF q])
qed (simp add: keeping)

lemma keeps_migrate [keeping]: "keeps U n s (migrate E s)"
  by (rule keepsI, rule keeps_now) (auto simp: migrate_def dest: segment_ids intro!: keeps_migrate_first)

lemma keeps_tier_cold [keeping]: "keeps U n s (tier_cold E ms k s)"
  by (induction ms arbitrary: k s) (auto intro!: keeps_bind keeping)

lemma keeps_remote_one [keeping]: "keeps U n s (remote_one E os m s)"
  by (auto simp: remote_one_def Let_def intro!: keeps_bind keeping quietly)

lemma keeps_remote_each [keeping]: "keeps U n s (remote_each E os ms k s)"
  by (induction ms arbitrary: k s) (auto intro!: keeps_bind keeping)

lemma keeps_tier [keeping]: "keeps U n s (tier E s)"
  by (auto simp: tier_def tier_to_remote_def Let_def split: option.split intro!: keeps_bind keeping)

lemma keeps_sweep [keeping]: "keeps U n s (sweep_if_due E s)"
proof (rule quiet_keeps)
  let ?s = "s\<lparr> so_ticks := so_ticks s + 1 \<rparr>"
  have "quiet ?s (ignore_all E ops ?s)" for ops by (rule quietly)
  then show "quiet s (sweep_if_due E s)" by (simp add: sweep_if_due_def Let_def quiet_def ret_def)
qed

lemma keeps_maint_run [keeping]: "keeps U n s (maint_run E msg s)"
  by (cases msg) (auto simp: maint_run_def intro!: keeps_bind keeping)

section \<open>Opening, and any run of the two actors\<close>

lemma quiet_delete_orphans [quietly]: "quiet s (delete_orphans os live keys s)"
proof (induction keys arbitrary: s)
  case (Cons key keys)
  obtain r o' where d: "os_delete os key (so_remote s) = (r, o')" by fastforce
  show ?case using Cons [of s] Cons [of "s\<lparr> so_remote := o' \<rparr>"] by (auto simp: d quiet_def split: sum.splits)
qed (simp add: quietly)

lemma quiet_reap_local [quietly]: "quiet s (reap_local E ms s)"
  by (induction ms arbitrary: s) (auto intro!: quiet_bind quietly)

lemma quiet_reconcile [quietly]: "quiet s (reconcile_remote E s)"
proof -
  have "quiet s (bind_act (delete_orphans os live keys) (\<lambda>_. reap_local E ms) s)" for os live keys ms by (intro quiet_bind quietly)
  then show ?thesis by (auto simp: reconcile_remote_def Let_def quiet_basic split: option.split sum.split) (simp add: quiet_def)
qed

lemma quiet_remove_logs [quietly]: "quiet s (remove_logs E seqs s)"
  by (induction seqs arbitrary: s) (auto intro!: quiet_bind quietly)

lemmas keeping_open [keeping] = quiet_reconcile [THEN quiet_keeps] quiet_remove_logs [THEN quiet_keeps]

lemma keeps_put_batch: "en_unicode E = U \<Longrightarrow> keeps U n s (put_batch E rs s)"
  unfolding put_batch_def by (intro keeps_bind keeping)

lemma keeps_engine_flush: "en_unicode E = U \<Longrightarrow> keeps U n s (engine_flush E s)"
  unfolding engine_flush_def by (intro keeps_bind keeping)

lemma open_inner_formed:
  assumes "manifest_load (en_ext E) (fs_read disk (manifest_path (gc_hot_dir cfg))) = Inr m" and "manifest_ok m"
  shows "formed (en_unicode E) (mf_next_segment_id m) (snd (open_inner E cfg disk logs remote))"
proof -
  let ?U = "en_unicode E" and ?n = "mf_next_segment_id m"
  let ?s0 = "\<lparr> so_engine = \<lparr> ei_config = cfg, ei_memtable = mt_default, ei_frozen = [], ei_manifest = manifest_default \<rparr>,
      so_disk = disk, so_logs = logs, so_wal_seq = 0, so_log = 0, so_remote = remote,
      so_cache = cache_new (gc_cache_bytes cfg), so_cursor = 0, so_ticks = 0, so_io = 0 \<rparr>"
  let ?seqs = "bt_keys logs"
  let ?next = "if ?seqs = [] then 0 else last ?seqs + 1"
  let ?rest = "bind_act (reconcile_remote E) (\<lambda>_.
         bind_act (of_result (replay_logs (en_ext E) (bt_values logs))) (\<lambda>replayed.
         bind_act (put_state (\<lambda>s. s\<lparr> so_wal_seq := ?next \<rparr>)) (\<lambda>_.
         bind_act (open_log E ?next) (\<lambda>_.
           if merge_records replayed = fmempty then ret ()
           else
             bind_act (put_batch E (bt_values (merge_records replayed))) (\<lambda>_.
             bind_act (engine_flush E) (\<lambda>_. remove_logs E ?seqs))))))"
  have "keeps ?U ?n s (put_state (\<lambda>s. s\<lparr> so_wal_seq := q \<rparr>) s)" for s :: "'b Store" and q
    by (rule quiet_keeps) (simp add: quiet_def put_state_def)
  then have rest: "keeps ?U ?n s (?rest s)" for s
    by (auto intro!: keeps_bind keeps_put_batch keeps_engine_flush keeping)
  have start: "formed ?U ?n (set_manifest (\<lambda>_. m) ?s0)"
    using assms(2) by (simp add: formed_def well_formed_def set_manifest_def mem_tables_def cache_new_ok)
  have "open_inner E cfg disk logs remote = ?rest (set_manifest (\<lambda>_. m) ?s0)"
    unfolding open_inner_def Let_def by (simp add: bind_act_def [of "of_result (Inr m)"] bind_act_def [of "put_state f" for f] of_result_def put_state_def assms(1))
  with rest start show ?thesis by (simp add: keeps_def)
qed

datatype Call = ToWriter WriterMsg | ToMaintenance MaintCall

fun deliver :: "('x, 'o) env \<times> Call \<Rightarrow> 'o Store \<Rightarrow> 'o Store" where
  "deliver (E, ToWriter msg) s = snd (writer_call E msg s)"
| "deliver (E, ToMaintenance msg) s = snd (maint_run E msg s)"

lemma deliver_formed: "en_unicode (fst c) = U \<Longrightarrow> formed U n s \<Longrightarrow> formed U n (deliver c s)"
  using keeps_writer_call [of "fst c" U n s] keeps_maint_run [of U n s "fst c"]
  by (cases "(c, s)" rule: deliver.cases) (auto simp: keeps_def)

lemma cache_keys_distinct:
  assumes "manifest_ok m" and "mf_next_segment_id m \<le> 2 ^ 64"
  shows "distinct (map cache_key (mf_segments m))"
proof -
  have "cache_key a \<noteq> cache_key b" if "a \<in> set (mf_segments m)" "b \<in> set (mf_segments m)" "sm_file a \<noteq> sm_file b" for a b
  proof -
    note ab = that
    obtain p q where "sm_file a = seg_file p" "sm_file b = seg_file q" "p < mf_next_segment_id m" "q < mf_next_segment_id m"
      using assms(1) ab(1,2) unfolding manifest_ok_def by blast
    with assms(2) ab(3) cache_key_never_shared [of a p b q] show ?thesis by fastforce
  qed
  with assms(1) show ?thesis unfolding manifest_ok_def distinct_map inj_on_def by metis
qed

text \<open>
  C10. The engine's state keeps its shape. Open an engine over any files and logs whose manifest is in
  order, and let the writer and the maintenance actor handle any messages in any order -- writes,
  increments, freezes, syncs, flushes, purges, whole ticks with compaction, reclamation, tiering,
  grooming and migration -- with whatever file, log and object-store operations failing, at different
  times of the clock. In the state reached the segments have distinct recency numbers and distinct
  files and cache identities, all given out by the counter, which never went back; every memtable's
  indexes match its records; no frozen memtable is empty; the cache is in order.
\<close>

theorem every_state_well_formed:
  assumes "manifest_load (en_ext E) (fs_read disk (manifest_path (gc_hot_dir cfg))) = Inr m" and "manifest_ok m"
    and "\<forall>c \<in> set calls. en_unicode (fst c) = en_unicode E"
    and "s = fold deliver calls (snd (open_inner E cfg disk logs remote))"
  shows "well_formed (en_unicode E) s \<and> mf_next_segment_id m \<le> mf_next_segment_id (so_manifest s) \<and>
         (mf_next_segment_id (so_manifest s) \<le> 2 ^ 64 \<longrightarrow> distinct (map cache_key (mf_segments (so_manifest s))))"
proof -
  have "formed (en_unicode E) n (fold deliver calls s0)" if "formed (en_unicode E) n s0" for n s0
    using that assms(3) by (induction calls arbitrary: s0) (auto intro: deliver_formed)
  from this [OF open_inner_formed [OF assms(1,2)]] have "formed (en_unicode E) (mf_next_segment_id m) s" unfolding assms(4) .
  then show ?thesis using cache_keys_distinct [of "so_manifest s"] by (auto simp: formed_def well_formed_def)
qed

theorem every_state_well_formed_witness:
  "well_formed ascii_unicode
     (fold deliver
        [(small_env [], ToWriter (Append [row 1 0])), ((small_env [])\<lparr> en_io := \<lambda>n. Some (NotFound, 3) \<rparr>, ToMaintenance Tick)]
        (snd (open_inner (small_env []) small_config fmempty fmempty ())))"
proof -
  have "manifest_load (en_ext (small_env [])) (fs_read fmempty (manifest_path (gc_hot_dir small_config))) = Inr manifest_default"
    by (simp add: fs_read_def manifest_load_def)
  moreover have "manifest_ok manifest_default" by (simp add: manifest_ok_def manifest_default_def)
  ultimately show ?thesis
    using every_state_well_formed [of "small_env []" fmempty small_config manifest_default
        "[(small_env [], ToWriter (Append [row 1 0])), ((small_env [])\<lparr> en_io := \<lambda>n. Some (NotFound, 3) \<rparr>, ToMaintenance Tick)]" _ fmempty "()"]
    by simp
qed

end
