(* ===== verification/Store_Reclaim.thy ===== *)
theory Store_Reclaim
  imports Store_Samples
begin

text \<open>
  Reclamation of sealed segments (\<^verbatim>\<open>reclaim_sealed\<close> of \<^verbatim>\<open>src/src/actors.rs\<close>): the
  evidence it reads from key and label columns, the rows it takes for dead, and that rewriting or
  dropping the segment without them changes no read.
\<close>

section \<open>What the sections of a listed segment say\<close>

lemma label_is_one_col:
  assumes "label_col_ok col f n" and "j < n"
  shows "label_is_one col j \<longleftrightarrow> f j = Some (lit ''1'')"
proof (cases col)
  case (LabelDict dict code_of codes)
  with assms have "case f j of None \<Rightarrow> codes ! j = 0 | Some v \<Rightarrow> fmlookup code_of v = Some (codes ! j) \<and> dict ! (codes ! j - 1) = v"
    and "\<forall>v c. fmlookup code_of v = Some c \<longrightarrow> c \<noteq> 0" by auto
  with LabelDict show ?thesis by (cases "f j") (auto simp: label_is_one_def)
next
  case (LabelPlain vs)
  with assms show ?thesis by (simp add: label_is_one_def)
qed

lemma key_section_rows:
  assumes X: "codec_rmp_ok X" and rs: "seg_records rs"
  shows "ks_count (key_section rs) = length rs" "i < length rs \<Longrightarrow> ks_key_at (key_section rs) i = rec_key (rs ! i)"
    "ks_find (key_section rs) k = Some i \<longleftrightarrow> i < length rs \<and> rec_key (rs ! i) = k"
proof -
  have ok: "\<forall>r \<in> set rs. record_ok r" and s: "sorted_wrt (<) (map rec_key rs)" using rs by (simp_all add: seg_records_def)
  show n: "ks_count (key_section rs) = length rs" by (simp add: ks_count_def key_section_def)
  have key: "ks_key_at (key_section rs) i = rec_key (rs ! i)" if "i < length rs" for i
    using str_slice_concat [of i "map rec_key rs"] ok that
    by (simp add: ks_key_at_def key_section_def comp_def record_ok_def)
  then show "i < length rs \<Longrightarrow> ks_key_at (key_section rs) i = rec_key (rs ! i)" .
  show "ks_find (key_section rs) k = Some i \<longleftrightarrow> i < length rs \<and> rec_key (rs ! i) = k"
    unfolding ks_find_def n using bsearch_keys [OF s, of "ks_key_at (key_section rs)" k i] key by (simp cong: conj_cong)
qed

text \<open>Opening a listed segment and reading its directory, keys and a label column.\<close>

lemma read_path_result:
  "read_path E p s = (Inr f, s') \<Longrightarrow> fmlookup (so_disk s) p = Some f \<and> s' = s\<lparr> so_io := so_io s + 1 \<rparr>"
  by (auto simp: read_path_def fs_read_def Let_def split: option.splits)

lemma label_column_read:
  assumes X: "codec_rmp_ok X" and rs: "seg_records rs" and f: "v2_file U X rs blocks dir f" and len: "length f < 2 ^ 32"
    and col: "load_label X f (file_dir U X rs blocks) n = Inr col" and j: "j < length rs"
  shows "label_is_one col j \<longleftrightarrow> fmlookup (rec_labels (rs ! j)) n = Some (lit ''1'')"
proof -
  let ?d = "file_dir U X rs blocks"
  have "fmlookup (sg_entries ?d) (K_LABEL, n) \<noteq> None"
    using col by (auto simp: load_label_def load_body_def dir_entry_def ok_or_def split: option.splits)
  then have n: "n \<in> set (label_names rs)"
    using dir_no_section [of K_LABEL n U X rs blocks] label_section_ids(1) [of n U X rs blocks] by (auto simp: file_dir_def)
  then have "load_label X f ?d n = Inr (label_column rs (label_plan rs n))" using load_label_ok [OF X rs f len] by blast
  then have "col = label_column rs (label_plan rs n)" using col by simp
  with j label_is_one_col [OF label_column_ok] show ?thesis by simp
qed

lemma segment_sections:
  assumes E: "env_ok E" and m: "segment_at E s m rs" and rd: "read_path E (seg_path s m) s = (Inr f, s')"
  shows "read_header f = Inr 2 \<and> (\<exists>dir. read_footer (en_ext E) f = Inr dir \<and> load_keys (en_ext E) f dir = Inr (key_section rs) \<and>
           (\<forall>n col j. load_label (en_ext E) f dir n = Inr col \<longrightarrow> j < length rs \<longrightarrow>
              (label_is_one col j \<longleftrightarrow> fmlookup (rec_labels (rs ! j)) n = Some (lit ''1''))))"
proof -
  let ?U = "en_unicode E" and ?X = "en_ext E"
  have X: "codec_rmp_ok ?X" and rs: "seg_records rs" and enc: "encode_v2 ?U ?X rs = Inr f" and len: "length f < 2 ^ 32"
    using E m read_path_result [OF rd] by (auto simp: env_ok_def segment_at_def)
  obtain blocks dir where f: "v2_file ?U ?X rs blocks dir f" using encode_v2_file [OF enc] by blast
  have "read_footer ?X f = Inr (file_dir ?U ?X rs blocks)" unfolding file_dir_def by (rule v2_footer(2) [OF X f]) (use len in simp)
  with load_keys_ok [OF X rs f len] label_column_read [OF X rs f len] v2_file_header(2) [OF f] show ?thesis by (auto simp: VERSION_V2_def)
qed

lemma zone_may_have_label:
  assumes "segment_at E s m rs" and "r \<in> set rs" and "fmlookup (rec_labels r) n = Some (lit ''1'')"
  shows "zone_may_have m n"
proof -
  have "covers (sm_zone m) r" using assms(1,2) zone_build_covers by (auto simp: segment_at_def)
  then have "label_covered (zm_labels (sm_zone m)) n (lit ''1'')" using assms(3) by (simp add: covers_def)
  then show ?thesis by (auto simp: label_covered_def zone_may_have_def split: option.splits)
qed

lemma zone_overlap_key:
  assumes "segment_at E s a xs" and "segment_at E s b ys" and "x \<in> set xs" and "y \<in> set ys" and "rec_key x = rec_key y"
  shows "zone_overlap a b"
proof -
  have "covers (sm_zone a) x" "covers (sm_zone b) y" using assms(1-4) zone_build_covers by (auto simp: segment_at_def)
  with assms(5) show ?thesis unfolding zone_overlap_def covers_def by (metis order_trans)
qed

section \<open>The evidence\<close>

lemma shadow_row_eq:
  "shadow_row nkeys d k b =
     (fst b \<or> (\<exists>j. ks_find nkeys k = Some j \<and> \<not> d j), snd b \<or> (\<exists>j. ks_find nkeys k = Some j \<and> d j))"
  by (cases b) (auto simp: shadow_row_def split: option.splits)

lemma shadow_evidence_result:
  assumes "env_ok E" and "shadow_evidence E keys ms acc s = (Inr acc', s')" and "\<forall>m \<in> set ms. segment_at E s m (c m)"
  shows "s' = s\<lparr> so_io := so_io s' \<rparr> \<and> length acc' = length acc \<and>
    (\<forall>i < length acc. acc' ! i =
       (fst (acc ! i) \<or> (\<exists>m \<in> set ms. \<exists>r \<in> set (c m). rec_key r = ks_key_at keys i \<and> \<not> is_delta r),
        snd (acc ! i) \<or> (\<exists>m \<in> set ms. \<exists>r \<in> set (c m). rec_key r = ks_key_at keys i \<and> is_delta r)))"
  using assms(2,3)
proof (induction ms arbitrary: acc s)
  case (Cons m ms)
  let ?X = "en_ext E"
  have m: "segment_at E s m (c m)" using Cons.prems(2) by simp
  have rs: "seg_records (c m)" and X: "codec_rmp_ok ?X" using m assms(1) by (simp_all add: segment_at_def env_ok_def)
  obtain f s1 where rd: "read_path E (seg_path s m) s = (Inr f, s1)"
    using Cons.prems(1) by (auto simp: bind_act_Inr)
  from segment_sections [OF assms(1) m rd] obtain dir where h: "read_header f = Inr 2" "read_footer ?X f = Inr dir"
    "load_keys ?X f dir = Inr (key_section (c m))"
    and lab: "\<And>n col j. load_label ?X f dir n = Inr col \<Longrightarrow> j < length (c m) \<Longrightarrow>
       label_is_one col j \<longleftrightarrow> fmlookup (rec_labels (c m ! j)) n = Some (lit ''1'')" by blast
  obtain col where col: "if zone_may_have m DELTA_LABEL then \<exists>x. load_label ?X f dir DELTA_LABEL = Inr x \<and> col = Some x else col = None"
    and rest: "shadow_evidence E keys ms
       (map (\<lambda>i. shadow_row (key_section (c m)) (\<lambda>j. case col of None \<Rightarrow> False | Some col \<Rightarrow> label_is_one col j) (ks_key_at keys i) (acc ! i)) [0..<length acc]) s1 = (Inr acc', s')"
    using Cons.prems(1) by (auto simp: rd h bind_act_Inr of_result_def ret_def split: if_splits)
  have d: "(case col of None \<Rightarrow> False | Some col \<Rightarrow> label_is_one col j) \<longleftrightarrow> is_delta (c m ! j)" if j: "j < length (c m)" for j
  proof (cases "zone_may_have m DELTA_LABEL")
    case True
    with col lab [OF _ j] show ?thesis by (auto simp: is_delta_def)
  next
    case False
    then have "\<not> is_delta (c m ! j)" using zone_may_have_label [OF m nth_mem [OF j]] by (auto simp: is_delta_def)
    with False col show ?thesis by simp
  qed
  have find: "(\<exists>j. ks_find (key_section (c m)) k = Some j \<and> P j) \<longleftrightarrow> (\<exists>j < length (c m). rec_key (c m ! j) = k \<and> P j)" for k P
    using key_section_rows(3) [OF X rs] by auto
  have s1: "s1 = s\<lparr> so_io := so_io s + 1 \<rparr>" using read_path_result [OF rd] by simp
  then have "\<forall>m \<in> set ms. segment_at E s1 m (c m)" using Cons.prems(2) by (simp add: segment_at_def seg_path_def)
  from Cons.IH [OF rest this] have IH: "s' = s1\<lparr> so_io := so_io s' \<rparr>" "length acc' = length acc"
    "\<And>i. i < length acc \<Longrightarrow> acc' ! i =
       (fst (acc ! i) \<or> (\<exists>j < length (c m). rec_key (c m ! j) = ks_key_at keys i \<and> \<not> is_delta (c m ! j)) \<or>
          (\<exists>m \<in> set ms. \<exists>r \<in> set (c m). rec_key r = ks_key_at keys i \<and> \<not> is_delta r),
        snd (acc ! i) \<or> (\<exists>j < length (c m). rec_key (c m ! j) = ks_key_at keys i \<and> is_delta (c m ! j)) \<or>
          (\<exists>m \<in> set ms. \<exists>r \<in> set (c m). rec_key r = ks_key_at keys i \<and> is_delta r))"
    by (simp_all add: shadow_row_eq find d cong: conj_cong)
  have "s' = s\<lparr> so_io := so_io s' \<rparr>" by (subst IH(1), subst s1) simp
  moreover have rows: "(\<exists>j < length (c m). rec_key (c m ! j) = k \<and> P (c m ! j)) \<longleftrightarrow> (\<exists>r \<in> set (c m). rec_key r = k \<and> P r)" for k P
    by (metis in_set_conv_nth)
  note rows [of _ "\<lambda>r. \<not> is_delta r"] rows [of _ is_delta]
  ultimately show ?case using IH(2,3) by simp
qed (simp add: ret_def)

lemma below_evidence_result:
  assumes "env_ok E" and "below_evidence E keys tomb ms below s = (Inr below', s')" and "\<forall>m \<in> set ms. segment_at E s m (c m)"
  shows "s' = s\<lparr> so_io := so_io s' \<rparr> \<and> length below' = length below \<and>
    (\<forall>i < length below. \<not> below' ! i \<longrightarrow> \<not> below ! i \<and>
       (tomb ! i \<longrightarrow> (\<forall>m \<in> set ms. \<forall>r \<in> set (c m). rec_key r \<noteq> ks_key_at keys i)))"
  using assms(2,3)
proof (induction ms arbitrary: below s)
  case (Cons m ms)
  let ?X = "en_ext E" and ?needs = "\<lambda>i. tomb ! i \<and> \<not> below ! i \<and> in_zone m (ks_key_at keys i)"
  have m: "segment_at E s m (c m)" using Cons.prems(2) by simp
  have rs: "seg_records (c m)" and X: "codec_rmp_ok ?X" using m assms(1) by (simp_all add: segment_at_def env_ok_def)
  have zone: "in_zone m (rec_key r)" if "r \<in> set (c m)" for r
    using m that zone_build_covers [OF that] by (simp add: in_zone_def segment_at_def covers_def)
  show ?case
  proof (cases "list_ex ?needs [0..<length below]")
    case False
    then have "below_evidence E keys tomb ms below s = (Inr below', s')" using Cons.prems(1) by (simp add: Let_def)
    from Cons.IH [OF this] Cons.prems(2) have IH: "s' = s\<lparr> so_io := so_io s' \<rparr> \<and> length below' = length below \<and>
      (\<forall>i < length below. \<not> below' ! i \<longrightarrow> \<not> below ! i \<and> (tomb ! i \<longrightarrow> (\<forall>m \<in> set ms. \<forall>r \<in> set (c m). rec_key r \<noteq> ks_key_at keys i)))" by simp
    have "rec_key r \<noteq> ks_key_at keys i" if "i < length below" "tomb ! i" "\<not> below ! i" "r \<in> set (c m)" for i r
      using False that zone [OF that(4)] by (auto simp: list_ex_iff)
    with IH show ?thesis by auto
  next
    case True
    with Cons.prems(1) obtain f s1 where rd: "read_path E (seg_path s m) s = (Inr f, s1)" by (auto simp: bind_act_Inr Let_def)
    from segment_sections [OF assms(1) m rd] obtain dir where h: "read_header f = Inr 2" "read_footer ?X f = Inr dir"
      "load_keys ?X f dir = Inr (key_section (c m))" by blast
    let ?b = "map (\<lambda>i. below ! i \<or> ?needs i \<and> ks_find (key_section (c m)) (ks_key_at keys i) \<noteq> None) [0..<length below]"
    have rest: "below_evidence E keys tomb ms ?b s1 = (Inr below', s')"
      using Cons.prems(1) True by (auto simp: Let_def rd h bind_act_Inr of_result_def)
    have s1: "s1 = s\<lparr> so_io := so_io s + 1 \<rparr>" using read_path_result [OF rd] by simp
    then have "\<forall>m \<in> set ms. segment_at E s1 m (c m)" using Cons.prems(2) by (simp add: segment_at_def seg_path_def)
    from Cons.IH [OF rest this] have IH: "s' = s1\<lparr> so_io := so_io s' \<rparr>" "length below' = length below"
      "\<And>i. i < length below \<Longrightarrow> \<not> below' ! i \<Longrightarrow> \<not> ?b ! i \<and> (tomb ! i \<longrightarrow> (\<forall>m \<in> set ms. \<forall>r \<in> set (c m). rec_key r \<noteq> ks_key_at keys i))"
      by (simp, simp, auto)
    have "s' = s\<lparr> so_io := so_io s' \<rparr>" by (subst IH(1), subst s1) simp
    moreover have "\<not> below ! i \<and> (tomb ! i \<longrightarrow> (\<forall>x \<in> set (m # ms). \<forall>r \<in> set (c x). rec_key r \<noteq> ks_key_at keys i))"
      if i: "i < length below" "\<not> below' ! i" for i
    proof -
      have b: "\<not> below ! i" "\<not> (?needs i \<and> ks_find (key_section (c m)) (ks_key_at keys i) \<noteq> None)" using IH(3) [OF i] i(1) by auto
      have "rec_key r \<noteq> ks_key_at keys i" if r: "tomb ! i" "r \<in> set (c m)" for r
      proof
        assume k: "rec_key r = ks_key_at keys i"
        obtain j where "j < length (c m)" "c m ! j = r" using r(2) by (auto simp: in_set_conv_nth)
        then have "ks_find (key_section (c m)) (ks_key_at keys i) = Some j" using key_section_rows(3) [OF X rs] k by blast
        with b r(1) zone [OF r(2)] k show False by auto
      qed
      with b(1) IH(3) [OF i] show ?thesis by auto
    qed
    ultimately show ?thesis using IH(2) by simp
  qed
qed (simp add: ret_def)

text \<open>
  A row that may go: no newer segment has an increment of its key, and either a newer segment has a
  full record of it or the row is a tombstone with nothing below.
\<close>

definition removable :: "SegmentMeta list \<Rightarrow> (SegmentMeta \<Rightarrow> Record list) \<Rightarrow> SegmentMeta \<Rightarrow> Record \<Rightarrow> bool" where
  "removable L c cand r \<longleftrightarrow>
     \<not> (\<exists>m \<in> set L. sm_id cand < sm_id m \<and> (\<exists>x \<in> set (c m). rec_key x = rec_key r \<and> is_delta x)) \<and>
     ((\<exists>m \<in> set L. sm_id cand < sm_id m \<and> (\<exists>x \<in> set (c m). rec_key x = rec_key r \<and> \<not> is_delta x)) \<or>
      is_tombstone r \<and> \<not> (\<exists>m \<in> set L. sm_id m < sm_id cand \<and> (\<exists>x \<in> set (c m). rec_key x = rec_key r)))"

lemma tomb_rows_result:
  assumes tr: "tomb_rows E cand f dir (length rs) s = (Inr tomb, s')" and m: "segment_at E s cand rs" and i: "i < length rs"
    and lab: "\<And>n col j. load_label (en_ext E) f dir n = Inr col \<Longrightarrow> j < length rs \<Longrightarrow>
       label_is_one col j \<longleftrightarrow> fmlookup (rec_labels (rs ! j)) n = Some (lit ''1'')"
  shows "s' = s" "length tomb = length rs" "tomb ! i \<longleftrightarrow> is_tombstone (rs ! i)"
proof -
  have "s' = s \<and> length tomb = length rs \<and> (tomb ! i \<longleftrightarrow> is_tombstone (rs ! i))"
  proof (cases "zone_may_have cand TOMBSTONE_LABEL")
    case True
    then obtain col where "load_label (en_ext E) f dir TOMBSTONE_LABEL = Inr col" "tomb = map (label_is_one col) [0..<length rs]" "s' = s"
      using tr by (auto simp: tomb_rows_def bind_act_Inr of_result_def ret_def)
    with lab i show ?thesis by (simp add: is_tombstone_def)
  next
    case False
    then have "\<not> is_tombstone (rs ! i)" using zone_may_have_label [OF m nth_mem [OF i]] by (auto simp: is_tombstone_def)
    with False tr i show ?thesis by (auto simp: tomb_rows_def ret_def)
  qed
  then show "s' = s" "length tomb = length rs" "tomb ! i \<longleftrightarrow> is_tombstone (rs ! i)" by simp_all
qed

lemma newer_evidence:
  assumes L: "\<forall>m \<in> set L. segment_at E s m (c m)" and cand: "cand \<in> set L" and r: "r \<in> set (c cand)"
  shows "(\<exists>m \<in> set (newer_overlaps L cand). \<exists>x \<in> set (c m). rec_key x = rec_key r \<and> P x) \<longleftrightarrow>
         (\<exists>m \<in> set L. sm_id cand < sm_id m \<and> (\<exists>x \<in> set (c m). rec_key x = rec_key r \<and> P x))"
proof -
  have "zone_overlap m cand" if "m \<in> set L" "x \<in> set (c m)" "rec_key x = rec_key r" for m x
    using zone_overlap_key [of E s m "c m" cand "c cand" x r] L cand r that by blast
  then show ?thesis unfolding newer_overlaps_def set_filter by blast
qed

lemma older_evidence:
  assumes L: "\<forall>m \<in> set L. segment_at E s m (c m)" and cand: "cand \<in> set L" and r: "r \<in> set (c cand)" and t: "is_tombstone r"
  shows "(\<exists>m \<in> set (older_overlaps L cand). \<exists>x \<in> set (c m). rec_key x = rec_key r) \<longleftrightarrow>
         (\<exists>m \<in> set L. sm_id m < sm_id cand \<and> (\<exists>x \<in> set (c m). rec_key x = rec_key r))"
proof -
  have o: "zone_overlap m cand" if "m \<in> set L" "x \<in> set (c m)" "rec_key x = rec_key r" for m x
    using zone_overlap_key [of E s m "c m" cand "c cand" x r] L cand r that by blast
  have "zone_may_have cand TOMBSTONE_LABEL"
    using zone_may_have_label [of E s cand "c cand" r] L cand r t by (simp add: is_tombstone_def)
  with o show ?thesis unfolding older_overlaps_def by (simp only: if_True set_filter) blast
qed

lemma bind_of_result: "bind_act (of_result (Inr x)) f = f x"
  by (simp add: fun_eq_iff bind_act_def of_result_def)

lemma reclaim_audit_result:
  assumes E: "env_ok E" and L: "\<forall>m \<in> set L. segment_at E s m (c m)" and cand: "cand \<in> set L"
    and audit: "reclaim_audit E cand (newer_overlaps L cand) (older_overlaps L cand) s = (Inr n, s')"
  shows "s' = s\<lparr> so_io := so_io s' \<rparr> \<or>
    (\<exists>io dead. reclaim_rewrite E cand (key_section (c cand)) dead (s\<lparr> so_io := io \<rparr>) = (Inr n, s') \<and>
       length dead = length (c cand) \<and> (\<forall>i < length (c cand). dead ! i \<longrightarrow> removable L c cand (c cand ! i)))"
proof -
  let ?X = "en_ext E" and ?rs = "c cand" and ?N = "newer_overlaps L cand" and ?O = "older_overlaps L cand"
  have m: "segment_at E s cand ?rs" using L cand by blast
  have rs: "seg_records ?rs" and X: "codec_rmp_ok ?X" using m E by (simp_all add: segment_at_def env_ok_def)
  obtain f s1 where rd: "read_path E (seg_path s cand) s = (Inr f, s1)" using audit by (auto simp: reclaim_audit_def bind_act_Inr)
  from segment_sections [OF E m rd] obtain dir where h: "read_header f = Inr 2" "read_footer ?X f = Inr dir"
    "load_keys ?X f dir = Inr (key_section ?rs)"
    and lab: "\<And>n col j. load_label ?X f dir n = Inr col \<Longrightarrow> j < length ?rs \<Longrightarrow>
       label_is_one col j \<longleftrightarrow> fmlookup (rec_labels (?rs ! j)) n = Some (lit ''1'')" by blast
  note keys = key_section_rows [OF X rs]
  have ne: "?rs \<noteq> []" using m by (simp add: segment_at_def)
  have s1: "s1 = s\<lparr> so_io := so_io s + 1 \<rparr>" using read_path_result [OF rd] by simp
  have L1: "\<forall>m \<in> set L. segment_at E (s\<lparr> so_io := io \<rparr>) m (c m)" for io using L by (simp add: segment_at_def seg_path_def)
  from audit have "bind_act (shadow_evidence E (key_section ?rs) ?N (replicate (length ?rs) (False, False))) (\<lambda>shadow.
      bind_act (tomb_rows E cand f dir (length ?rs)) (\<lambda>tomb.
      bind_act (if list_ex (\<lambda>t. t) tomb then below_evidence E (key_section ?rs) tomb ?O (replicate (length ?rs) False)
        else ret (replicate (length ?rs) False)) (\<lambda>below.
        if length (filter (\<lambda>d. d) (dead_rows shadow tomb below)) * 2 < length ?rs then ret 0
        else reclaim_rewrite E cand (key_section ?rs) (dead_rows shadow tomb below)))) s1 = (Inr n, s')"
    using ne unfolding reclaim_audit_def bind_act_def [of "read_path E (seg_path s cand)"] rd
    by (simp add: bind_of_result h keys(1) Let_def cong: if_cong)
  then obtain shadow s2 tomb s3 below s4 where
    sh: "shadow_evidence E (key_section ?rs) ?N (replicate (length ?rs) (False, False)) s1 = (Inr shadow, s2)"
    and tr: "tomb_rows E cand f dir (length ?rs) s2 = (Inr tomb, s3)"
    and be: "(if list_ex (\<lambda>t. t) tomb then below_evidence E (key_section ?rs) tomb ?O (replicate (length ?rs) False)
        else ret (replicate (length ?rs) False)) s3 = (Inr below, s4)"
    and rest: "(if length (filter (\<lambda>d. d) (dead_rows shadow tomb below)) * 2 < length ?rs then ret 0
        else reclaim_rewrite E cand (key_section ?rs) (dead_rows shadow tomb below)) s4 = (Inr n, s')"
    unfolding bind_act_Inr by blast
  have N: "set ?N \<subseteq> set L" "set ?O \<subseteq> set L" by (auto simp: newer_overlaps_def older_overlaps_def)
  have "\<forall>m \<in> set ?N. segment_at E s1 m (c m)" using L1 N(1) s1 by blast
  from shadow_evidence_result [OF E sh this] have s2: "s2 = s1\<lparr> so_io := so_io s2 \<rparr>" and shl: "length shadow = length ?rs"
    and shadow: "\<And>i. i < length ?rs \<Longrightarrow> shadow ! i =
       ((\<exists>m \<in> set ?N. \<exists>r \<in> set (c m). rec_key r = rec_key (?rs ! i) \<and> \<not> is_delta r),
        (\<exists>m \<in> set ?N. \<exists>r \<in> set (c m). rec_key r = rec_key (?rs ! i) \<and> is_delta r))" using keys(2) by auto
  have io2: "s2 = s\<lparr> so_io := so_io s2 \<rparr>" by (subst s2, subst s1) simp
  have m2: "segment_at E s2 cand ?rs" by (subst io2) (use L1 cand in blast)
  note T = tomb_rows_result [OF tr m2 _ lab]
  have s3: "s3 = s2" "length tomb = length ?rs" using T(1,2) ne by blast+
  have B: "s4 = s3\<lparr> so_io := so_io s4 \<rparr> \<and>
    (\<forall>i < length ?rs. tomb ! i \<longrightarrow> \<not> below ! i \<longrightarrow> (\<forall>m \<in> set ?O. \<forall>r \<in> set (c m). rec_key r \<noteq> rec_key (?rs ! i)))"
  proof (cases "list_ex (\<lambda>t. t) tomb")
    case True
    have "\<forall>m \<in> set ?O. segment_at E s3 m (c m)" unfolding s3 by (subst io2) (use L1 N(2) in blast)
    note R = below_evidence_result [OF E be [unfolded if_P [OF True]] this]
    from conjunct2 [OF R] keys(2) have "\<forall>i < length ?rs. tomb ! i \<longrightarrow> \<not> below ! i \<longrightarrow>
        (\<forall>m \<in> set ?O. \<forall>r \<in> set (c m). rec_key r \<noteq> rec_key (?rs ! i))" by simp
    with conjunct1 [OF R] show ?thesis by (rule conjI)
  next
    case False
    then have "s4 = s3" using be by (simp add: ret_def)
    moreover have "\<not> tomb ! i" if "i < length ?rs" for i
      using False nth_mem [of i tomb] that unfolding list_ex_iff s3(2) by blast
    ultimately show ?thesis by simp
  qed
  have s4: "s4 = s\<lparr> so_io := so_io s4 \<rparr>" by (subst conjunct1 [OF B], subst s3(1), subst io2) simp
  show ?thesis
  proof (cases "length (filter (\<lambda>d. d) (dead_rows shadow tomb below)) * 2 < length ?rs")
    case True
    with rest have "s' = s4" by (simp add: ret_def)
    with s4 show ?thesis by simp
  next
    case False
    let ?dead = "dead_rows shadow tomb below"
    have "removable L c cand (?rs ! i)" if i: "i < length ?rs" "?dead ! i" for i
    proof -
      have r: "?rs ! i \<in> set ?rs" using i(1) by simp
      note new = newer_evidence [OF L cand r]
      have d: "fst (shadow ! i) \<and> \<not> snd (shadow ! i) \<or> tomb ! i \<and> \<not> snd (shadow ! i) \<and> \<not> below ! i"
        using i shl by (simp add: dead_rows_def split: prod.splits)
      have t: "tomb ! i \<longleftrightarrow> is_tombstone (?rs ! i)" by (rule T(3) [OF i(1)])
      have "fst (shadow ! i) \<longleftrightarrow> (\<exists>m \<in> set L. sm_id cand < sm_id m \<and> (\<exists>x \<in> set (c m). rec_key x = rec_key (?rs ! i) \<and> \<not> is_delta x))"
        "snd (shadow ! i) \<longleftrightarrow> (\<exists>m \<in> set L. sm_id cand < sm_id m \<and> (\<exists>x \<in> set (c m). rec_key x = rec_key (?rs ! i) \<and> is_delta x))"
        unfolding shadow [OF i(1)] fst_conv snd_conv by (rule new)+
      moreover have "\<not> (\<exists>m \<in> set L. sm_id m < sm_id cand \<and> (\<exists>x \<in> set (c m). rec_key x = rec_key (?rs ! i)))" if "tomb ! i" "\<not> below ! i"
        using older_evidence [OF L cand r] conjunct2 [OF B] i(1) t that by blast
      ultimately show ?thesis unfolding removable_def using d t by blast
    qed
    moreover have "length ?dead = length ?rs" by (simp add: dead_rows_def shl)
    moreover have "reclaim_rewrite E cand (key_section ?rs) ?dead (s\<lparr> so_io := so_io s4 \<rparr>) = (Inr n, s')"
      using rest False s4 by simp
    ultimately show ?thesis by blast
  qed
qed

section \<open>The rewrite\<close>

lemma forget_file_frame:
  assumes "forget_file E p m s = (r, s')"
  shows "so_engine s' = so_engine s" "q \<noteq> p \<Longrightarrow> fmlookup (so_disk s') q = fmlookup (so_disk s) q"
proof -
  obtain r1 s1 where p: "perform E (FsRemove p) s = (r1, s1)" by fastforce
  then have s': "s' = invalidate_cache m s1" using assms by (auto simp: forget_file_def bind_act_def ignore_err_def put_state_def)
  show "so_engine s' = so_engine s" using same_core_sel(1) [OF perform_core [OF p]] by (simp add: s' invalidate_cache_def)
  show "q \<noteq> p \<Longrightarrow> fmlookup (so_disk s') q = fmlookup (so_disk s) q"
    using perform_other [of q "FsRemove p" E s] by (simp add: s' invalidate_cache_def p)
qed

lemma other_paths:
  assumes man: "manifest_ok (so_manifest s)" and m: "m \<in> set (mf_segments (so_manifest s))" "x \<in> set (mf_segments (so_manifest s))" "m \<noteq> x"
    and loc: "sm_tier m \<noteq> Remote" "sm_tier x \<noteq> Remote"
  shows "seg_path s m \<noteq> seg_path s x"
proof -
  have "sm_file m \<noteq> sm_file x" using man m by (auto simp: manifest_ok_def distinct_map inj_on_def)
  with manifest_paths [OF man m(1) loc(1)] manifest_paths [OF man m(2) loc(2)] show ?thesis by auto
qed

lemma replace_compacted:
  assumes E: "env_ok E" and s: "store_ok E s" and cand: "cand \<in> set (mf_segments (so_manifest s))"
    and rp: "replace_segment E cand (gc_hot_dir (so_config s)) Hot rs s = (Inr (), s1)"
    and fg: "forget_file E (seg_path s cand) cand s1 = (Inr (), s')"
  shows "\<exists>m. compacted E s [cand] [rs] [m] s'"
proof -
  let ?M = "so_manifest s" and ?n = "mf_next_segment_id (so_manifest s)"
  let ?p = "gc_hot_dir (so_config s) @ [seg_file ?n]"
  let ?s0 = "set_manifest (\<lambda>m. m\<lparr> mf_next_segment_id := mf_next_segment_id m + 1 \<rparr>) s"
  let ?m = "\<lambda>z b. \<lparr> sm_id = sm_id cand, sm_file = seg_file ?n, sm_tier = Hot, sm_zone = z, sm_bytes = b, sm_created = sm_created cand \<rparr>"
  from rp obtain z s2 where w: "write_sorted E ?p rs ?s0 = (Inr z, s2)"
    and st: "store_manifest E (set_manifest (swap_run [sm_id cand] [?m z (file_len ?p s2)]) s2) = (Inr (), s1)"
    unfolding replace_segment_def by (auto simp: bind_act_Inr alloc_seq_def get_state_def put_state_def Let_def)
  define m where "m = ?m z (file_len ?p s2)"
  have man: "manifest_ok ?M" using s by (simp add: store_ok_def)
  note loc = store_segments(2) [OF E s]
  from write_sorted_disk [OF w] obtain f where f: "encode_v2 (en_unicode E) (en_ext E) rs = Inr f" "fmlookup (so_disk s2) ?p = Some f"
    and other: "\<And>p'. seg_named p' \<Longrightarrow> p' \<noteq> ?p \<Longrightarrow> fmlookup (so_disk s2) p' = fmlookup (so_disk s) p'"
    by (auto simp: set_manifest_def)
  have z: "z = zone_build rs" by (rule write_sorted_zone [OF w])
  have e2: "so_engine s2 = so_engine ?s0" by (rule same_core_sel(1) [OF write_sorted_core [OF w]])
  have e1: "so_engine s1 = so_engine (set_manifest (swap_run [sm_id cand] [m]) s2)"
    unfolding m_def by (rule same_core_sel(1) [OF store_manifest_core [OF st]])
  have e: "so_engine s' = (so_engine s)\<lparr> ei_manifest := swap_run [sm_id cand] [m] (?M\<lparr> mf_next_segment_id := ?n + 1 \<rparr>) \<rparr>"
    unfolding forget_file_frame(1) [OF fg] e1 by (simp add: set_manifest_def e2)
  have path: "seg_path s' = seg_path s" by (simp add: fun_eq_iff seg_path_def e)
  have d: "fmlookup (so_disk s') q = fmlookup (so_disk s2) q" if "seg_named q" "q \<noteq> seg_path s cand" for q
    using forget_file_frame(2) [OF fg that(2)] store_manifest_disk [OF st that(1)] by (simp add: set_manifest_def)
  have old: "seg_named (seg_path s x) \<and> seg_path s x \<noteq> ?p" if "x \<in> set (mf_segments ?M)" for x
    using manifest_paths [OF man that loc [OF that]] by auto
  have "chunk_written E s' m rs"
  proof -
    have "seg_path s m = ?p" by (simp add: m_def seg_path_def segment_path_def)
    moreover have "?p \<noteq> seg_path s cand" using old [OF cand] by metis
    ultimately show ?thesis using d [of ?p] f z by (simp add: chunk_written_def path m_def file_len_def)
  qed
  moreover have "fmlookup (so_disk s') (seg_path s x) = fmlookup (so_disk s) (seg_path s x)"
    if x: "x \<in> set (mf_segments ?M)" "sm_id x \<notin> set (map sm_id [cand])" for x
  proof -
    have "seg_path s x \<noteq> seg_path s cand" using other_paths [OF man x(1) cand _ loc [OF x(1)] loc [OF cand]] x(2) by auto
    with d other old [OF x(1)] show ?thesis by simp
  qed
  ultimately show ?thesis by (intro exI [of _ m]) (auto simp: compacted_def e m_def)
qed

lemma unlist_compacted:
  assumes E: "env_ok E" and s: "store_ok E s" and cand: "cand \<in> set (mf_segments (so_manifest s))"
    and ul: "unlist_segment E cand s = (Inr (), s1)"
    and s': "s' = invalidate_cache cand (snd (drop_segment_file E cand s1))"
  shows "compacted E s [cand] [] [] s'"
proof -
  let ?M = "so_manifest s"
  have man: "manifest_ok ?M" using s by (simp add: store_ok_def)
  note loc = store_segments(2) [OF E s]
  have st: "store_manifest E (set_manifest (swap_run [sm_id cand] []) s) = (Inr (), s1)"
    using ul by (auto simp: unlist_segment_def bind_act_Inr put_state_def)
  have e1: "so_engine s1 = so_engine (set_manifest (swap_run [sm_id cand] []) s)" by (rule same_core_sel(1) [OF store_manifest_core [OF st]])
  have e: "so_engine s' = (so_engine s)\<lparr> ei_manifest := swap_run [sm_id cand] [] ?M \<rparr>"
    by (simp add: s' invalidate_cache_def drop_segment_engine e1 set_manifest_def)
  have path: "seg_path s1 = seg_path s" by (simp add: fun_eq_iff seg_path_def e1 set_manifest_def)
  have dr: "drop_inputs E [cand] s1 = (Inr (), s')"
    by (simp add: s' bind_act_def ignore_err_def put_state_def ret_def)
  have "fmlookup (so_disk s') (seg_path s x) = fmlookup (so_disk s) (seg_path s x)"
    if x: "x \<in> set (mf_segments ?M)" "sm_id x \<notin> set (map sm_id [cand])" for x
  proof -
    have "seg_path s x \<noteq> seg_path s cand" using other_paths [OF man x(1) cand _ loc [OF x(1)] loc [OF cand]] x(2) by auto
    then have "fmlookup (so_disk s') (seg_path s x) = fmlookup (so_disk s1) (seg_path s x)"
      using drop_inputs_disk [OF dr, of "seg_path s x"] loc [OF cand] by (simp add: path)
    moreover have "seg_named (seg_path s x)" using manifest_paths [OF man x(1) loc [OF x(1)]] by auto
    ultimately show ?thesis using store_manifest_disk [OF st] by (simp add: set_manifest_def)
  qed
  then show ?thesis by (auto simp: compacted_def e swap_run_def)
qed

section \<open>What a key shows\<close>

definition shown :: "Record list \<Rightarrow> Record option" where
  "shown vs = (case folded vs of None \<Rightarrow> None | Some r \<Rightarrow> if is_tombstone (finish_fold r) then None else Some (finish_fold r))"

lemma shown_past_full:
  assumes "\<forall>v \<in> set vs. \<not> is_delta v" and "vs \<noteq> []"
  shows "shown (p @ vs @ q) = shown (p @ vs)"
proof -
  obtain v ws where vs: "vs = v # ws" and v: "\<not> is_delta v" using assms by (cases vs) auto
  have "fold_run x (vs @ q) = fold_run x vs" for x unfolding vs append_Cons by (subst (1 2) fold_run_base [OF v]) simp
  then show ?thesis by (simp add: shown_def folded_def fold_run_append split: sum.split)
qed

lemma shown_end_tombstone:
  assumes "is_tombstone r"
  shows "shown (p @ [r]) = shown p"
proof (cases "fold_run None p")
  case (Inr x)
  then show ?thesis by (simp add: shown_def folded_def fold_run_append)
next
  case (Inl q)
  have clear: "finish_fold (clear_delta x) = finish_fold x" "\<not> is_delta (clear_delta x)" for x
    by (simp_all add: finish_fold_def clear_delta_def is_delta_def)
  show ?thesis
  proof (cases q)
    case None
    then show ?thesis using Inl assms by (simp add: shown_def folded_def fold_run_append feed_version_def)
  next
    case (Some x)
    then show ?thesis using Inl assms clear by (simp add: shown_def folded_def fold_run_append feed_version_def merge_delta_def)
  qed
qed

lemma store_get_shown:
  assumes "env_ok E" and "store_ok E s"
  shows "store_get E s k = Inr (shown (versions (store_sources E s) k))"
  by (simp add: store_get_visible [OF assms] visible_lookup shown_def option.case_eq_if option.map_sel)

lemma filter_values_cong:
  assumes keyed: "keyed a" "keyed b" and P: "\<And>r. P r \<Longrightarrow> Q r"
    and same: "\<And>k. (case fmlookup a k of None \<Rightarrow> None | Some r \<Rightarrow> if Q r then Some r else None) =
                 (case fmlookup b k of None \<Rightarrow> None | Some r \<Rightarrow> if Q r then Some r else None)"
  shows "filter P (bt_values a) = filter P (bt_values b)"
proof -
  have iff: "fmlookup a k = Some r \<longleftrightarrow> fmlookup b k = Some r" if "P r" for k r
    using same [of k] P [OF that] by (auto split: option.splits if_splits)
  then have set: "set (filter P (bt_values a)) = set (filter P (bt_values b))" by (auto simp: bt_values_iff)
  have sorted: "sorted (map rec_key (filter P (bt_values m))) \<and> distinct (map rec_key (filter P (bt_values m)))" if "keyed m" for m
  proof -
    have "sorted_wrt (<) (map rec_key (bt_values m))" unfolding keyed_values_keys [OF that] by simp
    then have "sorted_wrt (<) (map rec_key (filter P (bt_values m)))" unfolding sorted_wrt_map by (rule sorted_wrt_filter)
    then show ?thesis by (simp only: strict_sorted_iff)
  qed
  show ?thesis
  proof (rule map_sorted_distinct_set_unique)
    show "inj_on rec_key (set (filter P (bt_values a)) \<union> set (filter P (bt_values b)))"
      using sorted [OF keyed(1)] by (simp only: set [symmetric] Un_absorb distinct_map)
  qed (use sorted [OF keyed(1)] sorted [OF keyed(2)] set in simp_all)
qed

lemma shown_reads:
  assumes E: "env_ok E" and s: "store_ok E s" "store_ok E s'"
    and same: "\<And>k. shown (versions (store_sources E s') k) = shown (versions (store_sources E s) k)"
  shows "store_get E s' k = store_get E s k" and "store_scan E s' spec = store_scan E s spec"
proof -
  show "store_get E s' k = store_get E s k" by (simp add: store_get_shown E s same)
  have key: "keyed (visible (store_sources E s))" if "store_ok E s" for s
    by (rule keyed_visible [OF engine_sources_keyed [OF store_engine_ok(1) [OF E that]]])
  have "filter (wanted (en_unicode E) spec) (bt_values (visible (store_sources E s'))) =
      filter (wanted (en_unicode E) spec) (bt_values (visible (store_sources E s)))"
  proof (rule filter_values_cong [OF key [OF s(2)] key [OF s(1)], where Q = "\<lambda>r. \<not> is_tombstone r"])
    show "(case fmlookup (visible (store_sources E s')) k of None \<Rightarrow> None | Some r \<Rightarrow> if \<not> is_tombstone r then Some r else None) =
        (case fmlookup (visible (store_sources E s)) k of None \<Rightarrow> None | Some r \<Rightarrow> if \<not> is_tombstone r then Some r else None)" for k
      using same [of k] by (simp add: visible_lookup shown_def option.case_eq_if option.map_sel split: if_splits)
  qed (simp add: wanted_def)
  then show "store_scan E s' spec = store_scan E s spec" by (simp add: store_scan_visible E s reference_scan_def)
qed

section \<open>Reclamation keeps the reads\<close>

lemma versions_in:
  "v \<in> set (versions (map (\<lambda>m. seg_map (c m)) ms) k) \<longleftrightarrow> (\<exists>m \<in> set ms. fmlookup (seg_map (c m)) k = Some v)"
  by (induction ms) (auto split: option.splits)

lemma removed_row_hidden:
  assumes L: "sort_key sm_id L = a @ [cand] @ b" "distinct (map sm_id L)"
    and sorted: "\<forall>m \<in> set L. sorted_wrt (<) (map rec_key (c m))" and r: "removable L c cand r" "rec_key r = k"
    and src: "src = (\<lambda>ms. map (\<lambda>m. seg_map (c m)) ms)"
  shows "shown (p @ versions (src (rev b)) k @ r # versions (src (rev a)) k) = shown (p @ versions (src (rev b)) k @ versions (src (rev a)) k)"
proof -
  have ids: "sorted_wrt (<) (map sm_id (a @ [cand] @ b))" using L(2) unfolding L(1) [symmetric] by (simp add: strict_sorted_iff distinct_map)
  then have ab: "\<forall>m \<in> set a. sm_id m < sm_id cand" "\<forall>m \<in> set b. sm_id cand < sm_id m" by (auto simp: sorted_wrt_append)
  have set: "set L = set a \<union> {cand} \<union> set b" using arg_cong [OF L(1), of set] by auto
  have at: "v \<in> set (versions (src (rev ms)) k) \<longleftrightarrow> (\<exists>m \<in> set ms. v \<in> set (c m) \<and> rec_key v = k)" if "set ms \<subseteq> set L" for ms v
  proof -
    have "fmlookup (seg_map (c m)) k = Some v \<longleftrightarrow> v \<in> set (c m) \<and> rec_key v = k" if "m \<in> set ms" for m
      using seg_map_lookup [of "c m" k v] sorted that \<open>set ms \<subseteq> set L\<close> by blast
    then show ?thesis unfolding src versions_in set_rev by blast
  qed
  have sub: "set a \<subseteq> set L" "set b \<subseteq> set L" unfolding set by blast+
  have nd: "\<forall>v \<in> set (versions (src (rev b)) k). \<not> is_delta v"
    using r(1) ab(2) sub(2) at [OF sub(2)] unfolding removable_def r(2) by blast
  show ?thesis
  proof (cases "versions (src (rev b)) k = []")
    case False
    then show ?thesis using shown_past_full [OF nd] by metis
  next
    case True
    then have none: "\<not> (\<exists>m \<in> set b. \<exists>x \<in> set (c m). rec_key x = k)" using at [OF sub(2)] by auto
    have "\<not> (\<exists>m \<in> set L. sm_id cand < sm_id m \<and> (\<exists>x \<in> set (c m). rec_key x = rec_key r \<and> \<not> is_delta x))"
      using none ab(1) r(2) less_asym unfolding set by blast
    then have t: "is_tombstone r" "\<not> (\<exists>m \<in> set L. sm_id m < sm_id cand \<and> (\<exists>x \<in> set (c m). rec_key x = k))"
      using r(1) unfolding removable_def r(2) by blast+
    then have "v \<notin> set (versions (src (rev a)) k)" for v using at [OF sub(1)] ab(1) sub(1) by blast
    then have "versions (src (rev a)) k = []" by (meson list.set_sel(1))
    with True show ?thesis using shown_end_tombstone [OF t(1)] by simp
  qed
qed

lemma survivors_shown:
  assumes L: "sort_key sm_id L = a @ [cand] @ b" "distinct (map sm_id L)"
    and sorted: "\<forall>m \<in> set L. sorted_wrt (<) (map rec_key (c m))"
    and dead: "\<forall>r \<in> set (c cand). rec_key r \<in> D \<longrightarrow> removable L c cand r"
    and surv: "surv = filter (\<lambda>r. rec_key r \<notin> D) (c cand)" and cs: "cs = (if surv = [] then [] else [surv])"
    and src: "src = (\<lambda>ms. map (\<lambda>m. seg_map (c m)) ms)"
  shows "shown (versions ((M @ src (rev b)) @ map seg_map (rev cs) @ src (rev a)) k) =
         shown (versions ((M @ src (rev b)) @ src (rev [cand]) @ src (rev a)) k)"
proof -
  have "cand \<in> set L" using arg_cong [OF L(1), of set] by auto
  then have sc: "sorted_wrt (<) (map rec_key (c cand))" using sorted by blast
  then have ss: "sorted_wrt (<) (map rec_key surv)" unfolding surv sorted_wrt_map by (rule sorted_wrt_filter)
  have one: "versions (map seg_map (rev cs)) k = (case fmlookup (seg_map surv) k of None \<Rightarrow> [] | Some r \<Rightarrow> [r])"
  proof (cases "surv = []")
    case True
    then have "fmlookup (seg_map surv) k = None" using seg_map_lookup [OF ss, of k] by (cases "fmlookup (seg_map surv) k") auto
    with True show ?thesis by (simp add: cs)
  qed (simp add: cs split: option.split)
  show ?thesis
  proof (cases "fmlookup (seg_map (c cand)) k")
    case None
    then have "fmlookup (seg_map surv) k = None"
      using seg_map_lookup [OF ss, of k] seg_map_lookup [OF sc, of k] by (cases "fmlookup (seg_map surv) k") (auto simp: surv)
    with None show ?thesis by (simp add: versions_append one src)
  next
    case (Some r)
    then have r: "r \<in> set (c cand)" "rec_key r = k" using seg_map_lookup [OF sc] by auto
    show ?thesis
    proof (cases "k \<in> D")
      case False
      then have "fmlookup (seg_map surv) k = Some r" using r seg_map_lookup [OF ss, of k r] by (auto simp: surv)
      with Some show ?thesis by (simp add: versions_append one src)
    next
      case True
      then have "fmlookup (seg_map surv) k = None"
        using seg_map_lookup [OF ss, of k] by (cases "fmlookup (seg_map surv) k") (auto simp: surv)
      moreover have "removable L c cand r" using dead r True by blast
      note removed_row_hidden [OF L sorted this r(2) refl, of "versions M k"]
      ultimately show ?thesis using Some by (simp add: versions_append one src)
    qed
  qed
qed

lemma reclaim_rewrite_compacted:
  assumes E: "env_ok E" and s: "store_ok E s" and cand: "cand \<in> set (mf_segments (so_manifest s))"
    and rw: "reclaim_rewrite E cand keys dead s = (Inr n, s')"
    and D: "D = set (map (ks_key_at keys) (filter (\<lambda>i. dead ! i) [0..<length dead]))"
    and surv: "surv = filter (\<lambda>r. rec_key r \<notin> D) (seg_content E s cand)"
  shows "\<exists>io outs. compacted E (s\<lparr> so_io := io \<rparr>) [cand] (if surv = [] then [] else [surv]) outs s'"
proof -
  obtain rs s1 where rd: "read_all E (seg_path s cand) s = (Inr rs, s1)" using rw by (auto simp: reclaim_rewrite_def Let_def bind_act_Inr)
  have rs: "rs = seg_content E s cand" and s1: "s1 = s\<lparr> so_io := so_io s1 \<rparr>" using read_all_result [OF rd] by simp_all
  let ?s1 = "s\<lparr> so_io := so_io s1 \<rparr>"
  have ok: "store_ok E ?s1" "cand \<in> set (mf_segments (so_manifest ?s1))" using s cand by (simp_all add: store_ok_io)
  have path: "seg_path s cand = seg_path ?s1 cand" by (simp add: seg_path_def)
  show ?thesis
  proof (cases "surv = []")
    case True
    then obtain s2 where "unlist_segment E cand s1 = (Inr (), s2)" "s' = invalidate_cache cand (snd (drop_segment_file E cand s2))"
      using rw rd by (auto simp: reclaim_rewrite_def Let_def bind_act_Inr rs surv D ignore_err_def put_state_def ret_def)
    then have "compacted E ?s1 [cand] [] [] s'" using s1 by (intro unlist_compacted [OF E ok]) simp_all
    with True show ?thesis by auto
  next
    case False
    then obtain s2 where rp: "replace_segment E cand (gc_hot_dir (so_config s)) Hot surv s1 = (Inr (), s2)"
      and fg: "forget_file E (seg_path s cand) cand s2 = (Inr (), s')"
      using rw rd by (auto simp: reclaim_rewrite_def Let_def bind_act_Inr rs surv D ret_def)
    have cfg: "so_config s1 = so_config s" by (subst s1) simp
    have "\<exists>m. compacted E ?s1 [cand] [surv] [m] s'"
      using rp fg s1 cfg by (intro replace_compacted [OF E ok]) (simp_all add: path)
    with False show ?thesis by auto
  qed
qed

lemma same_files:
  assumes "so_engine t = so_engine s" and "so_disk t = so_disk s"
  shows "store_ok E t \<longleftrightarrow> store_ok E s" "seg_content E t = seg_content E s" "segment_at E t = segment_at E s"
proof -
  show at: "segment_at E t = segment_at E s" using assms by (simp add: fun_eq_iff segment_at_def seg_path_def)
  then show "store_ok E t \<longleftrightarrow> store_ok E s" using assms by (simp add: store_ok_def)
  show "seg_content E t = seg_content E s" using assms by (simp add: fun_eq_iff seg_content_def seg_path_def)
qed

lemma reclaimed_reads:
  assumes E: "env_ok E" and s: "store_ok E s" and cand: "cand \<in> set (mf_segments (so_manifest s))"
    and c: "compacted E s [cand] cs outs s'" and bytes: "\<forall>m \<in> set (mf_segments (so_manifest s')). sm_bytes m < 2 ^ 32"
    and dead: "\<forall>r \<in> set (seg_content E s cand). rec_key r \<in> D \<longrightarrow> removable (mf_segments (so_manifest s)) (seg_content E s) cand r"
    and surv: "surv = filter (\<lambda>r. rec_key r \<notin> D) (seg_content E s cand)" and cs: "cs = (if surv = [] then [] else [surv])"
  shows "store_ok E s'" and "shown (versions (store_sources E s') k) = shown (versions (store_sources E s) k)"
proof -
  let ?L = "mf_segments (so_manifest s)"
  have dL: "distinct (map sm_id ?L)" using s by (simp add: store_ok_def manifest_ok_def)
  note at = store_segments(1) [OF E s]
  have rs: "sorted_wrt (<) (map rec_key (seg_content E s m))" "\<forall>r \<in> set (seg_content E s m). stored_ok r" if "m \<in> set ?L" for m
    using at [OF that] by (simp_all add: segment_at_def seg_records_def)
  have segs: "list_all2 (segment_at E s') outs cs"
  proof (rule list.rel_mono_strong)
    show "list_all2 (chunk_written E s') outs cs" using c by (simp add: compacted_def)
    fix m x assume m: "m \<in> set outs" and x: "x \<in> set cs" and w: "chunk_written E s' m x"
    have x: "x = surv" "surv \<noteq> []" using x by (simp_all add: cs split: if_splits)
    have "sm_bytes m < 2 ^ 32" using bytes m c by (simp add: compacted_def swap_run_def)
    moreover have "sorted_wrt (<) (map rec_key x)" unfolding x surv sorted_wrt_map
      by (rule sorted_wrt_filter) (use rs(1) [OF cand] in \<open>simp add: sorted_wrt_map\<close>)
    moreover have "\<forall>r \<in> set x. stored_ok r" using rs(2) [OF cand] by (simp add: x surv)
    ultimately show "segment_at E s' m x" using w x by (intro chunk_segment_at) simp_all
  qed
  have frame: "segment_at E s' m (seg_content E s m) \<and> seg_content E s' m = seg_content E s m"
    if m: "m \<in> set ?L" "sm_id m \<notin> set (map sm_id [cand])" for m
  proof -
    have cfg: "so_config s' = so_config s" and d: "fmlookup (so_disk s') (seg_path s m) = fmlookup (so_disk s) (seg_path s m)"
      using c m by (simp_all add: compacted_def)
    show ?thesis unfolding segment_at_frame [OF cfg d] using at [OF m(1)] by simp
  qed
  show "store_ok E s'" by (rule compacted_ok [OF E s c _ segs]) (use cand frame in auto)
  obtain a b where run: "sort_key sm_id ?L = a @ [cand] @ b" using cand by (metis append_Cons append_Nil in_set_conv_decomp set_sort)
  have "\<forall>m \<in> set ?L. sm_id m \<notin> set (map sm_id [cand]) \<longrightarrow> seg_content E s' m = seg_content E s m" using frame by blast
  note S = compacted_sources [OF E s c run segs this refl refl]
  show "shown (versions (store_sources E s') k) = shown (versions (store_sources E s) k)"
    unfolding S by (rule survivors_shown [OF run dL _ dead surv cs refl]) (use rs(1) in blast)
qed

text \<open>
  C8. Reclamation keeps every read. When the reclaimer of sealed segments reports success, whether it
  left its candidate alone, rewrote it without the rows it took for dead, or dropped it whole, every
  lookup and every scan returns what it returned before, for every key: overwritten keys, counters
  with increments above or below the candidate, and deleted keys. The invariant of manifest and files
  holds again. (Files stay under 4 GiB.)
\<close>

theorem reclamation_preserves_reads:
  assumes E: "env_ok E" and s: "store_ok E s" and rc: "reclaim_sealed E s = (Inr n, s')"
    and bytes: "\<forall>m \<in> set (mf_segments (so_manifest s')). sm_bytes m < 2 ^ 32"
  shows "store_ok E s' \<and> store_get E s' k = store_get E s k \<and> store_scan E s' spec = store_scan E s spec"
proof (cases "reclaim_pick (so_config s) (so_cursor s) (mf_segments (so_manifest s))")
  case None
  then have "s' = s" using rc by (simp add: reclaim_sealed_def Let_def ret_def)
  with s show ?thesis by simp
next
  case (Some cand)
  let ?L = "mf_segments (so_manifest s)" and ?c = "seg_content E s" and ?s0 = "s\<lparr> so_cursor := sm_id cand \<rparr>"
  have cand: "cand \<in> set ?L" using Some by (rule reclaim_pick_member)
  note at = store_segments(1) [OF E s]
  have audit: "reclaim_audit E cand (newer_overlaps ?L cand) (older_overlaps ?L cand) ?s0 = (Inr n, s')"
    using rc Some by (simp add: reclaim_sealed_def Let_def)
  have "\<forall>m \<in> set ?L. segment_at E ?s0 m (?c m)" using at same_files(3) [of ?s0 s E] by simp
  from reclaim_audit_result [OF E this cand audit] show ?thesis
  proof
    assume io: "s' = ?s0\<lparr> so_io := so_io s' \<rparr>"
    have same: "so_engine s' = so_engine s" "so_disk s' = so_disk s" by (subst io, simp)+
    have "store_ok E s'" using s same_files(1) [OF same] by blast
    then show ?thesis using shown_reads [OF E s] same_files(2) [OF same, of E] same(1) by simp
  next
    assume "\<exists>io dead. reclaim_rewrite E cand (key_section (?c cand)) dead (?s0\<lparr> so_io := io \<rparr>) = (Inr n, s') \<and>
       length dead = length (?c cand) \<and> (\<forall>i < length (?c cand). dead ! i \<longrightarrow> removable ?L ?c cand (?c cand ! i))"
    then obtain io dead where rw: "reclaim_rewrite E cand (key_section (?c cand)) dead (?s0\<lparr> so_io := io \<rparr>) = (Inr n, s')"
      and len: "length dead = length (?c cand)" and rem: "\<And>i. i < length (?c cand) \<Longrightarrow> dead ! i \<Longrightarrow> removable ?L ?c cand (?c cand ! i)" by blast
    define D where "D = set (map (ks_key_at (key_section (?c cand))) (filter (\<lambda>i. dead ! i) [0..<length dead]))"
    define surv where "surv = filter (\<lambda>r. rec_key r \<notin> D) (?c cand)"
    have u: "store_ok E (?s0\<lparr> so_io := i \<rparr>)" "seg_content E (?s0\<lparr> so_io := i \<rparr>) = ?c" for i
      using s same_files [of "?s0\<lparr> so_io := i \<rparr>" s E] by simp_all
    from reclaim_rewrite_compacted [OF E u(1) _ rw D_def, unfolded u(2), OF _ surv_def] cand obtain io' outs
      where c: "compacted E (?s0\<lparr> so_io := io' \<rparr>) [cand] (if surv = [] then [] else [surv]) outs s'" by auto
    have X: "codec_rmp_ok (en_ext E)" and rs: "seg_records (?c cand)" using E at [OF cand] by (simp_all add: env_ok_def segment_at_def)
    have "\<forall>r \<in> set (?c cand). rec_key r \<in> D \<longrightarrow> removable ?L ?c cand r"
    proof (intro ballI impI)
      fix r assume r: "r \<in> set (?c cand)" "rec_key r \<in> D"
      then obtain i where i: "i < length (?c cand)" "dead ! i" "rec_key r = rec_key (?c cand ! i)"
        using key_section_rows(2) [OF X rs] len by (auto simp: D_def)
      have "distinct (map rec_key (?c cand))" using rs by (simp add: seg_records_def strict_sorted_iff)
      then have "r = ?c cand ! i" using r(1) i by (metis distinct_map inj_onD nth_mem)
      with rem i show "removable ?L ?c cand r" by blast
    qed
    note R = reclaimed_reads [OF E u(1) _ c bytes, unfolded u(2), OF _ _ surv_def refl, simplified, OF cand this]
    show ?thesis using R shown_reads [OF E s R(1)] by simp
  qed
qed

text \<open>Two sealed segments that hold the same key: the older one is dropped.\<close>

definition stale_rows :: "Record list list" where
  "stale_rows = [[row 98 1], [row 98 2]]"

definition stale_old :: SegmentMeta where
  "stale_old = small_meta stale_rows 0 [row 98 1]"

definition stale_new :: SegmentMeta where
  "stale_new = small_meta stale_rows 1 [row 98 2]"

definition stale_store :: "unit Store" where
  "stale_store = small_store stale_rows (small_config\<lparr> gc_max_segment_records := 1 \<rparr>) mt_default stale_rows"

lemma stale_metas:
  "sm_id stale_old = 0" "sm_id stale_new = 1" "\<not> zone_may_have stale_old n" "\<not> zone_may_have stale_new n"
  "is_sealed (so_config stale_store) stale_old" "is_sealed (so_config stale_store) stale_new" "so_cursor stale_store = 0"
  "mf_segments (so_manifest stale_store) = [stale_old, stale_new]"
  by (simp_all add: stale_old_def stale_new_def small_meta_def zone_may_have_def zone_build_def zone_step_def
      is_sealed_def stale_store_def small_store_def stale_rows_def)

lemma stale_facts:
  "env_ok (small_env stale_rows)" "io_calm (small_env stale_rows)" "store_ok (small_env stale_rows) stale_store"
  "seg_content (small_env stale_rows) stale_store stale_old = [row 98 1]"
  "seg_content (small_env stale_rows) stale_store stale_new = [row 98 2]"
  "\<forall>m \<in> set (mf_segments (so_manifest stale_store)). sm_bytes m < 2 ^ 32"
proof -
  have rows: "length stale_rows < 256" "\<forall>rs \<in> set stale_rows. simple_rows rs" "table_ok ascii_unicode mt_default"
    by (auto simp: stale_rows_def simple_rows_def table_ok_def row_simple)
  note ok = small_store_ok [OF rows(1) order_refl rows(2,3), where cfg = "small_config\<lparr> gc_max_segment_records := 1 \<rparr>", folded stale_store_def]
  show "env_ok (small_env stale_rows)" "io_calm (small_env stale_rows)" using small_env_ok [OF rows(1)] by simp_all
  show "store_ok (small_env stale_rows) stale_store" by (rule ok)
  show "seg_content (small_env stale_rows) stale_store stale_old = [row 98 1]"
    "seg_content (small_env stale_rows) stale_store stale_new = [row 98 2]"
    using ok(2) [of 0] ok(2) [of 1] by (simp_all add: stale_rows_def stale_old_def stale_new_def)
  have "length (small_file stale_rows rs) < 2000" if "rs \<in> set stale_rows" for rs
    by (rule small_file_bytes) (use that rows(2) in auto)
  then show "\<forall>m \<in> set (mf_segments (so_manifest stale_store)). sm_bytes m < 2 ^ 32"
    by (fastforce simp: stale_metas stale_old_def stale_new_def small_meta_def stale_rows_def)
qed

lemma stale_segments:
  "segment_at (small_env stale_rows) stale_store stale_old [row 98 1]" "segment_at (small_env stale_rows) stale_store stale_new [row 98 2]"
  using store_segments(1) [OF stale_facts(1,3), of stale_old] store_segments(1) [OF stale_facts(1,3), of stale_new] stale_facts(4,5)
  by (simp_all add: stale_metas)

lemma stale_pick:
  "reclaim_pick (so_config stale_store) (so_cursor stale_store) [stale_old, stale_new] = Some stale_old"
  "newer_overlaps [stale_old, stale_new] stale_old = [stale_new]"
proof -
  have o: "zone_overlap stale_new stale_old" using zone_overlap_key [OF stale_segments(2,1)] by simp
  show n: "newer_overlaps [stale_old, stale_new] stale_old = [stale_new]" using o by (simp add: newer_overlaps_def stale_metas)
  have "newer_overlaps [stale_old, stale_new] stale_new = []" by (simp add: newer_overlaps_def stale_metas)
  then show "reclaim_pick (so_config stale_store) (so_cursor stale_store) [stale_old, stale_new] = Some stale_old"
    using n by (simp add: reclaim_pick_def Let_def stale_metas)
qed

text \<open>Reading the files of a state when no file operation fails.\<close>

lemma sections_complete:
  assumes "io_calm E" and "env_ok E" and "segment_at E s m rs"
  shows "\<exists>f dir. read_path E (seg_path s m) s = (Inr f, s\<lparr> so_io := so_io s + 1 \<rparr>) \<and> read_header f = Inr 2 \<and>
           read_footer (en_ext E) f = Inr dir \<and> load_keys (en_ext E) f dir = Inr (key_section rs)"
proof -
  obtain f where f: "read_path E (seg_path s m) s = (Inr f, s\<lparr> so_io := so_io s + 1 \<rparr>)"
    using assms(1,3) by (auto simp: io_calm_def segment_at_def read_path_def fs_read_def Let_def)
  with segment_sections [OF assms(2,3) f] show ?thesis by blast
qed

lemma stale_reclaimed:
  "\<exists>s'. reclaim_sealed (small_env stale_rows) stale_store = (Inr 1, s') \<and> mf_segments (so_manifest s') = [stale_new]"
proof -
  let ?E = "small_env stale_rows" and ?s = stale_store and ?K = "key_section [row 98 1]"
  note F = stale_facts
  define t where "t io = ?s\<lparr> so_cursor := sm_id stale_old, so_io := io \<rparr>" for io
  have t: "so_engine (t io) = so_engine ?s" "so_disk (t io) = so_disk ?s" "(t io)\<lparr> so_io := j \<rparr> = t j" "so_io (t io) = io" for io j
    by (simp_all add: t_def)
  note same = same_files [OF t(1,2)]
  have path: "seg_path (t io) m = seg_path (t j) m" for io j m by (simp add: seg_path_def t)
  have rd: "\<exists>f dir. read_path ?E (seg_path (t j) m) (t io) = (Inr f, t (io + 1)) \<and> read_header f = Inr 2 \<and>
      read_footer (en_ext ?E) f = Inr dir \<and> load_keys (en_ext ?E) f dir = Inr (key_section rs)"
    if "segment_at ?E ?s m rs" for io j m rs
    using sections_complete [OF F(2,1), of "t io" m rs] that by (simp add: same(3) t path [of j _ io])
  have "codec_rmp_ok (en_ext ?E)" using F(1) by (simp add: env_ok_def)
  moreover have "seg_records [row 98 1]" "seg_records [row 98 2]" using stale_segments by (simp_all add: segment_at_def)
  ultimately have keys: "ks_count ?K = 1" "ks_key_at ?K 0 = [98]" "ks_find (key_section [row 98 2]) [98] = Some 0"
    using key_section_rows [of "en_ext ?E"] by auto
  obtain f1 d1 where r1: "\<And>j. read_path ?E (seg_path (t j) stale_old) (t 0) = (Inr f1, t 1)" "read_header f1 = Inr 2"
      "read_footer (en_ext ?E) f1 = Inr d1" "load_keys (en_ext ?E) f1 d1 = Inr ?K"
    using rd [OF stale_segments(1), of _ 0] path by (metis add_0)
  obtain f2 d2 where r2: "\<And>j. read_path ?E (seg_path (t j) stale_new) (t 1) = (Inr f2, t 2)" "read_header f2 = Inr 2"
      "read_footer (en_ext ?E) f2 = Inr d2" "load_keys (en_ext ?E) f2 d2 = Inr (key_section [row 98 2])"
    using rd [OF stale_segments(2), of _ 1] path by (metis one_add_one)
  have audit: "reclaim_audit ?E stale_old [stale_new] [] (t 0) = reclaim_rewrite ?E stale_old ?K [True] (t 2)"
    by (simp add: reclaim_audit_def bind_act_def r1 [simplified] r2 [simplified] of_result_def ret_def keys [simplified] tomb_rows_def stale_metas Let_def shadow_row_def
        dead_rows_def)
  have ra: "read_all ?E (seg_path (t 2) stale_old) (t 2) = (Inr [row 98 1], t 3)"
    using read_all_completes [OF F(2,1), of "t 2" stale_old] F(3,4) by (simp add: same t stale_metas)
  obtain s2 where st: "store_manifest ?E (set_manifest (swap_run [sm_id stale_old] []) (t 3)) = (Inr (), s2)"
    using store_manifest_completes [OF F(2)] by blast
  let ?s' = "invalidate_cache stale_old (snd (drop_segment_file ?E stale_old s2))"
  have "reclaim_rewrite ?E stale_old ?K [True] (t 2) = (Inr 1, ?s')"
    by (simp add: reclaim_rewrite_def Let_def bind_act_def ra keys unlist_segment_def put_state_def st ignore_err_def ret_def)
  moreover have "reclaim_sealed ?E ?s = reclaim_audit ?E stale_old [stale_new] [] (t 0)"
    using stale_pick by (simp add: reclaim_sealed_def Let_def stale_metas older_overlaps_def t_def) (simp add: stale_store_def small_store_def)
  moreover have "so_engine s2 = so_engine (set_manifest (swap_run [sm_id stale_old] []) (t 3))"
    by (rule same_core_sel(1) [OF store_manifest_core [OF st]])
  then have "mf_segments (so_manifest ?s') = [stale_new]"
    by (simp add: invalidate_cache_def drop_segment_engine set_manifest_def swap_run_def t stale_metas)
  ultimately show ?thesis using audit by simp
qed

theorem reclamation_preserves_reads_witness:
  "\<exists>s'. reclaim_sealed (small_env stale_rows) stale_store = (Inr 1, s') \<and> mf_segments (so_manifest s') = [stale_new] \<and>
     store_get (small_env stale_rows) s' [98] = Inr (Some (row 98 2))"
proof -
  let ?E = "small_env stale_rows" and ?s = stale_store
  note F = stale_facts
  obtain s' where r: "reclaim_sealed ?E ?s = (Inr 1, s')" "mf_segments (so_manifest s') = [stale_new]" using stale_reclaimed by blast
  have "\<forall>m \<in> set (mf_segments (so_manifest s')). sm_bytes m < 2 ^ 32" using F(6) r(2) by (simp add: stale_metas)
  then have "store_get ?E s' [98] = store_get ?E ?s [98]" using reclamation_preserves_reads [OF F(1,3) r(1)] by blast
  moreover have "newest_first [stale_old, stale_new] = [stale_new, stale_old]" by (simp add: newest_first_def stale_metas)
  then have "store_sources ?E ?s = [fmempty, seg_map [row 98 2], seg_map [row 98 1]]"
    using F(4,5) by (simp add: sources_def stale_metas) (simp add: stale_store_def small_store_def mem_tables_def mt_default_def)
  then have "store_get ?E ?s [98] = Inr (Some (row 98 2))"
    by (simp add: store_get_visible [OF F(1,3)] visible_lookup seg_map_def)
  ultimately show ?thesis using r by auto
qed

end
