(* ===== verification/Cached_Reads.thy ===== *)
theory Cached_Reads
  imports Section_Cache Engine_Props
begin

text \<open>
  Reading a segment through the section cache (\<^verbatim>\<open>src/src/engine.rs\<close>: \<^verbatim>\<open>load_segment\<close>,
  \<^verbatim>\<open>load_segment_keys\<close> and the accessor of every section). The cache, the flag that some
  section came from disk and the hit and miss counters are threaded through. The read paths of
  \<open>Engine_Read\<close> load segments without the cache; here both ways are shown to agree.
\<close>

section \<open>Reads that thread the cache\<close>

record CacheRun =
  cr_cache :: SegmentCache
  cr_disk :: bool
  cr_hits :: nat
  cr_misses :: nat

type_synonym 'a cact = "CacheRun \<Rightarrow> 'a result \<times> CacheRun"

definition ret_run :: "'a \<Rightarrow> 'a cact" where
  "ret_run x s = (Inr x, s)"

definition bind_run :: "'a cact \<Rightarrow> ('a \<Rightarrow> 'b cact) \<Rightarrow> 'b cact" where
  "bind_run m g s = (case m s of (Inl e, s') \<Rightarrow> (Inl e, s') | (Inr x, s') \<Rightarrow> g x s')"

definition of_load :: "'a result \<Rightarrow> 'a cact" where
  "of_load r s = (r, s)"

definition run_get :: "nat \<Rightarrow> SectionId \<Rightarrow> Section option cact" where
  "run_get ident sid s = (case cache_get ident sid (cr_cache s) of (r, c) \<Rightarrow> (Inr r, s\<lparr> cr_cache := c \<rparr>))"

definition run_put :: "nat \<Rightarrow> SectionId \<Rightarrow> Section \<Rightarrow> unit cact" where
  "run_put ident sid sec s = (Inr (), s\<lparr> cr_cache := cache_put ident sid sec (section_bytes sec) (cr_cache s) \<rparr>)"

definition set_disk :: "bool \<Rightarrow> unit cact" where
  "set_disk b s = (Inr (), s\<lparr> cr_disk := b \<rparr>)"

definition note_cache_hit :: "unit cact" where
  "note_cache_hit s = (Inr (), s\<lparr> cr_hits := cr_hits s + 1 \<rparr>)"

definition note_cache_miss :: "unit cact" where
  "note_cache_miss s = (Inr (), s\<lparr> cr_misses := cr_misses s + 1 \<rparr>)"

definition note_access :: "unit cact" where
  "note_access s = (if cr_disk s then note_cache_miss s else note_cache_hit s)"

section \<open>The accessors\<close>

text \<open>A section from the cache, or loaded and put there; \<open>sel\<close> is the pattern the hit must have.\<close>

definition section_with :: "nat \<Rightarrow> SectionId \<Rightarrow> (Section \<Rightarrow> 'a option) \<Rightarrow> ('a \<Rightarrow> Section) \<Rightarrow> 'a result \<Rightarrow> 'a cact" where
  "section_with ident sid sel con load =
     bind_run (run_get ident sid) (\<lambda>hit.
       case Option.bind hit sel of
         Some x \<Rightarrow> ret_run x
       | None \<Rightarrow>
           bind_run (set_disk True) (\<lambda>_.
           bind_run (of_load load) (\<lambda>x.
           bind_run (run_put ident sid (con x)) (\<lambda>_. ret_run x))))"

text \<open>A section that may be absent: absence is not cached and does not count as a disk read.\<close>

definition optional_section_with ::
  "nat \<Rightarrow> SectionId \<Rightarrow> (Section \<Rightarrow> 'a option) \<Rightarrow> ('a \<Rightarrow> Section) \<Rightarrow> 'a option result \<Rightarrow> 'a option cact" where
  "optional_section_with ident sid sel con load =
     bind_run (run_get ident sid) (\<lambda>hit.
       case Option.bind hit sel of
         Some x \<Rightarrow> ret_run (Some x)
       | None \<Rightarrow>
           bind_run (of_load load) (\<lambda>r.
             case r of
               None \<Rightarrow> ret_run None
             | Some x \<Rightarrow>
                 bind_run (set_disk True) (\<lambda>_.
                 bind_run (run_put ident sid (con x)) (\<lambda>_. ret_run (Some x)))))"

fun sel_keys where "sel_keys (SecKeys k) = Some k" | "sel_keys _ = None"
fun sel_timestamps where "sel_timestamps (SecTimestamps t) = Some t" | "sel_timestamps _ = None"
fun sel_blocks where "sel_blocks (SecBlocks b) = Some b" | "sel_blocks _ = None"
fun sel_payload_index where "sel_payload_index (SecPayloadIndex p) = Some p" | "sel_payload_index _ = None"
fun sel_text_index where "sel_text_index (SecTextIndex t) = Some t" | "sel_text_index _ = None"
fun sel_tokens where "sel_tokens (SecTokens t) = Some t" | "sel_tokens _ = None"
fun sel_label where "sel_label (SecLabel l) = Some l" | "sel_label _ = None"
fun sel_numeric where "sel_numeric (SecNumeric n) = Some n" | "sel_numeric _ = None"
fun sel_v1 where "sel_v1 (SecV1Whole c) = Some c" | "sel_v1 _ = None"
fun sel_dir where "sel_dir (SecDir d) = Some d" | "sel_dir _ = None"

definition section_keys :: "('x) codec_ext_scheme \<Rightarrow> nat \<Rightarrow> SegDir \<Rightarrow> byte list \<Rightarrow> KeysSection cact" where
  "section_keys X ident dir f = section_with ident IdKeys sel_keys SecKeys (load_keys X f dir)"

definition section_timestamps :: "('x) codec_ext_scheme \<Rightarrow> nat \<Rightarrow> SegDir \<Rightarrow> byte list \<Rightarrow> int list cact" where
  "section_timestamps X ident dir f = section_with ident IdTimestamps sel_timestamps SecTimestamps (load_timestamps X f dir)"

definition section_blocks :: "('x) codec_ext_scheme \<Rightarrow> nat \<Rightarrow> SegDir \<Rightarrow> byte list \<Rightarrow> BlockMeta list cact" where
  "section_blocks X ident dir f = section_with ident IdBlocks sel_blocks SecBlocks (load_blocks X f dir)"

definition section_payload_index :: "nat \<Rightarrow> SegDir \<Rightarrow> byte list \<Rightarrow> PayloadIndex cact" where
  "section_payload_index ident dir f = section_with ident IdPayloadIndex sel_payload_index SecPayloadIndex (load_payload_index f dir)"

definition section_text_index :: "nat \<Rightarrow> SegDir \<Rightarrow> byte list \<Rightarrow> TextIndex option cact" where
  "section_text_index ident dir f = optional_section_with ident IdTextIndex sel_text_index SecTextIndex (load_text_index f dir)"

definition section_tokens :: "('x) codec_ext_scheme \<Rightarrow> nat \<Rightarrow> SegDir \<Rightarrow> byte list \<Rightarrow> TokenIndex option cact" where
  "section_tokens X ident dir f = optional_section_with ident IdTokens sel_tokens SecTokens (load_tokens X f dir)"

definition section_label :: "('x) codec_ext_scheme \<Rightarrow> nat \<Rightarrow> SegDir \<Rightarrow> byte list \<Rightarrow> rstr \<Rightarrow> LabelColumn cact" where
  "section_label X ident dir f name = section_with ident (IdLabel name) sel_label SecLabel (load_label X f dir name)"

definition section_numeric :: "('x) codec_ext_scheme \<Rightarrow> nat \<Rightarrow> SegDir \<Rightarrow> byte list \<Rightarrow> rstr \<Rightarrow> NumericColumn cact" where
  "section_numeric X ident dir f name = section_with ident (IdNumeric name) sel_numeric SecNumeric (load_numeric X f dir name)"

datatype DirOrWhole = DirOf SegDir | WholeOf SegmentColumns

definition segment_dir :: "unicode \<Rightarrow> ('x) codec_ext_scheme \<Rightarrow> nat \<Rightarrow> byte list \<Rightarrow> DirOrWhole cact" where
  "segment_dir U X ident f =
     bind_run (run_get ident IdDir) (\<lambda>hit.
       case Option.bind hit sel_dir of
         Some d \<Rightarrow> ret_run (DirOf d)
       | None \<Rightarrow>
           bind_run (set_disk True) (\<lambda>_.
           bind_run (of_load (read_header f)) (\<lambda>version.
             if version = 1 then
               bind_run (of_load (load_v1_whole U X f)) (\<lambda>c.
               bind_run (run_put ident IdV1Whole (SecV1Whole c)) (\<lambda>_. ret_run (WholeOf c)))
             else if version = 2 then
               bind_run (of_load (read_footer X f)) (\<lambda>d.
               bind_run (run_put ident IdDir (SecDir d)) (\<lambda>_. ret_run (DirOf d)))
             else of_load (Inl (unsupported_version version)))))"

fun named_sections :: "(rstr \<Rightarrow> 'a cact) \<Rightarrow> rstr list \<Rightarrow> (rstr, 'a) bmap cact" where
  "named_sections g [] = ret_run fmempty"
| "named_sections g (n # ns) =
     bind_run (g n) (\<lambda>c. bind_run (named_sections g ns) (\<lambda>m. ret_run (fmupd n c m)))"

section \<open>Loading a segment\<close>

definition cached_sections ::
  "('x) codec_ext_scheme \<Rightarrow> nat \<Rightarrow> SegDir \<Rightarrow> byte list \<Rightarrow> bool \<Rightarrow> SegmentColumns cact" where
  "cached_sections X ident dir f need =
     bind_run (section_keys X ident dir f) (\<lambda>keys.
     bind_run (section_timestamps X ident dir f) (\<lambda>timestamps.
     bind_run (section_blocks X ident dir f) (\<lambda>blocks.
     bind_run (section_payload_index ident dir f) (\<lambda>payload_index.
     bind_run (section_text_index ident dir f) (\<lambda>text_index.
     bind_run (if need then section_tokens X ident dir f else ret_run None) (\<lambda>tokens.
     bind_run (named_sections (section_label X ident dir f) (dir_label_names dir)) (\<lambda>labels.
     bind_run (named_sections (section_numeric X ident dir f) (dir_numeric_names dir)) (\<lambda>numerics.
       ret_run (assemble (sg_count dir) keys timestamps labels numerics blocks payload_index text_index tokens)))))))))"

definition cached_load_segment ::
  "unicode \<Rightarrow> ('x) codec_ext_scheme \<Rightarrow> opener \<Rightarrow> SegmentMeta \<Rightarrow> bool \<Rightarrow> (SegmentColumns \<times> byte list option) cact" where
  "cached_load_segment U X open_seg meta need =
     (let ident = cache_key meta in
      bind_run (run_get ident IdV1Whole) (\<lambda>hit.
        case Option.bind hit sel_v1 of
          Some c \<Rightarrow> bind_run note_cache_hit (\<lambda>_. ret_run (c, None))
        | None \<Rightarrow>
            bind_run (of_load (open_seg meta)) (\<lambda>f.
            bind_run (set_disk False) (\<lambda>_.
            bind_run (segment_dir U X ident f) (\<lambda>d.
              case d of
                WholeOf c \<Rightarrow> bind_run note_cache_miss (\<lambda>_. ret_run (c, None))
              | DirOf dir \<Rightarrow>
                  bind_run (cached_sections X ident dir f need) (\<lambda>c.
                  bind_run note_access (\<lambda>_. ret_run (c, Some f))))))))"

definition cached_load_segment_keys ::
  "unicode \<Rightarrow> ('x) codec_ext_scheme \<Rightarrow> opener \<Rightarrow> SegmentMeta \<Rightarrow> SegKeys cact" where
  "cached_load_segment_keys U X open_seg meta =
     (let ident = cache_key meta in
      bind_run (run_get ident IdV1Whole) (\<lambda>hit.
        case Option.bind hit sel_v1 of
          Some c \<Rightarrow> bind_run note_cache_hit (\<lambda>_. ret_run (Whole c))
        | None \<Rightarrow>
            bind_run (of_load (open_seg meta)) (\<lambda>f.
            bind_run (set_disk False) (\<lambda>_.
            bind_run (segment_dir U X ident f) (\<lambda>d.
              case d of
                WholeOf c \<Rightarrow> bind_run note_cache_miss (\<lambda>_. ret_run (Whole c))
              | DirOf dir \<Rightarrow>
                  bind_run (section_keys X ident dir f) (\<lambda>keys.
                  bind_run note_access (\<lambda>_. ret_run (Slim keys))))))))"

section \<open>Agreement with the uncached readers\<close>

text \<open>
  What the cache may hold: for every segment file, by its cache identity, the sections its readers
  load.
\<close>

fun loaded :: "'a result \<Rightarrow> 'a option" where
  "loaded (Inl e) = None"
| "loaded (Inr x) = Some x"

fun section_of_dir :: "('x) codec_ext_scheme \<Rightarrow> byte list \<Rightarrow> SegDir \<Rightarrow> SectionId \<Rightarrow> Section option" where
  "section_of_dir X f dir IdKeys = map_option SecKeys (loaded (load_keys X f dir))"
| "section_of_dir X f dir IdTimestamps = map_option SecTimestamps (loaded (load_timestamps X f dir))"
| "section_of_dir X f dir IdBlocks = map_option SecBlocks (loaded (load_blocks X f dir))"
| "section_of_dir X f dir IdPayloadIndex = map_option SecPayloadIndex (loaded (load_payload_index f dir))"
| "section_of_dir X f dir IdTextIndex = map_option SecTextIndex (Option.bind (loaded (load_text_index f dir)) id)"
| "section_of_dir X f dir IdTokens = map_option SecTokens (Option.bind (loaded (load_tokens X f dir)) id)"
| "section_of_dir X f dir (IdLabel n) = map_option SecLabel (loaded (load_label X f dir n))"
| "section_of_dir X f dir (IdNumeric n) = map_option SecNumeric (loaded (load_numeric X f dir n))"
| "section_of_dir X f dir IdDir = Some (SecDir dir)"
| "section_of_dir X f dir IdV1Whole = None"

definition section_truth ::
  "unicode \<Rightarrow> ('x) codec_ext_scheme \<Rightarrow> (nat \<rightharpoonup> byte list) \<Rightarrow> nat \<times> SectionId \<rightharpoonup> Section" where
  "section_truth U X F k =
     (case k of (ident, sid) \<Rightarrow>
      (case F ident of
        None \<Rightarrow> None
      | Some f \<Rightarrow>
          if read_header f = Inr 1 then
            (if sid = IdV1Whole then map_option SecV1Whole (loaded (load_v1_whole U X f)) else None)
          else if read_header f = Inr 2 then Option.bind (loaded (read_footer X f)) (\<lambda>dir. section_of_dir X f dir sid)
          else None))"

text \<open>
  A read through the cache gives \<open>r\<close>, keeps the cache true, and counts \<open>n\<close> accesses when it succeeds.
\<close>

definition agrees :: "nat \<Rightarrow> (nat \<times> SectionId \<rightharpoonup> Section) \<Rightarrow> 'a cact \<Rightarrow> 'a result \<Rightarrow> bool" where
  "agrees n truth m r \<longleftrightarrow>
     (\<forall>s. sections.coherent truth (cr_cache s) \<longrightarrow>
        fst (m s) = r \<and> sections.coherent truth (cr_cache (snd (m s))) \<and>
        (\<forall>x. r = Inr x \<longrightarrow> cr_hits (snd (m s)) + cr_misses (snd (m s)) = cr_hits s + cr_misses s + n))"

named_theorems agreement

lemma agrees_ret [agreement]: "agrees 0 truth (ret_run x) (Inr x)"
  by (simp add: agrees_def ret_run_def)

lemma agrees_load [agreement]: "agrees 0 truth (of_load r) r"
  by (simp add: agrees_def of_load_def)

lemma agrees_disk [agreement]: "agrees 0 truth (set_disk b) (Inr ())"
  by (simp add: agrees_def set_disk_def)

lemma agrees_bind:
  assumes "agrees 0 truth m r" and "\<And>x. r = Inr x \<Longrightarrow> agrees n truth (g x) (h x)"
  shows "agrees n truth (bind_run m g) (and_then r h)"
  unfolding agrees_def
proof (intro allI impI)
  fix s :: CacheRun assume c: "sections.coherent truth (cr_cache s)"
  obtain r' s' where m: "m s = (r', s')" by fastforce
  with assms(1) c have r: "r' = r" and c': "sections.coherent truth (cr_cache s')"
    and k: "\<forall>x. r = Inr x \<longrightarrow> cr_hits s' + cr_misses s' = cr_hits s + cr_misses s"
    by (auto simp: agrees_def)
  show "fst (bind_run m g s) = and_then r h \<and> sections.coherent truth (cr_cache (snd (bind_run m g s))) \<and>
      (\<forall>x. and_then r h = Inr x \<longrightarrow>
         cr_hits (snd (bind_run m g s)) + cr_misses (snd (bind_run m g s)) = cr_hits s + cr_misses s + n)"
  proof (cases r)
    case (Inl e)
    with m r c' show ?thesis by (simp add: bind_run_def)
  next
    case (Inr x)
    with assms(2) [OF Inr] c' k m r show ?thesis by (simp add: bind_run_def agrees_def)
  qed
qed

lemma agrees_put: "truth (ident, sid) = Some sec \<Longrightarrow> agrees 0 truth (run_put ident sid sec) (Inr ())"
  using sections.coherent_put [of truth _ "(ident, sid)" sec] by (simp add: agrees_def run_put_def)

text \<open>A hit is what the source of truth says, and looking changes nothing but recency.\<close>

lemma agrees_get:
  assumes hit: "\<And>x. truth (ident, sid) = Some x \<Longrightarrow> agrees n truth (g (Some x)) r" and miss: "agrees n truth (g None) r"
  shows "agrees n truth (bind_run (run_get ident sid) g) r"
  unfolding agrees_def
proof (intro allI impI)
  fix s :: CacheRun assume c: "sections.coherent truth (cr_cache s)"
  let ?s = "s\<lparr> cr_cache := snd (cache_get ident sid (cr_cache s)) \<rparr>"
  have c': "sections.coherent truth (cr_cache ?s)" using sections.coherent_get [OF c, of "(ident, sid)"] by simp
  have m: "bind_run (run_get ident sid) g s = g (fst (cache_get ident sid (cr_cache s))) ?s"
    by (simp add: bind_run_def run_get_def split_beta)
  have "agrees n truth (g (fst (cache_get ident sid (cr_cache s)))) r"
    using hit miss sections.coherent_hit [OF c, of "(ident, sid)"] by (cases "fst (cache_get ident sid (cr_cache s))") auto
  with c' show "fst (bind_run (run_get ident sid) g s) = r \<and> sections.coherent truth (cr_cache (snd (bind_run (run_get ident sid) g s))) \<and>
      (\<forall>x. r = Inr x \<longrightarrow> cr_hits (snd (bind_run (run_get ident sid) g s)) + cr_misses (snd (bind_run (run_get ident sid) g s)) =
         cr_hits s + cr_misses s + n)"
    unfolding m agrees_def by simp
qed

lemma agrees_lookup:
  assumes "\<And>sec x. truth (ident, sid) = Some sec \<Longrightarrow> sel sec = Some x \<Longrightarrow> agrees n truth (h x) r" and "agrees n truth m r"
  shows "agrees n truth (bind_run (run_get ident sid) (\<lambda>hit. case Option.bind hit sel of Some x \<Rightarrow> h x | None \<Rightarrow> m)) r"
proof (rule agrees_get)
  fix sec assume "truth (ident, sid) = Some sec"
  with assms show "agrees n truth (case Option.bind (Some sec) sel of Some x \<Rightarrow> h x | None \<Rightarrow> m) r" by (cases "sel sec") simp_all
qed (use assms in simp)

lemma agrees_section:
  assumes truth: "truth (ident, sid) = map_option con (loaded load)" and sel: "\<And>x. sel (con x) = Some x"
  shows "agrees 0 truth (section_with ident sid sel con load) load"
proof -
  have "agrees 0 truth (bind_run (set_disk True) (\<lambda>_. bind_run (of_load load) (\<lambda>x. bind_run (run_put ident sid (con x)) (\<lambda>_. ret_run x))))
      (and_then (Inr ()) (\<lambda>_. and_then load (\<lambda>x. and_then (Inr ()) (\<lambda>_. Inr x))))"
    by (intro agrees_bind agreement agrees_put) (simp add: truth)
  moreover have "and_then load Inr = load" by (cases load) simp_all
  ultimately have "agrees 0 truth (bind_run (set_disk True) (\<lambda>_. bind_run (of_load load) (\<lambda>x. bind_run (run_put ident sid (con x)) (\<lambda>_. ret_run x)))) load"
    by simp
  then show ?thesis
    unfolding section_with_def
    by (rule agrees_lookup [rotated]) (use truth in \<open>cases load; auto simp: sel agrees_ret\<close>)
qed

lemma agrees_optional:
  assumes truth: "truth (ident, sid) = map_option con (Option.bind (loaded load) id)" and sel: "\<And>x. sel (con x) = Some x"
  shows "agrees 0 truth (optional_section_with ident sid sel con load) load"
proof -
  let ?m = "bind_run (of_load load) (\<lambda>r. case r of None \<Rightarrow> ret_run None
      | Some x \<Rightarrow> bind_run (set_disk True) (\<lambda>_. bind_run (run_put ident sid (con x)) (\<lambda>_. ret_run (Some x))))"
  have "agrees 0 truth (case r of None \<Rightarrow> ret_run None
      | Some x \<Rightarrow> bind_run (set_disk True) (\<lambda>_. bind_run (run_put ident sid (con x)) (\<lambda>_. ret_run (Some x)))) (Inr r)"
    if "load = Inr r" for r
  proof (cases r)
    case (Some x)
    have "agrees 0 truth (bind_run (set_disk True) (\<lambda>_. bind_run (run_put ident sid (con x)) (\<lambda>_. ret_run (Some x))))
        (and_then (Inr ()) (\<lambda>_. and_then (Inr ()) (\<lambda>_. Inr (Some x))))"
      by (intro agrees_bind agreement agrees_put) (simp add: truth that Some)
    with Some show ?thesis by simp
  qed (simp add: agrees_ret)
  then have "agrees 0 truth ?m (and_then load Inr)" by (intro agrees_bind agreement)
  moreover have "and_then load Inr = load" by (cases load) simp_all
  ultimately have "agrees 0 truth ?m load" by simp
  then show ?thesis
    unfolding optional_section_with_def
    by (rule agrees_lookup [rotated]) (use truth in \<open>cases load; auto simp: sel agrees_ret split: bind_splits\<close>)
qed

lemma agrees_named:
  "(\<And>n. agrees 0 truth (g n) (h n)) \<Longrightarrow> agrees 0 truth (named_sections g ns) (load_named h ns)"
  by (induction ns) (auto intro!: agrees_bind agreement)

lemma agrees_cached_sections:
  assumes truth: "\<And>sid. truth (ident, sid) = section_of_dir X f dir sid"
  shows "agrees 0 truth (cached_sections X ident dir f need) (load_sections X f dir need)"
proof -
  note defs = section_keys_def section_timestamps_def section_blocks_def section_payload_index_def section_text_index_def
    section_tokens_def section_label_def section_numeric_def
  have "agrees 0 truth (section_keys X ident dir f) (load_keys X f dir)"
    "agrees 0 truth (section_timestamps X ident dir f) (load_timestamps X f dir)"
    "agrees 0 truth (section_blocks X ident dir f) (load_blocks X f dir)"
    "agrees 0 truth (section_payload_index ident dir f) (load_payload_index f dir)"
    "agrees 0 truth (section_label X ident dir f n) (load_label X f dir n)"
    "agrees 0 truth (section_numeric X ident dir f n) (load_numeric X f dir n)" for n
    unfolding defs by (rule agrees_section; simp add: truth)+
  moreover have "agrees 0 truth (section_text_index ident dir f) (load_text_index f dir)"
    "agrees 0 truth (section_tokens X ident dir f) (load_tokens X f dir)"
    unfolding defs by (rule agrees_optional; simp add: truth)+
  ultimately show ?thesis
    unfolding cached_sections_def load_sections_def by (intro agrees_bind agrees_named agreement) (auto intro: agrees_ret)
qed

lemma truth_v2:
  assumes "F ident = Some f" and "read_header f = Inr 2" and "read_footer X f = Inr dir"
  shows "section_truth U X F (ident, sid) = section_of_dir X f dir sid"
  using assms by (simp add: section_truth_def)

lemma agrees_segment_dir:
  assumes F: "F ident = Some f"
  shows "agrees 0 (section_truth U X F) (segment_dir U X ident f)
     (and_then (read_header f) (\<lambda>version.
        if version = 1 then and_then (load_v1_whole U X f) (\<lambda>c. Inr (WholeOf c))
        else if version = 2 then and_then (read_footer X f) (\<lambda>dir. Inr (DirOf dir))
        else Inl (unsupported_version version)))" (is "agrees 0 ?T _ ?r")
proof -
  have v1: "agrees 0 ?T (bind_run (of_load (load_v1_whole U X f)) (\<lambda>c. bind_run (run_put ident IdV1Whole (SecV1Whole c)) (\<lambda>_. ret_run (WholeOf c))))
      (and_then (load_v1_whole U X f) (\<lambda>c. and_then (Inr ()) (\<lambda>_. Inr (WholeOf c))))" if "read_header f = Inr 1"
    by (intro agrees_bind agreement agrees_put) (simp add: section_truth_def F that)
  have v2: "agrees 0 ?T (bind_run (of_load (read_footer X f)) (\<lambda>d. bind_run (run_put ident IdDir (SecDir d)) (\<lambda>_. ret_run (DirOf d))))
      (and_then (read_footer X f) (\<lambda>d. and_then (Inr ()) (\<lambda>_. Inr (DirOf d))))" if "read_header f = Inr 2"
    by (intro agrees_bind agreement agrees_put) (simp add: section_truth_def F that)
  have "agrees 0 ?T (bind_run (set_disk True) (\<lambda>_. bind_run (of_load (read_header f)) (\<lambda>version.
      if version = 1 then bind_run (of_load (load_v1_whole U X f)) (\<lambda>c. bind_run (run_put ident IdV1Whole (SecV1Whole c)) (\<lambda>_. ret_run (WholeOf c)))
      else if version = 2 then bind_run (of_load (read_footer X f)) (\<lambda>d. bind_run (run_put ident IdDir (SecDir d)) (\<lambda>_. ret_run (DirOf d)))
      else of_load (Inl (unsupported_version version))))) (and_then (Inr ()) (\<lambda>_. ?r))"
    by (intro agrees_bind agreement) (use v1 v2 in \<open>auto intro: agrees_load\<close>)
  then show ?thesis
    unfolding segment_dir_def
  proof (intro agrees_lookup)
    fix sec d assume "?T (ident, IdDir) = Some sec" "sel_dir sec = Some d"
    then have "read_header f = Inr 2" "read_footer X f = Inr d"
      using F by (auto simp: section_truth_def split: if_splits bind_splits elim!: loaded.elims)
    then show "agrees 0 ?T (ret_run (DirOf d)) ?r" by (simp add: agrees_ret)
  qed simp
qed

lemma agrees_note:
  "agrees 1 truth (bind_run note_cache_hit (\<lambda>_. ret_run x)) (Inr x)" "agrees 1 truth (bind_run note_cache_miss (\<lambda>_. ret_run x)) (Inr x)"
  "agrees 1 truth (bind_run note_access (\<lambda>_. ret_run x)) (Inr x)"
  by (simp_all add: agrees_def bind_run_def note_cache_hit_def note_cache_miss_def note_access_def ret_run_def)

text \<open>The common start of both loaders: the bundle of a version 1 file, or the directory.\<close>

lemma agrees_loader:
  assumes F: "F (cache_key meta) = Some f" and op: "open_seg meta = Inr f"
    and whole: "\<And>c. agrees 1 (section_truth U X F) (hit c) (Inr (w c))" "\<And>c. agrees 1 (section_truth U X F) (miss c) (Inr (w c))"
    and dir: "\<And>d. read_header f = Inr 2 \<Longrightarrow> read_footer X f = Inr d \<Longrightarrow> agrees 1 (section_truth U X F) (via f d) (v d)"
  shows "agrees 1 (section_truth U X F)
     (bind_run (run_get (cache_key meta) IdV1Whole) (\<lambda>h. case Option.bind h sel_v1 of Some c \<Rightarrow> hit c
        | None \<Rightarrow> bind_run (of_load (open_seg meta)) (\<lambda>f. bind_run (set_disk False) (\<lambda>_. bind_run (segment_dir U X (cache_key meta) f) (\<lambda>d.
            case d of WholeOf c \<Rightarrow> miss c | DirOf d \<Rightarrow> via f d)))))
     (and_then (read_header f) (\<lambda>version.
        if version = 1 then and_then (load_v1_whole U X f) (\<lambda>c. Inr (w c))
        else if version = 2 then and_then (read_footer X f) v else Inl (unsupported_version version)))" (is "agrees 1 ?T _ ?r")
proof (rule agrees_lookup)
  fix sec c assume "?T (cache_key meta, IdV1Whole) = Some sec" "sel_v1 sec = Some c"
  then have "read_header f = Inr 1" "load_v1_whole U X f = Inr c"
    using F by (auto simp: section_truth_def split: if_splits bind_splits elim!: loaded.elims)
  then show "agrees 1 ?T (hit c) ?r" using whole(1) by simp
next
  let ?d = "and_then (read_header f) (\<lambda>version.
        if version = 1 then and_then (load_v1_whole U X f) (\<lambda>c. Inr (WholeOf c))
        else if version = 2 then and_then (read_footer X f) (\<lambda>dir. Inr (DirOf dir)) else Inl (unsupported_version version))"
  let ?k = "\<lambda>d. case d of WholeOf c \<Rightarrow> Inr (w c) | DirOf d \<Rightarrow> v d"
  have "agrees 1 ?T (bind_run (segment_dir U X (cache_key meta) f) (\<lambda>d. case d of WholeOf c \<Rightarrow> miss c | DirOf d \<Rightarrow> via f d)) (and_then ?d ?k)"
  proof (rule agrees_bind)
    show "agrees 0 ?T (segment_dir U X (cache_key meta) f) ?d" by (rule agrees_segment_dir) (rule F)
    fix d assume "?d = Inr d"
    then show "agrees 1 ?T (case d of WholeOf c \<Rightarrow> miss c | DirOf d \<Rightarrow> via f d) (?k d)"
      using whole(2) dir by (cases "read_header f") (auto split: if_splits DirOrWhole.splits)
  qed
  moreover have "and_then ?d ?k = ?r"
  proof (cases "read_header f")
    case (Inr version)
    then show ?thesis by (cases "load_v1_whole U X f"; cases "read_footer X f") simp_all
  qed simp
  ultimately have k: "agrees 1 ?T (bind_run (segment_dir U X (cache_key meta) f) (\<lambda>d. case d of WholeOf c \<Rightarrow> miss c | DirOf d \<Rightarrow> via f d)) ?r" by simp
  have "agrees 1 ?T (bind_run (of_load (open_seg meta)) (\<lambda>f. bind_run (set_disk False) (\<lambda>_. bind_run (segment_dir U X (cache_key meta) f) (\<lambda>d.
      case d of WholeOf c \<Rightarrow> miss c | DirOf d \<Rightarrow> via f d)))) (and_then (Inr f) (\<lambda>_. and_then (Inr ()) (\<lambda>_. ?r)))"
    unfolding op
  proof (rule agrees_bind)
    fix g assume "Inr f = (Inr g :: byte list result)"
    then have g: "g = f" by simp
    show "agrees 1 ?T (bind_run (set_disk False) (\<lambda>_. bind_run (segment_dir U X (cache_key meta) g) (\<lambda>d.
        case d of WholeOf c \<Rightarrow> miss c | DirOf d \<Rightarrow> via g d))) (and_then (Inr ()) (\<lambda>_. ?r))"
      unfolding g by (rule agrees_bind [OF agrees_disk]) (rule k)
  qed (rule agrees_load)
  then show "agrees 1 ?T (bind_run (of_load (open_seg meta)) (\<lambda>f. bind_run (set_disk False) (\<lambda>_. bind_run (segment_dir U X (cache_key meta) f) (\<lambda>d.
      case d of WholeOf c \<Rightarrow> miss c | DirOf d \<Rightarrow> via f d)))) ?r" by simp
qed

section \<open>Properties\<close>

text \<open>
  A cache that is in order and holds nothing but sections of the files, where \<open>F\<close> gives the content of
  the file of each cache identity. (The identity is the number in the file's name, which is never
  given out again; a segment file does not change once it is in place.)
\<close>

definition cache_true ::
  "unicode \<Rightarrow> ('x) codec_ext_scheme \<Rightarrow> (nat \<rightharpoonup> byte list) \<Rightarrow> SegmentCache \<Rightarrow> bool" where
  "cache_true U X F c \<longleftrightarrow> cache_ok c \<and> cache_view c \<subseteq>\<^sub>m section_truth U X F"

lemma agrees_run:
  assumes "agrees n (section_truth U X F) m r" and "cache_true U X F (cr_cache s)" and "m s = (r', s')"
  shows "r' = r \<and> cache_true U X F (cr_cache s') \<and>
    ((\<exists>x. r' = Inr x) \<longrightarrow> cr_hits s' + cr_misses s' = cr_hits s + cr_misses s + n)"
proof -
  have "sections.coherent (section_truth U X F) (cr_cache s)" using assms(2) by (simp add: sections.coherent_def cache_true_def)
  with assms(1,3) show ?thesis by (auto simp: agrees_def sections.coherent_def cache_true_def)
qed

lemma agrees_cached_load_segment:
  assumes F: "F (cache_key meta) = Some f" and op: "open_seg meta = Inr f"
  shows "agrees 1 (section_truth U X F) (cached_load_segment U X open_seg meta need) (load_segment U X f need)"
proof -
  have dir: "agrees 1 (section_truth U X F)
      (bind_run (cached_sections X (cache_key meta) d f need) (\<lambda>c. bind_run note_access (\<lambda>_. ret_run (c, Some f))))
      (and_then (load_sections X f d need) (\<lambda>c. Inr (c, Some f)))"
    if v: "read_header f = Inr 2" "read_footer X f = Inr d" for d
  proof (rule agrees_bind [OF agrees_cached_sections agrees_note(3)])
    show "section_truth U X F (cache_key meta, sid) = section_of_dir X f d sid" for sid by (rule truth_v2) (use F v in auto)
  qed
  show ?thesis
    unfolding load_segment_def cached_load_segment_def Let_def
    by (rule agrees_loader [where w = "\<lambda>c. (c, None)"
        and via = "\<lambda>f d. bind_run (cached_sections X (cache_key meta) d f need) (\<lambda>c. bind_run note_access (\<lambda>_. ret_run (c, Some f)))"])
       (use F op dir agrees_note in auto)
qed

lemma agrees_cached_keys:
  assumes F: "F (cache_key meta) = Some f" and op: "open_seg meta = Inr f"
  shows "agrees 1 (section_truth U X F) (cached_load_segment_keys U X open_seg meta) (load_segment_keys U X open_seg meta)"
proof -
  have dir: "agrees 1 (section_truth U X F)
      (bind_run (section_keys X (cache_key meta) d f) (\<lambda>k. bind_run note_access (\<lambda>_. ret_run (Slim k))))
      (and_then (load_keys X f d) (\<lambda>k. Inr (Slim k)))"
    if v: "read_header f = Inr 2" "read_footer X f = Inr d" for d
  proof (rule agrees_bind [OF _ agrees_note(3)])
    show "agrees 0 (section_truth U X F) (section_keys X (cache_key meta) d f) (load_keys X f d)"
      unfolding section_keys_def using F v by (intro agrees_section) (simp_all add: section_truth_def)
  qed
  show ?thesis
    unfolding load_segment_keys_def cached_load_segment_keys_def Let_def op and_then.simps
    by (subst op [symmetric], rule agrees_loader [where w = Whole
        and via = "\<lambda>f d. bind_run (section_keys X (cache_key meta) d f) (\<lambda>k. bind_run note_access (\<lambda>_. ret_run (Slim k)))"])
       (use F op dir agrees_note in auto)
qed

text \<open>
  C35. The cache is transparent. However the cache got its entries and whatever it evicted, loading a
  segment or its keys through it returns exactly what reading the file returns -- the same columns or
  the same error -- and leaves a cache of which this is true again. A successful load counts one
  access, a hit or a miss.
\<close>

theorem cached_reads_equal_file_reads:
  assumes "cache_true U X F (cr_cache s)" and "F (cache_key meta) = Some f" and "open_seg meta = Inr f"
  shows "(case cached_load_segment U X open_seg meta need s of (r, s') \<Rightarrow>
            r = load_segment U X f need \<and> cache_true U X F (cr_cache s') \<and>
            ((\<exists>x. r = Inr x) \<longrightarrow> cr_hits s' + cr_misses s' = cr_hits s + cr_misses s + 1)) \<and>
         (case cached_load_segment_keys U X open_seg meta s of (r, s') \<Rightarrow>
            r = load_segment_keys U X open_seg meta \<and> cache_true U X F (cr_cache s') \<and>
            ((\<exists>x. r = Inr x) \<longrightarrow> cr_hits s' + cr_misses s' = cr_hits s + cr_misses s + 1))"
proof -
  have 1: "agrees 1 (section_truth U X F) (cached_load_segment U X open_seg meta need) (load_segment U X f need)"
    by (rule agrees_cached_load_segment) (fact assms)+
  have 2: "agrees 1 (section_truth U X F) (cached_load_segment_keys U X open_seg meta) (load_segment_keys U X open_seg meta)"
    by (rule agrees_cached_keys) (fact assms)+
  show ?thesis using agrees_run [OF 1 assms(1)] agrees_run [OF 2 assms(1)] by (auto split: prod.split)
qed

theorem cached_reads_equal_file_reads_witness:
  "fst (cached_load_segment ascii_unicode sample_codec_ext sample_open Engine_Props.sample_meta False
       \<lparr> cr_cache = cache_new 1000, cr_disk = False, cr_hits = 0, cr_misses = 0 \<rparr>) =
     Inr (from_records ascii_unicode sample_rows, None)"
proof -
  let ?f = "v1_file sample_codec_ext [1]" and ?s = "\<lparr> cr_cache = cache_new 1000, cr_disk = False, cr_hits = 0, cr_misses = 0 \<rparr>"
  have "cache_true ascii_unicode sample_codec_ext (\<lambda>_. Some ?f) (cr_cache ?s)"
  proof -
    have "cache_view (cache_new 1000) = Map.empty" by (simp add: fun_eq_iff cache_view_def cache_new_def)
    then show ?thesis by (simp add: cache_true_def cache_new_ok)
  qed
  moreover have "sample_open Engine_Props.sample_meta = Inr ?f" by (simp add: sample_open_def)
  ultimately have "fst (cached_load_segment ascii_unicode sample_codec_ext sample_open Engine_Props.sample_meta False ?s) =
      load_segment ascii_unicode sample_codec_ext ?f False"
    using cached_reads_equal_file_reads [of ascii_unicode sample_codec_ext "\<lambda>_. Some ?f" ?s Engine_Props.sample_meta ?f sample_open False]
    by (auto split: prod.splits)
  moreover have "load_v1_whole ascii_unicode sample_codec_ext ?f = Inr (from_records ascii_unicode sample_rows)"
    by (rule v1_whole) (simp_all add: sample_codec_ext_def)
  ultimately show ?thesis by (simp add: load_segment_def v1_header)
qed

end
