(* ===== verification/Spec2Isabelle.thy ===== *)
theory Spec2Isabelle
  imports Section_Cache Blob_Store Engine_Props Codec_File Store_Props Store_Invariant Store_Reclaim Cached_Reads
begin

text \<open>
  \<^bold>\<open>Girder\<close>, an embedded storage engine for trace-shaped records (crate in
  \<^verbatim>\<open>src/src\<close>): a write-ahead log, a memtable, immutable column segments listed by a
  manifest, background maintenance, and reads that merge all of them newest-wins. This theory
  imports the whole development; each theory opens with what it holds.

  \<^bold>\<open>Parts of the program and the theories that model them.\<close> The order is the order of imports.

  \<^item> \<open>Prelude\<close>, \<open>Float64\<close>, \<open>Utf8\<close>: the Rust base types and the standard library as the code uses
    it. \<^verbatim>\<open>String\<close> is the list of its scalar values, compared as the source compares bytes
    (\<open>Utf8\<close> proves the two orders agree); \<^verbatim>\<open>BTreeMap\<close> and \<^verbatim>\<open>HashMap\<close> are finite maps;
    \<^verbatim>\<open>f64\<close> is its 64 bits, with the comparisons, \<^verbatim>\<open>min\<close>/\<^verbatim>\<open>max\<close> and correctly
    rounded addition; unsigned integers are naturals with the casts written out; errors are the
    values of \<^verbatim>\<open>GirderError\<close>.
  \<^item> \<open>Text_Search\<close> (text.rs): tokens, the LIKE matcher, the token constraints of a pattern.
  \<^item> \<open>Records\<close> (record.rs): records, query specifications and their oracle \<open>matches\<close>, tombstones,
    counter deltas and \<open>merge_delta\<close>.
  \<^item> \<open>Memtable\<close> (memtable.rs): the ordered table with its token map, delta counter and delta range.
  \<^item> \<open>Wal\<close> (wal.rs): framing, fsync policies, replay with its size cap and version gate.
  \<^item> \<open>Zone_Map\<close>, \<open>Columns\<close>, \<open>Token_Index\<close>, \<open>Row_Match\<close>, \<open>Columns_Build\<close> (segment.rs): zone maps and
    pruning, in-memory columns, label dictionaries, blocks, posting lists, row selection and row
    reconstruction.
  \<^item> \<open>Codec\<close>, \<open>Segment_File\<close> (segment.rs, and load_segment of engine.rs): the version 2 encoder, every
    section decoder, the whole-file readers and the targeted section readers, with the error each
    malformed input gives.
  \<^item> \<open>Retention\<close> (retention.rs), \<open>Manifest_File\<close> (manifest.rs), \<open>Section_Cache\<close> (cache.rs and the
    section sizes of segment.rs), \<open>Blob_Store\<close> (blob.rs and the blob calls of engine.rs and
    actors.rs).
  \<^item> \<open>Engine_Read\<close> (engine.rs): point lookup, full scan, top-k scan, fold-mode scan, count, the walk
    plan with its shadow probes, the retry loop. \<open>Engine_Spec\<close>: what a read means -- the newest
    version of every key over the sources of a state -- and the lemmas on each phase.
    \<open>Engine_Scan\<close>, \<open>Engine_Refine\<close>, \<open>Engine_Fold\<close>, \<open>Engine_Props\<close>: every read path computes the
    reference over the visible record of each key.
  \<^item> \<open>Cached_Reads\<close> (engine.rs): the section accessors and the segment loaders that go through the
    section cache. The read paths load segments without the cache; both ways are shown to agree.
  \<^item> \<open>Compaction\<close> (actors.rs): which run to merge, the merge, the split into capped chunks.
    \<open>Store\<close> (engine.rs and the writer of actors.rs): the engine's whole state -- shared state, files,
    logs, remote store, cache -- and its operations: append, increment, freeze, flush, close, opening
    a segment on any tier, recovery on open. \<open>Maintenance\<close> (actors.rs): compaction, purge,
    reclamation, grooming, migration, tiering and the tick, as actions on that state. The outcome
    of each file operation is given by the environment \<open>env\<close>, so every error path is reached.
  \<^item> \<open>Durability\<close>: the step relation of writes, freezes and flushes, its invariant, and what a crash
    leaves. \<open>Store_Reads\<close>: freezing, flushing and compacting keep what is read.
  \<^item> \<open>Codec_Columns\<close>, \<open>Codec_File\<close>: every section decoder inverts its encoder, the layout and footer
    of a file locate its sections, and a whole segment file reads back.
  \<^item> \<open>Store_Disk\<close>: the invariant that ties the manifest to the files, under which the read path returns
    what the state holds; freeze and flush keep it. \<open>Store_Compact\<close>: compaction and purge over the
    files. \<open>Store_Live\<close>: these operations complete when no file operation fails. \<open>Store_Samples\<close>: a
    small engine on which they run. \<open>Store_Props\<close>: what follows for lookups and scans.
    \<open>Store_Reclaim\<close>: the evidence the reclaimer reads and that the rows it drops are never seen.
    \<open>Store_Invariant\<close>: the shape of the state, which every operation of both actors and opening
    keep on every branch, failures included.

  \<^bold>\<open>State and operations.\<close> A struct is a record with its fields, an enum a datatype, a method a
  function from the state (and what the method is given) to the new state or result; a loop is a
  recursive function with a termination proof; \<^verbatim>\<open>Result\<close> is a sum whose left side is the
  error. Files are byte lists; a step that touches the disk is a list of file operations, and
  \<open>fs_crash\<close> gives every directory a crash in the middle of such a list can leave.

  \<^bold>\<open>Interfaces.\<close> The locales \<open>postings\<close> (a token index, interpreted by the memtable's token map and by
  the segment posting lists), \<open>durable_log\<close> (what replay returns after a crash, interpreted by the
  log), \<open>ttl_oracle\<close> (what the groomer relies on, interpreted by the compiled policy) and
  \<open>lookaside\<close> (what a client of the cache relies on, interpreted by the section cache).

  \<^bold>\<open>Parameters.\<close> Code outside the repository is a parameter, a field of the records \<open>wal_ext\<close>,
  \<open>seg_ext\<close>, \<open>codec_ext\<close> and \<open>man_ext\<close>: the MessagePack serialisers, the checksum, the deflate
  codec; also the Unicode tables (\<open>unicode\<close>) and the SHA-256 digest. What the code relies on of them is
  named (\<open>rmp_ok\<close>, \<open>man_rmp_ok\<close>, \<open>codec_rmp_ok\<close>, \<open>unicode_ok\<close>, \<open>unicode_str\<close>): a value read back is the value written, a checksum is 32
  bits wide, lower-casing is stable on what it produced.

  \<^bold>\<open>What the properties show.\<close> Durability: an acknowledged batch survives a
  crash, what each fsync policy can lose, that replacing the manifest and storing a blob are
  atomic. Agreement: the memtable's token map, the segment's columns, blocks and posting lists,
  the zone maps and the LIKE constraints each select exactly what the naive oracle selects, or
  never lose a match where they are filters. Refinement: the memtable refines the fold of writes
  per key, the cache refines a map. Reads: lookups, scans and counts on every path return what the
  map of visible records says. The whole engine: what any run of acknowledged writes, freezes and
  flushes leaves in the logs after a crash gives every write back. Files: a segment file read
  back, whole or section by section, gives the records it was written from, through the section
  cache or not. Background work: a flush or a compaction that reports success changes no read, nor
  does a reclamation of dead rows, a purge leaves nothing of its key, a flush completes when the
  disk does; whatever fails, the state keeps its shape. Errors: what a future version, an
  oversized record or a torn write gives; lemmas beside the properties treat manifest versions and
  missing or altered blobs. Several theorems record behaviour that departs from what the code or
  its documentation intends; the findings of the manifest name them.

  \<^bold>\<open>Bounds.\<close> Every recursive definition is total with a measure; no fuel is used. Segments have fewer
  than 2 ^ 32 rows, a logged record is within the cap of replay (what a longer one does is a
  property of its own), a batch has fewer than 2 ^ 32 records, and segment files have fewer than
  2 ^ 32 bytes (posting offsets are that wide).

  \<^bold>\<open>Not modelled.\<close> The actor runtime, threads and locks (an operation sees one state; the races the
  code leaves open between its lock acquisitions are not part of the model), the counters of
  \<^verbatim>\<open>Stats\<close> other than cache hits and misses, logging, and the benchmark and test code.
\<close>

end
